(* ===== verification/Prelude.thy ===== *)
theory Prelude
  imports Main "HOL-Library.Word"
begin

text \<open>
  Shared vocabulary of the development: the machine integer types of the code, the faults a
  C++ operation can end in (undefined behaviour and failed \<open>ASSERT\<close>s are values of the
  model, so that their absence is a theorem), the result type with its bind, and the lemmas on
  lists and words that several components use.
\<close>

unbundle bit_operations_syntax

section \<open>Machine integers\<close>

type_synonym byte = "8 word"
type_synonym u16 = "16 word"
type_synonym u32 = "32 word"
type_synonym u64 = "64 word"
type_synonym i32 = "32 word"

section \<open>Faults and results\<close>

text \<open>
  An operation of the code either returns (\<open>Inr\<close>) or ends in a fault (\<open>Inl\<close>):
  dereferencing \<open>NULL\<close> or an uninitialised or freed pointer, freeing twice, leaving the bounds
  of an array, reading an uninitialised variable, a failed \<open>ASSERT\<close> (which logs at level
  FATAL and aborts), a division by zero, a container asked for more elements than it can have (an
  exception nobody catches). \<open>Diverges\<close> is the result of a loop that never ends:
  such loops are \<^theory_text>\<open>partial_function (option)\<close>s, whose \<open>None\<close> it stands for.
\<close>

datatype fault =
    Null_Deref
  | Wild_Access
  | Double_Free
  | Out_Of_Bounds
  | Uninit_Read
  | Assert_Failed
  | Div_By_Zero
  | Length_Error
  | Diverges

type_synonym 'a res = "fault + 'a"

definition bindR :: "'a res \<Rightarrow> ('a \<Rightarrow> 'b res) \<Rightarrow> 'b res" where
  "bindR m f = (case m of Inl e \<Rightarrow> Inl e | Inr x \<Rightarrow> f x)"

definition guardR :: "bool \<Rightarrow> fault \<Rightarrow> unit res" where
  "guardR b e = (if b then Inr () else Inl e)"

named_theorems res_simps "case analysis of results"

lemma bindR_Inr [simp]: "bindR (Inr x) f = f x"
  by (simp add: bindR_def)

lemma bindR_Inl [simp]: "bindR (Inl e) f = Inl e"
  by (simp add: bindR_def)

lemma bindR_eq_Inr [res_simps]: "bindR m f = Inr y \<longleftrightarrow> (\<exists>x. m = Inr x \<and> f x = Inr y)"
  by (cases m) auto

lemma bindR_assoc: "bindR (bindR m f) g = bindR m (\<lambda>x. bindR (f x) g)"
  by (cases m) auto

lemma guardR_simps [simp]: "guardR True e = Inr ()" "guardR False e = Inl e"
  by (simp_all add: guardR_def)

lemma guardR_eq_Inr [res_simps]: "guardR b e = Inr u \<longleftrightarrow> b"
  by (cases b) auto

definition loopR :: "'a res option \<Rightarrow> 'a res" where
  "loopR r = (case r of None \<Rightarrow> Inl Diverges | Some x \<Rightarrow> x)"

lemma loopR_simps [simp]: "loopR None = Inl Diverges" "loopR (Some x) = x"
  by (simp_all add: loopR_def)

section \<open>Sizes\<close>

text \<open>\<open>size_t\<close> arithmetic, with the wrap-around at \<open>2 ^ 64\<close> written out.\<close>

definition add64 :: "nat \<Rightarrow> nat \<Rightarrow> nat" where
  "add64 a b = (a + b) mod 2 ^ 64"

definition sub64 :: "nat \<Rightarrow> nat \<Rightarrow> nat" where
  "sub64 a b = (a + (2 ^ 64 - b mod 2 ^ 64)) mod 2 ^ 64"

lemma add64_less [simp]: "add64 a b < 2 ^ 64"
  by (simp add: add64_def)

lemma add64_small [simp]: "a + b < 2 ^ 64 \<Longrightarrow> add64 a b = a + b"
  by (simp add: add64_def)

lemma sub64_small [simp]: "b \<le> a \<Longrightarrow> a < 2 ^ 64 \<Longrightarrow> sub64 a b = a - b"
  by (simp add: sub64_def mod_if)

text \<open>Two counters that wrap around keep their difference.\<close>

lemma int_sub64: "int (sub64 a b) = (int a - int b) mod 2 ^ 64"
proof -
  have "int (sub64 a b) = (int a + 2 ^ 64 - int b mod 2 ^ 64) mod 2 ^ 64"
    by (simp add: sub64_def of_nat_mod of_nat_diff less_imp_le)
  also have "\<dots> = ((int a - int b) + 2 ^ 64) mod 2 ^ 64"
    by (simp add: mod_diff_right_eq algebra_simps)
  finally show ?thesis by (metis mod_add_self2)
qed

lemma int_add64: "int (add64 a b) = (int a + int b) mod 2 ^ 64"
  by (simp add: add64_def of_nat_mod)

lemma sub64_less [simp]: "sub64 a b < 2 ^ 64"
  by (simp add: sub64_def)

lemma sub64_add_left: "sub64 a b + n < 2 ^ 64 \<Longrightarrow> sub64 (add64 a n) b = sub64 a b + n"
proof -
  assume a: "sub64 a b + n < 2 ^ 64"
  have "int (sub64 (add64 a n) b) = ((int a - int b) mod 2 ^ 64 + int n) mod 2 ^ 64"
    unfolding int_sub64 int_add64 by (simp only: mod_simps) (simp add: algebra_simps)
  also have "\<dots> = int ((sub64 a b + n) mod 2 ^ 64)"
    by (simp only: int_sub64 [symmetric] of_nat_mod of_nat_add of_nat_power of_nat_numeral)
  finally show ?thesis using a by (simp only: of_nat_eq_iff mod_less)
qed

lemma sub64_add_right:
  assumes "n \<le> sub64 a b"
  shows "sub64 a (add64 b n) = sub64 a b - n"
proof -
  have "int (sub64 a (add64 b n)) = ((int a - int b) mod 2 ^ 64 - int n) mod 2 ^ 64"
    unfolding int_sub64 int_add64 by (simp only: mod_simps) (simp add: algebra_simps)
  also have "\<dots> = int (sub64 a b - n) mod 2 ^ 64"
    using assms by (simp only: int_sub64 [symmetric] of_nat_diff)
  also have "\<dots> = int (sub64 a b - n)"
    using less_imp_diff_less [OF sub64_less [of a b], of n]
    by (metis mod_less of_nat_mod of_nat_numeral of_nat_power)
  finally show ?thesis by (simp only: of_nat_eq_iff)
qed

section \<open>Lists\<close>

text \<open>
  \<open>memcpy\<close> of \<open>bs\<close> to offset \<open>i\<close> of the array \<open>arr\<close>; the caller checks the bounds.
\<close>

definition memcpy_at :: "'a list \<Rightarrow> nat \<Rightarrow> 'a list \<Rightarrow> 'a list" where
  "memcpy_at arr i bs = take i arr @ bs @ drop (i + length bs) arr"

lemma length_memcpy_at [simp]:
  "i + length bs \<le> length arr \<Longrightarrow> length (memcpy_at arr i bs) = length arr"
  by (simp add: memcpy_at_def)

lemma take_memcpy_at [simp]:
  "i + length bs \<le> length arr \<Longrightarrow> take (i + length bs) (memcpy_at arr i bs) = take i arr @ bs"
  by (simp add: memcpy_at_def)

lemma take_memcpy_at_prefix [simp]:
  "i \<le> length arr \<Longrightarrow> take i (memcpy_at arr i bs) = take i arr"
  by (simp add: memcpy_at_def)

text \<open>\<open>overlay\<close>: the bytes of a variable after \<open>length new\<close> of them were overwritten.\<close>

definition overlay :: "'a list \<Rightarrow> 'a list \<Rightarrow> 'a list" where
  "overlay new old = new @ drop (length new) old"

lemma overlay_full [simp]: "length new = length old \<Longrightarrow> overlay new old = new"
  by (simp add: overlay_def)

lemma drop_take_concat_step:
  "n \<le> length xs \<Longrightarrow> drop n (xs @ ys) = drop n xs @ ys"
  by simp

lemma take_drop_id2: "take n xs @ take m (drop n xs) = take (n + m) xs"
  by (simp add: take_add)

section \<open>Words\<close>

lemma unat_of_nat_u64 [simp]: "n < 2 ^ 64 \<Longrightarrow> unat (word_of_nat n :: u64) = n"
  by (simp add: unat_of_nat take_bit_nat_eq_self)

lemma unat_of_nat_u32 [simp]: "n < 2 ^ 32 \<Longrightarrow> unat (word_of_nat n :: u32) = n"
  by (simp add: unat_of_nat take_bit_nat_eq_self)

lemma unat_byte_less [simp]: "unat (b :: byte) < 256"
  using unsigned_less [where ?'a = nat, of b] by simp

lemma unat_u64_less: "unat (w :: u64) < 2 ^ 64"
  using unsigned_less [where ?'a = nat, of w] by simp

lemma unat_u32_less: "unat (w :: u32) < 2 ^ 32"
  using unsigned_less [where ?'a = nat, of w] by simp

lemma u64_less_succ: "w \<noteq> -1 \<Longrightarrow> (w :: u64) < w + 1"
proof -
  assume "w \<noteq> -1"
  then have "unat w \<noteq> unat (-1 :: u64)" by (simp only: word_unat_eq_iff not_False_eq_True)
  moreover have "unat (-1 :: u64) = 2 ^ 64 - 1" by (simp add: unsigned_minus_1_eq_mask mask_eq_exp_minus_1)
  ultimately have "unat w + 1 < 2 ^ 64" using unat_u64_less [of w] by linarith
  then have "unat (w + 1) = unat w + 1" by (simp add: unat_word_ariths)
  then show ?thesis by (simp add: word_less_nat_alt)
qed

end
