(* ===== verification/Bytes.thy ===== *)
theory Bytes
  imports Prelude
begin

text \<open>
  Integers in memory. The code reads and writes integers through casted pointers on a
  little-endian machine (it targets x86: \<open>spin_lock.cc\<close> uses its \<open>pause\<close> instruction), so an
  integer is the list of its bytes, least significant first.
\<close>

fun le_val :: "byte list \<Rightarrow> nat" where
  "le_val [] = 0"
| "le_val (b # bs) = unat b + 256 * le_val bs"

fun le_bytes :: "nat \<Rightarrow> nat \<Rightarrow> byte list" where
  "le_bytes 0 v = []"
| "le_bytes (Suc k) v = word_of_nat v # le_bytes k (v div 256)"

lemma length_le_bytes [simp]: "length (le_bytes k v) = k"
  by (induction k arbitrary: v) auto

lemma unat_byte_of_nat: "unat (word_of_nat v :: byte) = v mod 256"
  by (simp add: unat_of_nat take_bit_eq_mod)

lemma le_val_le_bytes: "le_val (le_bytes k v) = v mod 256 ^ k"
  by (induction k arbitrary: v)
    (auto simp: unat_byte_of_nat mod_mult2_eq algebra_simps)

lemma le_bytes_le_val: "length bs = k \<Longrightarrow> le_bytes k (le_val bs) = bs"
proof (induction bs arbitrary: k)
  case (Cons b bs)
  have "word_of_nat (unat b + 256 * le_val bs) = b"
    by (simp only: word_unat_eq_iff unat_byte_of_nat) simp
  moreover have "(unat b + 256 * le_val bs) div 256 = le_val bs"
    using unat_byte_less [of b] by linarith
  ultimately show ?case using Cons by auto
qed simp

lemma le_val_less: "le_val bs < 256 ^ length bs"
proof (induction bs)
  case (Cons b bs)
  have "unat b + 256 * le_val bs < 256 * (le_val bs + 1)"
    using unat_byte_less [of b] by (simp del: unat_byte_less)
  also have "\<dots> \<le> 256 * 256 ^ length bs"
    using Cons by (intro mult_le_mono2) simp
  finally show ?case by simp
qed simp

lemma le_val_append: "le_val (xs @ ys) = le_val xs + 256 ^ length xs * le_val ys"
  by (induction xs) (auto simp: algebra_simps)

lemma le_val_inject: "length xs = length ys \<Longrightarrow> le_val xs = le_val ys \<Longrightarrow> xs = ys"
  by (metis le_bytes_le_val)

text \<open>A load and a store of a \<open>uint64_t\<close> and of a \<open>uint32_t\<close>.\<close>

definition load64 :: "byte list \<Rightarrow> u64" where
  "load64 bs = word_of_nat (le_val (take 8 bs))"

definition store64 :: "u64 \<Rightarrow> byte list" where
  "store64 w = le_bytes 8 (unat w)"

definition load32 :: "byte list \<Rightarrow> u32" where
  "load32 bs = word_of_nat (le_val (take 4 bs))"

definition store32 :: "u32 \<Rightarrow> byte list" where
  "store32 w = le_bytes 4 (unat w)"

lemma length_store [simp]: "length (store64 w) = 8" "length (store32 v) = 4"
  by (simp_all add: store64_def store32_def)

lemma load_store64 [simp]: "load64 (store64 w) = w"
  using unat_u64_less [of w] by (simp add: load64_def store64_def le_val_le_bytes)

lemma load_store32 [simp]: "load32 (store32 w) = w"
  using unat_u32_less [of w] by (simp add: load32_def store32_def le_val_le_bytes)

lemma store_load64: "length bs = 8 \<Longrightarrow> store64 (load64 bs) = bs"
  using le_val_less [of bs]
  by (simp add: load64_def store64_def le_bytes_le_val unat_of_nat take_bit_nat_eq_self)

lemma store_load32: "length bs = 4 \<Longrightarrow> store32 (load32 bs) = bs"
  using le_val_less [of bs]
  by (simp add: load32_def store32_def le_bytes_le_val unat_of_nat take_bit_nat_eq_self)

lemma load64_inject:
  "length xs = 8 \<Longrightarrow> length ys = 8 \<Longrightarrow> load64 xs = load64 ys \<Longrightarrow> xs = ys"
  by (metis store_load64)

end
