(* ===== verification/Lookup8.thy ===== *)
theory Lookup8
  imports Bytes
begin

text \<open>
  \<open>src/util/lookup8.cc\<close>: Bob Jenkins' 64-bit hashes, which the id generator uses. \<open>mix64\<close> is
  the in-place macro, as a function of the three words; \<open>hash\<close> reads the key byte by byte,
  \<open>hash2\<close> reads an array of words, \<open>hash3\<close> reads words where the key is aligned.
\<close>

section \<open>The mixing step\<close>

definition mix64 :: "u64 \<Rightarrow> u64 \<Rightarrow> u64 \<Rightarrow> u64 \<times> u64 \<times> u64" where
  "mix64 a b c =
    (let a = a - b; a = a - c; a = a XOR drop_bit 43 c;
         b = b - c; b = b - a; b = b XOR push_bit 9 a;
         c = c - a; c = c - b; c = c XOR drop_bit 8 b;
         a = a - b; a = a - c; a = a XOR drop_bit 38 c;
         b = b - c; b = b - a; b = b XOR push_bit 23 a;
         c = c - a; c = c - b; c = c XOR drop_bit 5 b;
         a = a - b; a = a - c; a = a XOR drop_bit 35 c;
         b = b - c; b = b - a; b = b XOR push_bit 49 a;
         c = c - a; c = c - b; c = c XOR drop_bit 11 b;
         a = a - b; a = a - c; a = a XOR drop_bit 12 c;
         b = b - c; b = b - a; b = b XOR push_bit 18 a;
         c = c - a; c = c - b; c = c XOR drop_bit 22 b
     in (a, b, c))"

section \<open>The byte-wise hash\<close>

text \<open>Eight bytes from offset \<open>i\<close>, assembled with shifts.\<close>

definition le8 :: "byte list \<Rightarrow> nat \<Rightarrow> u64" where
  "le8 k i = ucast (k ! i) + push_bit 8 (ucast (k ! (i + 1))) + push_bit 16 (ucast (k ! (i + 2)))
     + push_bit 24 (ucast (k ! (i + 3))) + push_bit 32 (ucast (k ! (i + 4)))
     + push_bit 40 (ucast (k ! (i + 5))) + push_bit 48 (ucast (k ! (i + 6)))
     + push_bit 56 (ucast (k ! (i + 7)))"

text \<open>The initial value of \<open>c\<close>, the golden ratio.\<close>

definition golden :: u64 where
  "golden = 0x9e3779b97f4a7c13"

text \<open>The \<open>while (len >= 24)\<close> loop; the result carries the remaining key.\<close>

fun hash_loop :: "byte list \<Rightarrow> u64 \<times> u64 \<times> u64 \<Rightarrow> byte list \<times> u64 \<times> u64 \<times> u64" where
  "hash_loop k (a, b, c) =
    (if 24 \<le> length k then
       hash_loop (drop 24 k) (mix64 (a + le8 k 0) (b + le8 k 8) (c + le8 k 16))
     else (k, a, b, c))"

declare hash_loop.simps [simp del]

text \<open>
  The \<open>switch (len)\<close> whose cases fall through: the statement of \<open>case n\<close> runs when \<open>n\<close> or more
  bytes are left.
\<close>

definition at_case :: "byte list \<Rightarrow> nat \<Rightarrow> nat \<Rightarrow> u64" where
  "at_case k n s = (if n \<le> length k then push_bit s (ucast (k ! (n - 1))) else 0)"

definition hash_tail :: "byte list \<Rightarrow> u64 \<Rightarrow> u64 \<Rightarrow> u64 \<Rightarrow> u64 \<times> u64 \<times> u64" where
  "hash_tail k a b c =
    (let c = c + at_case k 23 56 + at_case k 22 48 + at_case k 21 40 + at_case k 20 32
               + at_case k 19 24 + at_case k 18 16 + at_case k 17 8;
         b = b + at_case k 16 56 + at_case k 15 48 + at_case k 14 40 + at_case k 13 32
               + at_case k 12 24 + at_case k 11 16 + at_case k 10 8 + at_case k 9 0;
         a = a + at_case k 8 56 + at_case k 7 48 + at_case k 6 40 + at_case k 5 32
               + at_case k 4 24 + at_case k 3 16 + at_case k 2 8 + at_case k 1 0
     in (a, b, c))"

definition hash :: "byte list \<Rightarrow> u64 \<Rightarrow> u64" where
  "hash k level =
    (let (r, a, b, c) = hash_loop k (level, level, golden);
         c = c + word_of_nat (length k);
         (a, b, c) = hash_tail r a b c;
         (a, b, c) = mix64 a b c
     in c)"

section \<open>The word-wise hash\<close>

fun hash2_loop :: "u64 list \<Rightarrow> u64 \<times> u64 \<times> u64 \<Rightarrow> u64 list \<times> u64 \<times> u64 \<times> u64" where
  "hash2_loop k (a, b, c) =
    (if 3 \<le> length k then
       hash2_loop (drop 3 k) (mix64 (a + k ! 0) (b + k ! 1) (c + k ! 2))
     else (k, a, b, c))"

declare hash2_loop.simps [simp del]

definition hash2 :: "u64 list \<Rightarrow> u64 \<Rightarrow> u64" where
  "hash2 k level =
    (let (r, a, b, c) = hash2_loop k (level, level, golden);
         c = c + push_bit 3 (word_of_nat (length k));
         b = (if 2 \<le> length r then b + r ! 1 else b);
         a = (if 1 \<le> length r then a + r ! 0 else a);
         (a, b, c) = mix64 a b c
     in c)"

section \<open>The hash for aligned keys\<close>

text \<open>The loop that loads whole words, \<open>*(ub8 *)(k + i)\<close>.\<close>

fun hash3_loop :: "byte list \<Rightarrow> u64 \<times> u64 \<times> u64 \<Rightarrow> byte list \<times> u64 \<times> u64 \<times> u64" where
  "hash3_loop k (a, b, c) =
    (if 24 \<le> length k then
       hash3_loop (drop 24 k)
         (mix64 (a + load64 k) (b + load64 (drop 8 k)) (c + load64 (drop 16 k)))
     else (k, a, b, c))"

declare hash3_loop.simps [simp del]

text \<open>\<open>p\<close> is the address of the key.\<close>

definition hash3 :: "u64 \<Rightarrow> byte list \<Rightarrow> u64 \<Rightarrow> u64" where
  "hash3 p k level =
    (let (r, a, b, c) = (if p AND 7 \<noteq> 0 then hash_loop k (level, level, golden)
                         else hash3_loop k (level, level, golden));
         c = c + word_of_nat (length k);
         (a, b, c) = hash_tail r a b c;
         (a, b, c) = mix64 a b c
     in c)"

section \<open>The mixing step is reversible\<close>

text \<open>The three kinds of line of the macro, each undone by its own inverse.\<close>

definition mix_a :: "nat \<Rightarrow> u64 \<times> u64 \<times> u64 \<Rightarrow> u64 \<times> u64 \<times> u64" where
  "mix_a n = (\<lambda>(a, b, c). ((a - b - c) XOR drop_bit n c, b, c))"

definition mix_b :: "nat \<Rightarrow> u64 \<times> u64 \<times> u64 \<Rightarrow> u64 \<times> u64 \<times> u64" where
  "mix_b n = (\<lambda>(a, b, c). (a, (b - c - a) XOR push_bit n a, c))"

definition mix_c :: "nat \<Rightarrow> u64 \<times> u64 \<times> u64 \<Rightarrow> u64 \<times> u64 \<times> u64" where
  "mix_c n = (\<lambda>(a, b, c). (a, b, (c - a - b) XOR drop_bit n b))"

lemma xor_cancel: "(x XOR y) XOR y = (x :: u64)"
  by (simp add: xor.assoc)

lemma bij_mix_a: "bij (mix_a n)"
  by (rule o_bij [where g = "\<lambda>(a, b, c). ((a XOR drop_bit n c) + c + b, b, c)"])
    (auto simp: mix_a_def fun_eq_iff xor_cancel)

lemma bij_mix_b: "bij (mix_b n)"
  by (rule o_bij [where g = "\<lambda>(a, b, c). (a, (b XOR push_bit n a) + a + c, c)"])
    (auto simp: mix_b_def fun_eq_iff xor_cancel)

lemma bij_mix_c: "bij (mix_c n)"
  by (rule o_bij [where g = "\<lambda>(a, b, c). (a, b, (c XOR drop_bit n b) + b + a)"])
    (auto simp: mix_c_def fun_eq_iff xor_cancel)

definition mix_round :: "nat \<Rightarrow> nat \<Rightarrow> nat \<Rightarrow> u64 \<times> u64 \<times> u64 \<Rightarrow> u64 \<times> u64 \<times> u64" where
  "mix_round i j k = mix_c k \<circ> mix_b j \<circ> mix_a i"

lemma bij_mix_round: "bij (mix_round i j k)"
  by (simp add: mix_round_def bij_comp bij_mix_a bij_mix_b bij_mix_c)

text \<open>Three lines of the macro are one round.\<close>

lemma mix_round_let:
  "(let a = a - b; a = a - c; a = a XOR drop_bit i c;
        b = b - c; b = b - a; b = b XOR push_bit j a;
        c = c - a; c = c - b; c = c XOR drop_bit k b
    in f a b c) = (case mix_round i j k (a, b, c) of (a, b, c) \<Rightarrow> f a b c)"
  by (simp add: mix_round_def mix_a_def mix_b_def mix_c_def Let_def)

lemma mix64_rounds:
  "(\<lambda>(a, b, c). mix64 a b c)
    = mix_round 12 18 22 \<circ> mix_round 35 49 11 \<circ> mix_round 38 23 5 \<circ> mix_round 43 9 8"
  unfolding mix64_def mix_round_let by (simp add: fun_eq_iff split_beta)

section \<open>Reading words is reading bytes\<close>

lemma eight_bytes:
  assumes "8 \<le> length k"
  obtains b0 b1 b2 b3 b4 b5 b6 b7 r where "k = [b0, b1, b2, b3, b4, b5, b6, b7] @ r"
proof -
  have "8 = Suc (Suc (Suc (Suc (Suc (Suc (Suc (Suc 0)))))))" by simp
  with assms show ?thesis
    using that by (auto simp: Suc_le_length_iff)
qed

lemma load64_le8_0: "8 \<le> length k \<Longrightarrow> load64 k = le8 k 0"
proof -
  assume "8 \<le> length k"
  then obtain b0 b1 b2 b3 b4 b5 b6 b7 r where k: "k = [b0, b1, b2, b3, b4, b5, b6, b7] @ r"
    by (rule eight_bytes)
  have u: "(word_of_nat (unat (b :: byte)) :: u64) = ucast b" for b
    by (simp add: of_nat_unat)
  have s: "(word_of_nat (x + 256 * y) :: u64) = word_of_nat x + push_bit 8 (word_of_nat y)" for x y
    by (simp add: push_bit_eq_mult)
  have "load64 k = word_of_nat (le_val [b0, b1, b2, b3, b4, b5, b6, b7])"
    by (simp only: k load64_def) simp
  also have "\<dots> = le8 k 0"
    by (simp only: le_val.simps s u of_nat_0 push_bit_add push_bit_push_bit)
      (simp add: k le8_def add.assoc)
  finally show ?thesis .
qed

lemma le8_drop: "le8 k (i + j) = le8 (drop i k) j" if "i + j + 8 \<le> length k"
  using that by (simp add: le8_def algebra_simps)

lemma load64_le8: "i + 8 \<le> length k \<Longrightarrow> load64 (drop i k) = le8 k i"
  using le8_drop [of i 0 k] by (simp add: load64_le8_0)

lemma hash3_loop_eq: "hash3_loop k s = hash_loop k s"
proof (induction k s rule: hash3_loop.induct)
  case (1 k a b c)
  show ?case
  proof (cases "24 \<le> length k")
    case True
    then show ?thesis
      using 1 load64_le8 [of 0 k] load64_le8 [of 8 k] load64_le8 [of 16 k]
      by (simp add: hash3_loop.simps [of k] hash_loop.simps [of k])
  qed (simp add: hash3_loop.simps [of k] hash_loop.simps [of k])
qed

text \<open>A word array as the bytes it occupies.\<close>

definition word_bytes :: "u64 list \<Rightarrow> byte list" where
  "word_bytes ws = concat (map store64 ws)"

lemma length_word_bytes [simp]: "length (word_bytes ws) = 8 * length ws"
  by (induction ws) (auto simp: word_bytes_def)

lemma word_bytes_Cons [simp]: "word_bytes (w # ws) = store64 w @ word_bytes ws"
  by (simp add: word_bytes_def)

lemma word_bytes_Nil [simp]: "word_bytes [] = []"
  by (simp add: word_bytes_def)

lemma load64_append: "length xs = 8 \<Longrightarrow> load64 (xs @ ys) = load64 xs"
  by (simp add: load64_def)

lemma le8_word_bytes: "i < length ws \<Longrightarrow> le8 (word_bytes ws) (8 * i) = ws ! i"
proof -
  assume i: "i < length ws"
  have "drop (8 * i) (word_bytes ws) = word_bytes (drop i ws)"
    using i
  proof (induction ws arbitrary: i)
    case (Cons w ws)
    then show ?case by (cases i) auto
  qed simp
  moreover have "drop i ws = ws ! i # drop (Suc i) ws" using i by (simp add: Cons_nth_drop_Suc)
  ultimately have "load64 (drop (8 * i) (word_bytes ws)) = ws ! i"
    by (simp add: load64_append)
  then show ?thesis using i load64_le8 [of "8 * i" "word_bytes ws"] by simp
qed

lemma hash2_loop_eq:
  "hash_loop (word_bytes k) s = (case hash2_loop k s of (r, t) \<Rightarrow> (word_bytes r, t))"
proof (induction k s rule: hash2_loop.induct)
  case (1 k a b c)
  show ?case
  proof (cases "3 \<le> length k")
    case True
    then obtain x y z r where k: "k = x # y # z # r"
      by (auto simp: numeral_3_eq_3 Suc_le_length_iff)
    have "le8 (word_bytes k) 0 = x" "le8 (word_bytes k) 8 = y" "le8 (word_bytes k) 16 = z"
      using le8_word_bytes [of 0 k] le8_word_bytes [of 1 k] le8_word_bytes [of 2 k] by (auto simp: k)
    moreover have "drop 24 (word_bytes k) = word_bytes r" by (simp add: k)
    ultimately show ?thesis
      using 1 True by (simp add: hash_loop.simps [of "word_bytes k"] hash2_loop.simps [of k])
        (simp add: k)
  qed (simp add: hash_loop.simps [of "word_bytes k"] hash2_loop.simps [of k])
qed

lemma hash2_loop_rest: "hash2_loop k s = (r, t) \<Longrightarrow> length r < 3"
proof (induction k s rule: hash2_loop.induct)
  case (1 k a b c)
  then show ?case
    by (cases "3 \<le> length k") (auto simp: hash2_loop.simps [of k])
qed

lemma hash_tail_words:
  assumes "length r < 3"
  shows "hash_tail (word_bytes r) a b c
    = ((if 1 \<le> length r then a + r ! 0 else a), (if 2 \<le> length r then b + r ! 1 else b), c)"
proof -
  consider "r = []" | x where "r = [x]" | x y where "r = [x, y]"
  proof (cases r)
    case (Cons x r')
    then show ?thesis using assms that by (cases r') auto
  qed (use that in auto)
  then show ?thesis
  proof cases
    case 1
    then show ?thesis by (simp add: hash_tail_def at_case_def)
  next
    case 2
    then show ?thesis
      using le8_word_bytes [of 0 r] by (simp add: hash_tail_def at_case_def le8_def numeral_2_eq_2 ac_simps)
  next
    case 3
    then show ?thesis
      using le8_word_bytes [of 0 r] le8_word_bytes [of 1 r]
      by (simp add: hash_tail_def at_case_def le8_def numeral_2_eq_2 ac_simps)
  qed
qed

section \<open>Properties\<close>

text \<open>
  \<open>mix64\<close> is a permutation of the triples of 64-bit words, as its comment claims: no two
  inputs are merged.
\<close>
lemma mix64_reversible: "bij (\<lambda>(a, b, c). mix64 a b c)"
  unfolding mix64_rounds by (simp add: bij_comp bij_mix_round)

text \<open>
  C26. \<open>hash3\<close> equals \<open>hash\<close> on every key, at every address: the word loads of the aligned case
  read what the shifts of \<open>hash\<close> assemble.
\<close>
theorem hash3_is_hash: "hash3 p k level = hash k level"
  by (simp add: hash3_def hash_def hash3_loop_eq)

text \<open>
  \<open>hash2\<close> on an array of words equals \<open>hash\<close> on the bytes of the array.
\<close>
lemma hash2_is_hash: "hash2 ws level = hash (word_bytes ws) level"
proof -
  obtain r a b c where l: "hash2_loop ws (level, level, golden) = (r, a, b, c)"
    by (metis prod_cases4)
  have "push_bit 3 (word_of_nat (length ws) :: u64) = word_of_nat (8 * length ws)"
    by (simp add: push_bit_eq_mult mult.commute)
  then show ?thesis
    using hash2_loop_eq [of ws "(level, level, golden)"] hash_tail_words [OF hash2_loop_rest [OF l]]
    by (simp add: hash2_def hash_def l Let_def)
qed

end
