(* ===== verification/Global_Id.thy ===== *)
theory Global_Id
  imports Lookup8
begin

text \<open>
  \<open>src/util/global_id.cc\<close>: the per-thread generator of 64-bit ids. Ids come in batches of 4096
  that share their upper 52 bits; inside a batch the lower 12 bits step by an odd increment.
\<close>

definition kLog2NumIDsInBatch :: nat where
  "kLog2NumIDsInBatch = 12"

definition kNumIDsInBatch :: nat where
  "kNumIDsInBatch = 2 ^ kLog2NumIDsInBatch"

text \<open>The mask as an \<open>int\<close> and, sign-extended, as a \<open>uint64_t\<close>.\<close>

definition kBatchMask :: i32 where
  "kBatchMask = 0xfff"

record id_generator =
  upper_bits :: u64
  seed :: u64
  lower_bits :: i32
  increment :: i32
  remaining :: nat
  initialized :: bool

text \<open>
  What the generator reads from outside: the host name and its address in memory, the sum
  \<open>time (NULL) + getpid () + pthread_self ()\<close>, and the values of \<open>CurrentMs ()\<close> at the two
  calls of \<open>newRandom\<close> in \<open>reset\<close>, with the address of the local \<open>now\<close>.
\<close>

record id_env =
  host_name :: "byte list"
  host_addr :: u64
  init_key :: u64
  now_first :: u64
  now_second :: u64
  now_addr :: u64

text \<open>
  A \<open>thread_local\<close> object is zero-initialised before its constructor runs, so a new generator
  starts with \<open>remaining_\<close> 0.
\<close>

definition new_generator :: id_generator where
  "new_generator = \<lparr>upper_bits = 0, seed = 0, lower_bits = 0, increment = 0, remaining = 0,
     initialized = False\<rparr>"

definition hash_data :: "u64 \<Rightarrow> byte list \<Rightarrow> u64 \<Rightarrow> u64" where
  "hash_data p s key = hash3 p s key"

definition id_init :: "id_env \<Rightarrow> id_generator \<Rightarrow> id_generator" where
  "id_init e g = g\<lparr>initialized := True, seed := hash_data (host_addr e) (host_name e) (init_key e)\<rparr>"

definition newRandom :: "id_env \<Rightarrow> u64 \<Rightarrow> id_generator \<Rightarrow> u64 \<times> id_generator" where
  "newRandom e now g =
     (let g = (if \<not> initialized g then id_init e g else g);
          g = g\<lparr>seed := hash_data (now_addr e) (store64 now) (seed g)\<rparr>
      in (seed g, g))"

definition id_reset :: "id_env \<Rightarrow> id_generator \<Rightarrow> id_generator" where
  "id_reset e g =
     (let (v, g) = newRandom e (now_first e) g;
          g = g\<lparr>upper_bits := v AND scast (NOT kBatchMask), lower_bits := ucast (v AND scast kBatchMask)\<rparr>;
          (w, g) = newRandom e (now_second e) g;
          g = g\<lparr>increment := ucast (w AND scast kBatchMask)\<rparr>;
          g = g\<lparr>increment := increment g OR 1\<rparr>
      in g\<lparr>remaining := kNumIDsInBatch\<rparr>)"

definition NewID :: "id_env \<Rightarrow> id_generator \<Rightarrow> u64 \<times> id_generator" where
  "NewID e g =
     (let g = (if remaining g = 0 then id_reset e g else g);
          g = g\<lparr>remaining := remaining g - 1,
                lower_bits := (lower_bits g + increment g) AND kBatchMask\<rparr>
      in (upper_bits g OR scast (lower_bits g), g))"

text \<open>\<open>n\<close> consecutive calls; the environment of the \<open>i\<close>-th is \<open>env i\<close>.\<close>

fun new_ids :: "(nat \<Rightarrow> id_env) \<Rightarrow> nat \<Rightarrow> id_generator \<Rightarrow> u64 list \<times> id_generator" where
  "new_ids env 0 g = ([], g)"
| "new_ids env (Suc n) g =
     (let (i, g) = NewID (env 0) g; (is, g) = new_ids (\<lambda>k. env (Suc k)) n g in (i # is, g))"

section \<open>The state inside a batch\<close>

text \<open>
  \<open>batch_wf g\<close>: the upper bits leave the lower twelve clear, the lower bits and the increment
  fit into twelve bits, and the increment is odd.
\<close>

definition batch_wf :: "id_generator \<Rightarrow> bool" where
  "batch_wf g \<longleftrightarrow> upper_bits g AND 0xfff = 0 \<and> unat (lower_bits g) < 4096
     \<and> unat (increment g) < 4096 \<and> odd (unat (increment g)) \<and> remaining g \<le> 4096"

lemma and_mask12: "unat ((w :: 'a::len word) AND 0xfff) = unat w mod 4096"
proof -
  have "w AND 0xfff = take_bit 12 w" by (simp add: take_bit_eq_mask mask_eq_exp_minus_1)
  then have "unat (w AND 0xfff) = take_bit 12 (unat w)"
    by (simp only: unsigned_take_bit_eq)
  then show ?thesis by (simp only: take_bit_eq_mod) simp
qed

lemma mask_casts [simp]:
  "(scast kBatchMask :: u64) = 0xfff" "(scast (NOT kBatchMask) :: u64) = NOT 0xfff"
  "kBatchMask = 0xfff"
  by (simp_all add: kBatchMask_def)

lemma unat_ucast_mask: "unat (ucast ((v :: u64) AND 0xfff) :: i32) = unat v mod 4096"
proof -
  have "unat (ucast (v AND 0xfff) :: i32) = take_bit 32 (unat (v AND 0xfff))"
    by (simp only: unsigned_ucast_eq) simp
  also have "\<dots> = unat v mod 4096"
    unfolding and_mask12 by (rule take_bit_nat_eq_self) simp
  finally show ?thesis .
qed

lemma odd_or_1: "odd (unat ((w :: i32) OR 1))"
  by (simp add: even_or_iff unsigned_or_eq)

lemma batch_wf_reset: "batch_wf (id_reset e g) \<and> remaining (id_reset e g) = 4096"
proof -
  have u: "(v AND - 4096) AND (4095 :: u64) = 0" for v
    by (simp add: and.assoc)
  have i: "unat ((ucast ((v :: u64) AND 0xfff) :: i32) OR 1) < 4096" for v
  proof -
    have "unat ((ucast (v AND 0xfff) :: i32) OR 1) = (unat v mod 4096) OR 1"
      by (simp only: unsigned_or_eq unat_ucast_mask) simp
    also have "\<dots> = unat v mod 4096 + of_bool (even (unat v mod 4096))" by (rule or_one_eq)
    also have "\<dots> < 4096"
      by (cases "unat v mod 4096 = 4095") (use mod_less_divisor [of 4096 "unat v"] in auto)
    finally show ?thesis .
  qed
  show ?thesis
    using i odd_or_1
    by (simp add: id_reset_def Let_def split_beta batch_wf_def newRandom_def id_init_def u
        unat_ucast_mask kNumIDsInBatch_def kLog2NumIDsInBatch_def)
qed

section \<open>Calls inside a batch\<close>

text \<open>The \<open>i\<close>-th id from now on, as a number.\<close>

definition id_at :: "id_generator \<Rightarrow> nat \<Rightarrow> u64" where
  "id_at g i = upper_bits g
     + word_of_nat ((unat (lower_bits g) + i * unat (increment g)) mod 4096)"

lemma scast_small: "unat (w :: i32) < 4096 \<Longrightarrow> (scast w :: u64) = word_of_nat (unat w)"
proof -
  assume "unat w < 4096"
  moreover have "uint w = int (unat w)" by (rule uint_nat)
  ultimately have "uint w < 2147483648" by linarith
  then have "sint w = uint w"
    using signed_take_bit_int_eq_self [of 31 "uint w"] uint_ge_0 [of w]
    by (simp add: sint_uint)
  then have "sint w = int (unat w)" by (simp only: uint_nat)
  then have "(of_int (sint w) :: u64) = of_nat (unat w)" by (simp only: of_int_of_nat_eq)
  then show ?thesis by (simp only: of_int_sint)
qed

lemma or_is_add:
  assumes "u AND 0xfff = (0 :: u64)" and "x < 4096"
  shows "u OR word_of_nat x = u + word_of_nat x"
proof -
  have "unat (word_of_nat x :: u64) mod 4096 = unat (word_of_nat x :: u64)" using assms(2) by simp
  then have "(word_of_nat x :: u64) AND 0xfff = word_of_nat x"
    by (simp only: word_unat_eq_iff and_mask12)
  then have "u AND word_of_nat x = (u AND 0xfff) AND word_of_nat x"
    by (metis and.assoc and.commute)
  then show ?thesis using assms(1) by (simp add: disjunctive_add_eq_or)
qed

lemma NewID_step:
  assumes "batch_wf g" and "0 < remaining g"
  shows "\<exists>g'. NewID e g = (id_at g 1, g') \<and> batch_wf g' \<and> remaining g' = remaining g - 1
    \<and> upper_bits g' = upper_bits g \<and> increment g' = increment g
    \<and> (\<forall>i. id_at g' i = id_at g (Suc i))"
proof -
  let ?low = "(lower_bits g + increment g) AND kBatchMask"
  have "unat (lower_bits g + increment g) = unat (lower_bits g) + unat (increment g)"
    using assms(1) by (simp add: batch_wf_def unat_word_ariths)
  then have low: "unat ?low = (unat (lower_bits g) + unat (increment g)) mod 4096"
    by (simp only: mask_casts and_mask12)
  then have lt: "unat ?low < 4096" by simp
  have "upper_bits g OR scast ?low = id_at g 1"
    using assms(1) or_is_add [OF _ lt] low
    by (simp add: scast_small [OF lt] batch_wf_def id_at_def del: mask_casts)
  then show ?thesis
    using assms low lt
    by (intro exI [of _ "g\<lparr>remaining := remaining g - 1, lower_bits := ?low\<rparr>"])
      (auto simp: NewID_def Let_def batch_wf_def id_at_def mod_simps algebra_simps simp del: mask_casts)
qed

lemma new_ids_batch:
  "batch_wf g \<Longrightarrow> n \<le> remaining g \<Longrightarrow> fst (new_ids env n g) = map (id_at g) [1..<Suc n]"
proof (induction n arbitrary: g env)
  case (Suc n)
  obtain g' where g': "NewID (env 0) g = (id_at g 1, g')" "batch_wf g'" "remaining g' = remaining g - 1"
    "\<forall>i. id_at g' i = id_at g (Suc i)"
    using NewID_step [OF Suc.prems(1), of "env 0"] Suc.prems(2) by auto
  have "fst (new_ids (\<lambda>k. env (Suc k)) n g') = map (id_at g') [1..<Suc n]"
    using Suc.IH [OF g'(2)] g'(3) Suc.prems(2) by simp
  also have "\<dots> = map (id_at g) [2..<Suc (Suc n)]"
    using g'(4) by (simp add: map_Suc_upt [symmetric] numeral_2_eq_2 comp_def del: upt_Suc)
  finally show ?case
    using g'(1) by (simp add: split_beta Let_def upt_conv_Cons numeral_2_eq_2 del: upt_Suc)
qed simp

lemma batch_residues_distinct:
  assumes "odd c" and "i < j" and "j < i + 4096"
  shows "(l + i * c) mod 4096 \<noteq> (l + j * c) mod (4096 :: nat)"
proof
  assume "(l + i * c) mod 4096 = (l + j * c) mod 4096"
  then have "4096 dvd (l + j * c) - (l + i * c)"
    using assms(2) mod_eq_dvd_iff_nat [of "l + i * c" "l + j * c" 4096] by simp
  then have d: "2 ^ 12 dvd (j - i) * c" by (simp add: diff_mult_distrib)
  have "coprime (2 :: nat) c" using assms(1) by simp
  then have "coprime (2 ^ 12) c" by (simp only: coprime_power_left_iff) simp
  then have "2 ^ 12 dvd j - i" using d coprime_dvd_mult_left_iff by blast
  then show False using assms(2,3) by (auto dest: dvd_imp_le)
qed

lemma id_at_inj: "batch_wf g \<Longrightarrow> inj_on (id_at g) {1..4096}"
proof (rule linorder_inj_onI')
  fix i j
  assume w: "batch_wf g" and ij: "i \<in> {1..4096}" "j \<in> {1..4096}" "i < (j :: nat)"
  let ?x = "\<lambda>i. (unat (lower_bits g) + i * unat (increment g)) mod 4096"
  have "?x i \<noteq> ?x j"
    using batch_residues_distinct [of "unat (increment g)" i j] w ij by (simp add: batch_wf_def)
  moreover have "?x i < 2 ^ 64" "?x j < 2 ^ 64"
    by (rule less_trans [OF mod_less_divisor [of 4096]]; simp)+
  ultimately have "(word_of_nat (?x i) :: u64) \<noteq> word_of_nat (?x j)"
    by (metis unat_of_nat_u64)
  then show "id_at g i \<noteq> id_at g j" by (simp add: id_at_def)
qed

section \<open>Properties\<close>

text \<open>
  The 4096 ids of a batch, the first of them being the one that starts it, are pairwise
  distinct, whatever the clock, the host name and the hash values were.
\<close>
lemma global_ids_of_a_batch_distinct:
  assumes "remaining g = 0"
  shows "distinct (fst (new_ids env kNumIDsInBatch g))"
proof -
  define h where "h = id_reset (env 0) g"
  have h: "batch_wf h" "remaining h = 4096" using batch_wf_reset by (auto simp: h_def)
  have "NewID (env 0) g = NewID (env 0) h"
    using assms h(2) by (simp add: NewID_def h_def)
  moreover have k: "kNumIDsInBatch = Suc 4095"
    by (simp add: kNumIDsInBatch_def kLog2NumIDsInBatch_def)
  ultimately have "new_ids env kNumIDsInBatch g = new_ids env kNumIDsInBatch h"
    by (simp only: k new_ids.simps)
  moreover have "fst (new_ids env kNumIDsInBatch h) = map (id_at h) [1..<Suc kNumIDsInBatch]"
    using h(2) k by (intro new_ids_batch [OF h(1)]) simp
  moreover have "distinct (map (id_at h) [1..<Suc kNumIDsInBatch])"
    using id_at_inj [OF h(1)] k
    by (simp only: distinct_map distinct_upt set_upt atLeastLessThanSuc_atLeastAtMost) simp
  ultimately show ?thesis by (simp only:)
qed

lemma global_ids_of_a_batch_distinct_witness:
  "distinct (fst (new_ids (\<lambda>_. undefined) kNumIDsInBatch new_generator))"
  by (rule global_ids_of_a_batch_distinct) (simp add: new_generator_def)

end
