(* ===== verification/Threads.thy ===== *)
theory Threads
  imports Prelude
begin

text \<open>
  \<open>src/base/spin_lock.h\<close> and \<open>spin_lock.cc\<close>, and \<open>src/base/thread.h\<close> and \<open>thread.cc\<close>: the spin lock as
  a step per access to its variable, and the handshake by which \<open>Thread::Start\<close> waits for the new
  thread. \<open>pthread_create\<close> is an argument, the value it returns. Pauses, yields and sleeps take time
  and change nothing.
\<close>

section \<open>The spin lock\<close>

definition kYieldProcessorTries :: nat where "kYieldProcessorTries = 1000"
definition kYieldThreadTries :: nat where "kYieldThreadTries = 10"

text \<open>
  Where a call of \<open>Lock\<close> stands: before the first exchange; in \<open>lockSlow\<close>, with \<open>yield_thread_count\<close>
  and \<open>count\<close>, before the load or the exchange of the inner loop; before the load and the exchange of
  the conditions of the outer loops; or done.
\<close>

datatype spin_pc = Fast | Spin nat nat | Spin_Xchg nat nat | Again nat | Final_Xchg nat | Acquired

definition spin_next :: "nat \<Rightarrow> nat \<Rightarrow> spin_pc" where
  "spin_next y n =
     (if n + 1 < kYieldProcessorTries then Spin y (n + 1) else Again (if y < kYieldThreadTries then y + 1 else y))"

text \<open>One access of \<open>Lock\<close> to \<open>lock_\<close>.\<close>

fun lock_step :: "spin_pc \<Rightarrow> bool \<Rightarrow> spin_pc \<times> bool" where
  "lock_step Fast l = (if \<not> l then Acquired else Spin 0 0, True)"
| "lock_step (Spin y n) l = (if \<not> l then Spin_Xchg y n else spin_next y n, l)"
| "lock_step (Spin_Xchg y n) l = (if \<not> l then Acquired else spin_next y n, True)"
| "lock_step (Again y) l = (if l then Spin y 0 else Final_Xchg y, l)"
| "lock_step (Final_Xchg y) l = (if l then Spin y 0 else Acquired, True)"
| "lock_step Acquired l = (Acquired, l)"

definition unlock :: "bool \<Rightarrow> bool" where
  "unlock l = False"

text \<open>Threads that use one lock.\<close>

datatype client = Outside | Locking spin_pc | Holding

record spin_sys =
  lock_var :: bool
  clients :: "nat \<Rightarrow> client"

definition spin_init :: spin_sys where
  "spin_init = \<lparr>lock_var = False, clients = (\<lambda>_. Outside)\<rparr>"

inductive spin_step :: "spin_sys \<Rightarrow> spin_sys \<Rightarrow> bool" where
  Call: "clients s i = Outside \<Longrightarrow> spin_step s (s\<lparr>clients := (clients s)(i := Locking Fast)\<rparr>)"
| Access: "clients s i = Locking pc \<Longrightarrow> lock_step pc (lock_var s) = (pc', l)
    \<Longrightarrow> spin_step s (s\<lparr>lock_var := l, clients := (clients s)(i := if pc' = Acquired then Holding else Locking pc')\<rparr>)"
| Unlock: "clients s i = Holding \<Longrightarrow> spin_step s (s\<lparr>lock_var := unlock (lock_var s), clients := (clients s)(i := Outside)\<rparr>)"

inductive spin_reach :: "spin_sys \<Rightarrow> bool" where
  Start: "spin_reach spin_init"
| Step: "spin_reach s \<Longrightarrow> spin_step s t \<Longrightarrow> spin_reach t"

section \<open>Starting a thread\<close>

datatype thread_state = kThreadNone | kThreadRunning | kThreadStopped

record thread =
  tid :: nat
  thread_name :: string
  thread_state :: thread_state

definition thread_new :: "string \<Rightarrow> thread" where
  "thread_new name = \<lparr>tid = 0, thread_name = name, thread_state = kThreadNone\<rparr>"

definition Running :: "thread \<Rightarrow> bool" where
  "Running t \<longleftrightarrow> thread_state t = kThreadRunning"

text \<open>The caller of \<open>Start\<close>; the new thread in \<open>Thread::main\<close>, by what it does next.\<close>

datatype starter = First_Lock spin_pc | Create | Second_Lock spin_pc | Returned int

datatype child = No_Thread | Set_Info | Set_Running | Release | In_Run

record start_sys =
  entry_lock :: bool
  starter :: starter
  child :: child
  thr :: thread
  info_name :: string

definition start_init :: "thread \<Rightarrow> start_sys" where
  "start_init t = \<lparr>entry_lock = False, starter = First_Lock Fast, child = No_Thread, thr = t, info_name = ''main''\<rparr>"

text \<open>\<open>rc\<close> and \<open>new_tid\<close> come from \<open>pthread_create\<close>.\<close>

inductive start_step :: "int \<Rightarrow> nat \<Rightarrow> start_sys \<Rightarrow> start_sys \<Rightarrow> bool" for rc new_tid where
  Lock1: "starter s = First_Lock pc \<Longrightarrow> lock_step pc (entry_lock s) = (pc', l)
    \<Longrightarrow> start_step rc new_tid s (s\<lparr>entry_lock := l, starter := if pc' = Acquired then Create else First_Lock pc'\<rparr>)"
| Created: "starter s = Create \<Longrightarrow> rc = 0
    \<Longrightarrow> start_step rc new_tid s (s\<lparr>thr := (thr s)\<lparr>tid := new_tid\<rparr>, starter := Second_Lock Fast, child := Set_Info\<rparr>)"
| Not_Created: "starter s = Create \<Longrightarrow> rc \<noteq> 0 \<Longrightarrow> start_step rc new_tid s (s\<lparr>starter := Second_Lock Fast\<rparr>)"
| Lock2: "starter s = Second_Lock pc \<Longrightarrow> lock_step pc (entry_lock s) = (pc', l)
    \<Longrightarrow> start_step rc new_tid s (s\<lparr>entry_lock := l, starter := if pc' = Acquired then Returned rc else Second_Lock pc'\<rparr>)"
| Info: "child s = Set_Info
    \<Longrightarrow> start_step rc new_tid s (s\<lparr>info_name := thread_name (thr s), child := Set_Running\<rparr>)"
| Run_State: "child s = Set_Running
    \<Longrightarrow> start_step rc new_tid s (s\<lparr>thr := (thr s)\<lparr>thread_state := kThreadRunning\<rparr>, child := Release\<rparr>)"
| Release_Lock: "child s = Release
    \<Longrightarrow> start_step rc new_tid s (s\<lparr>entry_lock := unlock (entry_lock s), child := In_Run\<rparr>)"

inductive start_reach :: "int \<Rightarrow> nat \<Rightarrow> thread \<Rightarrow> start_sys \<Rightarrow> bool" for rc new_tid t where
  Begin: "start_reach rc new_tid t (start_init t)"
| Next: "start_reach rc new_tid t s \<Longrightarrow> start_step rc new_tid s s' \<Longrightarrow> start_reach rc new_tid t s'"

text \<open>\<open>Join\<close> up to \<open>pthread_join\<close>, which waits for the thread to leave \<open>Run\<close>; it polls \<open>Running\<close>.\<close>

definition Join :: "thread \<Rightarrow> bool \<times> thread" where
  "Join t = (let t = t\<lparr>thread_state := kThreadStopped\<rparr> in if tid t \<noteq> 0 then (True, t\<lparr>tid := 0\<rparr>) else (False, t))"

section \<open>Mutual exclusion\<close>

lemma lock_step_acquires: "lock_step pc l = (Acquired, l') \<Longrightarrow> pc \<noteq> Acquired \<Longrightarrow> \<not> l \<and> l'"
  by (cases pc) (auto simp: spin_next_def split: if_splits)

lemma lock_step_waits: "lock_step pc l = (pc', l') \<Longrightarrow> pc' \<noteq> Acquired \<Longrightarrow> l' = l"
  by (cases pc) (auto split: if_splits)

definition spin_inv :: "spin_sys \<Rightarrow> bool" where
  "spin_inv s \<longleftrightarrow> (\<forall>i. clients s i \<noteq> Locking Acquired) \<and> (lock_var s \<longleftrightarrow> (\<exists>i. clients s i = Holding))
     \<and> (\<forall>i j. clients s i = Holding \<and> clients s j = Holding \<longrightarrow> i = j)"

lemma spin_inv_step:
  assumes "spin_inv s" and "spin_step s t"
  shows "spin_inv t"
  using assms(2)
proof (cases rule: spin_step.cases)
  case (Call i)
  then have "clients t j = Holding \<longleftrightarrow> clients s j = Holding" "clients t j \<noteq> Locking Acquired" "lock_var t = lock_var s" for j
    using assms(1) by (auto simp: spin_inv_def)
  then show ?thesis using assms(1) by (simp add: spin_inv_def)
next
  case (Access i pc pc' l)
  show ?thesis
  proof (cases "pc' = Acquired")
    case True
    have "pc \<noteq> Acquired" using Access(2) assms(1) by (auto simp: spin_inv_def)
    then have "\<not> lock_var s" "l" using lock_step_acquires Access(3) True by blast+
    then show ?thesis using Access True assms(1) by (auto simp: spin_inv_def)
  next
    case False
    then have "l = lock_var s" using lock_step_waits Access(3) by blast
    then have "clients t j = Holding \<longleftrightarrow> clients s j = Holding" "clients t j \<noteq> Locking Acquired" "lock_var t = lock_var s" for j
      using Access False assms(1) by (auto simp: spin_inv_def)
    then show ?thesis using assms(1) by (simp add: spin_inv_def)
  qed
next
  case (Unlock i)
  then show ?thesis using assms(1) by (auto simp: spin_inv_def unlock_def)
qed

lemma spin_inv_reach: "spin_reach s \<Longrightarrow> spin_inv s"
proof (induction rule: spin_reach.induct)
  case Start
  then show ?case by (simp add: spin_inv_def spin_init_def)
qed (rule spin_inv_step)

text \<open>A thread that runs alone while the lock is free has it after three accesses.\<close>

fun lock_steps :: "nat \<Rightarrow> spin_pc \<times> bool \<Rightarrow> spin_pc \<times> bool" where
  "lock_steps 0 x = x"
| "lock_steps (Suc n) x = lock_steps n (lock_step (fst x) (snd x))"

lemma lock_alone: "pc \<noteq> Acquired \<Longrightarrow> lock_steps 3 (pc, False) = (Acquired, True)"
  by (cases pc) (simp_all add: eval_nat_numeral)

text \<open>
  C22. Mutual exclusion of the spin lock: in every interleaving of any threads' accesses at most one
  thread is between \<open>Lock\<close> and \<open>UnLock\<close>, and the variable is set exactly while one is; a thread whose
  call is under way anywhere in \<open>Lock\<close> gets a free lock within three of its accesses.
\<close>

theorem spin_lock_excludes:
  assumes "spin_reach s"
  shows "(clients s i = Holding \<and> clients s j = Holding \<longrightarrow> i = j) \<and> (lock_var s \<longleftrightarrow> (\<exists>i. clients s i = Holding))
    \<and> (clients s i = Locking pc \<and> \<not> lock_var s \<longrightarrow> lock_steps 3 (pc, lock_var s) = (Acquired, True))"
  using spin_inv_reach [OF assms] lock_alone [of pc] by (auto simp: spin_inv_def)

section \<open>The handshake\<close>

definition start_inv :: "int \<Rightarrow> nat \<Rightarrow> thread \<Rightarrow> start_sys \<Rightarrow> bool" where
  "start_inv rc n t s \<longleftrightarrow>
     (case starter s of
        First_Lock pc \<Rightarrow> pc = Fast \<and> child s = No_Thread \<and> \<not> entry_lock s
      | Create \<Rightarrow> child s = No_Thread \<and> entry_lock s
      | Second_Lock pc \<Rightarrow> pc \<noteq> Acquired \<and> (child s = No_Thread \<longleftrightarrow> rc \<noteq> 0) \<and> (entry_lock s \<longleftrightarrow> child s \<noteq> In_Run)
      | Returned r \<Rightarrow> r = 0 \<and> rc = 0 \<and> child s = In_Run)
     \<and> (child s \<noteq> No_Thread \<longrightarrow> tid (thr s) = n) \<and> thread_name (thr s) = thread_name t
     \<and> (child s \<in> {Set_Running, Release, In_Run} \<longrightarrow> info_name s = thread_name t)
     \<and> (child s \<in> {Release, In_Run} \<longrightarrow> Running (thr s))"

lemma start_inv_step:
  assumes "start_inv rc n t s" and "start_step rc n s s'"
  shows "start_inv rc n t s'"
  using assms(2)
proof (cases rule: start_step.cases)
  case (Lock1 pc pc' l)
  then show ?thesis using assms(1) by (auto simp: start_inv_def)
next
  case Created
  then show ?thesis using assms(1) by (auto simp: start_inv_def)
next
  case Not_Created
  then show ?thesis using assms(1) by (auto simp: start_inv_def)
next
  case (Lock2 pc pc' l)
  have "pc \<noteq> Acquired" using Lock2(2) assms(1) by (simp add: start_inv_def)
  show ?thesis
  proof (cases "pc' = Acquired")
    case True
    then have "\<not> entry_lock s" using Lock2(3) lock_step_acquires \<open>pc \<noteq> Acquired\<close> by blast
    then show ?thesis using Lock2 True assms(1) by (auto simp: start_inv_def)
  next
    case False
    then have "l = entry_lock s" using Lock2(3) lock_step_waits by blast
    then show ?thesis using Lock2 False assms(1) by (auto simp: start_inv_def)
  qed
next
  case Info
  then show ?thesis using assms(1) by (auto simp: start_inv_def split: starter.splits)
next
  case Run_State
  then show ?thesis using assms(1) by (auto simp: start_inv_def Running_def split: starter.splits)
next
  case Release_Lock
  then show ?thesis using assms(1) by (auto simp: start_inv_def unlock_def split: starter.splits)
qed

lemma start_inv_reach: "start_reach rc n t s \<Longrightarrow> start_inv rc n t s"
proof (induction rule: start_reach.induct)
  case Begin
  then show ?case by (simp add: start_inv_def start_init_def)
qed (rule start_inv_step)

text \<open>
  C39. When \<open>Start\<close> returns, the thread exists, is about to execute \<open>Run\<close>, counts as running and has
  its name; and when the system cannot create a thread, \<open>Start\<close> returns in no execution: it waits for
  a thread that is not there, instead of passing on the error it holds.
\<close>

theorem start_returns_iff_running:
  assumes "start_reach rc n t s"
  shows "(starter s = Returned r \<longrightarrow> r = 0 \<and> child s = In_Run \<and> Running (thr s) \<and> tid (thr s) = n \<and> info_name s = thread_name t)
    \<and> (rc \<noteq> 0 \<longrightarrow> starter s \<noteq> Returned r)"
  using start_inv_reach [OF assms] by (auto simp: start_inv_def)

section \<open>Witnesses\<close>

text \<open>Two threads call \<open>Lock\<close>, the first has it, the second spins.\<close>

theorem spin_lock_excludes_witness:
  "\<exists>s. spin_reach s \<and> clients s 0 = Holding \<and> clients s 1 = Locking (Spin 0 0) \<and> lock_var s \<and> clients s 1 \<noteq> Holding"
proof -
  define s1 where "s1 = spin_init\<lparr>clients := (clients spin_init)(0 := Locking Fast)\<rparr>"
  define s2 where "s2 = s1\<lparr>clients := (clients s1)(1 := Locking Fast)\<rparr>"
  define s3 where "s3 = s2\<lparr>lock_var := True, clients := (clients s2)(0 := Holding)\<rparr>"
  define s4 where "s4 = s3\<lparr>lock_var := True, clients := (clients s3)(1 := Locking (Spin 0 0))\<rparr>"
  note d = s1_def s2_def s3_def s4_def spin_init_def
  have "spin_step spin_init s1" unfolding s1_def by (rule spin_step.Call) (simp add: d)
  moreover have "spin_step s1 s2" unfolding s2_def by (rule spin_step.Call) (simp add: d)
  moreover have "spin_step s2 s3"
    using spin_step.Access [of s2 0 Fast Acquired True] by (simp add: s3_def) (simp add: d)
  moreover have "spin_step s3 s4"
    using spin_step.Access [of s3 1 Fast "Spin 0 0" True] by (simp add: s4_def) (simp add: d)
  ultimately have r: "spin_reach s4" by (meson spin_reach.intros)
  have "clients s4 0 = Holding" "clients s4 1 = Locking (Spin 0 0)" by (simp_all add: d)
  with spin_lock_excludes [OF r, of 0 1] r show ?thesis by (intro exI [of _ s4]) auto
qed

text \<open>A thread that is created, up to the return of \<open>Start\<close>.\<close>

theorem start_returns_iff_running_witness:
  "\<exists>s. start_reach 0 7 (thread_new ''worker'') s \<and> starter s = Returned 0 \<and> Running (thr s) \<and> info_name s = ''worker''"
proof -
  let ?t = "thread_new ''worker''"
  define s0 where "s0 = start_init ?t"
  define s1 where "s1 = s0\<lparr>entry_lock := True, starter := Create\<rparr>"
  define s2 where "s2 = s1\<lparr>thr := (thr s1)\<lparr>tid := 7\<rparr>, starter := Second_Lock Fast, child := Set_Info\<rparr>"
  define s3 where "s3 = s2\<lparr>info_name := thread_name (thr s2), child := Set_Running\<rparr>"
  define s4 where "s4 = s3\<lparr>thr := (thr s3)\<lparr>thread_state := kThreadRunning\<rparr>, child := Release\<rparr>"
  define s5 where "s5 = s4\<lparr>entry_lock := unlock (entry_lock s4), child := In_Run\<rparr>"
  define s6 where "s6 = s5\<lparr>entry_lock := True, starter := Returned 0\<rparr>"
  note d = s0_def s1_def s2_def s3_def s4_def s5_def s6_def start_init_def unlock_def
  have "start_step 0 7 s0 s1" using start_step.Lock1 [of s0 Fast Acquired True 0 7] by (simp add: s1_def) (simp add: d)
  moreover have "start_step 0 7 s1 s2" unfolding s2_def by (rule start_step.Created) (simp_all add: d)
  moreover have "start_step 0 7 s2 s3" unfolding s3_def by (rule start_step.Info) (simp add: d)
  moreover have "start_step 0 7 s3 s4" unfolding s4_def by (rule start_step.Run_State) (simp add: d)
  moreover have "start_step 0 7 s4 s5" unfolding s5_def by (rule start_step.Release_Lock) (simp add: d)
  moreover have "start_step 0 7 s5 s6"
    using start_step.Lock2 [of s5 Fast Acquired True 0 7] by (simp add: s6_def) (simp add: d)
  ultimately have r: "start_reach 0 7 ?t s6" unfolding s0_def by (meson start_reach.intros)
  have "starter s6 = Returned 0" by (simp add: d)
  with start_returns_iff_running [OF r, of 0] r show ?thesis by (intro exI [of _ s6]) (simp add: thread_new_def)
qed

end
