(* ===== verification/Errcode.thy ===== *)
theory Errcode
  imports Main
begin

text \<open>
  \<open>src/base/errcode.h\<close>: the result codes of the program, and the values \<open>errno\<close> takes on Linux in
  the calls it makes. Codes and file descriptors are C \<open>int\<close>s; they are only stored and compared,
  and where the code does arithmetic on an \<open>int\<close> the wrap-around is written out (\<open>wrap32\<close>).
\<close>

definition kError :: int where "kError = -1"
definition kClosed :: int where "kClosed = -2"
definition kConnectionReset :: int where "kConnectionReset = -3"
definition kRpcChannelTimeout :: int where "kRpcChannelTimeout = -4"
definition kRpcExistedSameChannel :: int where "kRpcExistedSameChannel = -5"
definition kOK :: int where "kOK = 0"
definition kAgain :: int where "kAgain = 1"

definition EINTR :: int where "EINTR = 4"
definition EAGAIN :: int where "EAGAIN = 11"
definition EWOULDBLOCK :: int where "EWOULDBLOCK = 11"
definition EINPROGRESS :: int where "EINPROGRESS = 115"

definition IsIOTryAgain :: "int \<Rightarrow> bool" where
  "IsIOTryAgain e \<longleftrightarrow> e = EAGAIN \<or> e = EWOULDBLOCK"

lemmas errno_defs = EINTR_def EAGAIN_def EWOULDBLOCK_def EINPROGRESS_def

lemma IsIOTryAgain_simps [simp]:
  "IsIOTryAgain EAGAIN" "IsIOTryAgain EWOULDBLOCK" "\<not> IsIOTryAgain 0" "\<not> IsIOTryAgain kOK" "\<not> IsIOTryAgain EINTR"
  by (simp_all add: IsIOTryAgain_def errno_defs kOK_def)

lemma errno_neq [simp]:
  "EAGAIN \<noteq> EINTR" "EINTR \<noteq> EAGAIN" "EAGAIN \<noteq> kOK" "kOK \<noteq> EAGAIN" "EAGAIN \<noteq> 0" "EINTR \<noteq> 0"
  "kError \<noteq> kOK" "kOK \<noteq> kError" "kOK \<noteq> EINTR" "EINTR \<noteq> kOK"
  by (simp_all add: errno_defs kOK_def kError_def)

text \<open>An \<open>int\<close> that wraps at 32 bits.\<close>

definition wrap32 :: "int \<Rightarrow> int" where
  "wrap32 x = signed_take_bit 31 x"

lemma wrap32_id: "-(2 ^ 31) \<le> x \<Longrightarrow> x < 2 ^ 31 \<Longrightarrow> wrap32 x = x"
  by (simp add: wrap32_def signed_take_bit_int_eq_self)

lemma wrap32_add: "wrap32 (wrap32 x + y) = wrap32 (x + y)"
  using signed_take_bit_add [of 31 "signed_take_bit 31 x" y] signed_take_bit_add [of 31 x y]
  by (simp add: wrap32_def)

end
