(* ===== verification/Strings.thy ===== *)
theory Strings
  imports Prelude Errcode
begin

text \<open>
  \<open>src/util/string.cc\<close> (formatting into a string, hexadecimal dumps), \<open>src/base/slice.h\<close> and
  \<open>src/base/endpoint.h\<close>. \<open>vsnprintf\<close> is the C library's: an argument of \<open>stringAppendV\<close>, which maps
  the size of the destination to the value returned and the characters stored before the \<open>'\0'\<close>.
\<close>

section \<open>Formatting\<close>

definition kSmallFixedSize :: int where
  "kSmallFixedSize = 1024"

definition kMaxAppendSize :: int where
  "kMaxAppendSize = 32 * 1024 * 1024"

text \<open>
  The \<open>while (true)\<close> loop of \<open>stringAppendV\<close>: \<open>len\<close> is \<open>length\<close>, \<open>r\<close> is \<open>result\<close>, both of type \<open>int\<close>. A vector of a
  negative size, which as \<open>size_t\<close> is too large, throws.
\<close>

partial_function (option) append_loop :: "(int \<Rightarrow> int \<times> string) \<Rightarrow> int \<Rightarrow> int \<Rightarrow> string \<Rightarrow> string res option" where
  "append_loop vs len r dst =
     (let len = (if r < 0 then wrap32 (len * 2) else wrap32 (r + 1)) in
      if len > kMaxAppendSize then Some (Inr dst)
      else if len < 0 then Some (Inl Length_Error)
      else
        let (r, buf) = vs len in
        if r \<ge> 0 \<and> r < len then Some (Inr (dst @ take (nat r) buf)) else append_loop vs len r dst)"

definition stringAppendV :: "(int \<Rightarrow> int \<times> string) \<Rightarrow> string \<Rightarrow> string res" where
  "stringAppendV vs dst =
     (let (r, buf) = vs kSmallFixedSize in
      if r \<ge> 0 \<and> r < kSmallFixedSize then Inr (dst @ take (nat r) buf)
      else loopR (append_loop vs kSmallFixedSize r dst))"

definition StringPrintf :: "(int \<Rightarrow> int \<times> string) \<Rightarrow> string res" where
  "StringPrintf vs = stringAppendV vs []"

definition StringAppendf :: "(int \<Rightarrow> int \<times> string) \<Rightarrow> string \<Rightarrow> string res" where
  "StringAppendf vs ret = stringAppendV vs ret"

text \<open>
  \<open>vsnprintf\<close> as C99 and POSIX have it, for a format and arguments that print as \<open>out\<close>: it returns the length
  of the whole output and stores as much of it as fits; a length that is no \<open>int\<close> is an error (\<open>EOVERFLOW\<close>).
\<close>

definition c99 :: "string \<Rightarrow> int \<Rightarrow> int \<times> string" where
  "c99 out n = (if int (length out) < 2 ^ 31 then int (length out) else -1, take (nat (n - 1)) out)"

text \<open>\<open>vsnprintf\<close> as glibc before 2.1 had it: -1 when the output does not fit.\<close>

definition old_glibc :: "string \<Rightarrow> int \<Rightarrow> int \<times> string" where
  "old_glibc out n = (if int (length out) < n then (int (length out), out) else (-1, take (nat (n - 1)) out))"

section \<open>Decimal and hexadecimal numbers\<close>

definition digit :: "nat \<Rightarrow> char" where
  "digit n = char_of (if n < 10 then 48 + n else 87 + n)"

fun show_nat :: "nat \<Rightarrow> string" where
  "show_nat n = (if n < 10 then [digit n] else show_nat (n div 10) @ [digit (n mod 10)])"

declare show_nat.simps [simp del]

text \<open>\<open>%x\<close> of a byte: no leading zero.\<close>

definition show_hex :: "byte \<Rightarrow> string" where
  "show_hex b = (if unat b < 16 then [digit (unat b)] else [digit (unat b div 16), digit (unat b mod 16)])"

definition StringToHex :: "byte list \<Rightarrow> string" where
  "StringToHex bs = ''0x'' @ concat (map show_hex bs)"

section \<open>Slice\<close>

text \<open>A slice is the data it refers to.\<close>

type_synonym slice = "byte list"

definition slice_at :: "slice \<Rightarrow> nat \<Rightarrow> byte res" where
  "slice_at s n = bindR (guardR (n < length s) Assert_Failed) (\<lambda>_. Inr (s ! n))"

definition slice_clear :: slice where
  "slice_clear = []"

definition slice_remove_prefix :: "nat \<Rightarrow> slice \<Rightarrow> slice res" where
  "slice_remove_prefix n s = bindR (guardR (n \<le> length s) Assert_Failed) (\<lambda>_. Inr (drop n s))"

definition slice_starts_with :: "slice \<Rightarrow> slice \<Rightarrow> bool" where
  "slice_starts_with s x \<longleftrightarrow> length s \<ge> length x \<and> take (length x) s = x"

definition slice_eq :: "slice \<Rightarrow> slice \<Rightarrow> bool" where
  "slice_eq x y \<longleftrightarrow> length x = length y \<and> take (length x) x = take (length x) y"

text \<open>The body of \<open>compare\<close> is switched off by the preprocessor.\<close>

definition slice_compare :: "slice \<Rightarrow> slice \<Rightarrow> int" where
  "slice_compare s b = 0"

section \<open>Endpoint\<close>

record endpoint =
  ep_addr :: string
  ep_port :: u16
  ep_str :: string

text \<open>\<open>StringPrintf ("%s:%d", addr, port)\<close>; \<open>c_str ()\<close> stops at the first \<open>'\0'\<close>.\<close>

definition endpoint_string :: "string \<Rightarrow> u16 \<Rightarrow> string res" where
  "endpoint_string a p =
     StringPrintf (c99 (takeWhile (\<lambda>c. c \<noteq> CHR 0x00) a @ '':'' @ show_nat (unat p)))"

definition endpoint_make :: "string \<Rightarrow> u16 \<Rightarrow> endpoint res" where
  "endpoint_make a p = bindR (endpoint_string a p) (\<lambda>s. Inr \<lparr>ep_addr = a, ep_port = p, ep_str = s\<rparr>)"

definition endpoint_default :: endpoint where
  "endpoint_default = \<lparr>ep_addr = [], ep_port = 0, ep_str = []\<rparr>"

definition endpoint_init :: "string \<Rightarrow> u16 \<Rightarrow> endpoint \<Rightarrow> endpoint res" where
  "endpoint_init a p e = bindR (endpoint_string a p) (\<lambda>s. Inr (e\<lparr>ep_addr := a, ep_port := p, ep_str := s\<rparr>))"

definition endpoint_assign :: "endpoint \<Rightarrow> endpoint \<Rightarrow> endpoint" where
  "endpoint_assign e f = e\<lparr>ep_addr := ep_addr f, ep_port := ep_port f, ep_str := ep_str f\<rparr>"

definition endpoint_eq :: "endpoint \<Rightarrow> endpoint \<Rightarrow> bool" where
  "endpoint_eq e f \<longleftrightarrow> ep_port e = ep_port f \<and> ep_str e = ep_str f"

section \<open>Lemmas\<close>

lemma wrap32_max: "wrap32 (2 ^ 31) = - (2 ^ 31)"
  by (simp add: wrap32_def)

lemma append_c99:
  assumes "int (length out) < kMaxAppendSize"
  shows "stringAppendV (c99 out) dst = Inr (dst @ out)"
proof -
  have "int (length out) < 2 ^ 31" "wrap32 (int (length out) + 1) = int (length out) + 1"
    using assms by (auto simp: kMaxAppendSize_def intro!: wrap32_id)
  then show ?thesis using assms
    by (auto simp: stringAppendV_def c99_def append_loop.simps Let_def kSmallFixedSize_def)
qed

lemma wrap32_double:
  assumes "(2 :: int) ^ Suc k \<le> 2 ^ 25"
  shows "wrap32 (2 ^ k * 2) = 2 ^ Suc k"
proof -
  have "wrap32 (x * 2) = x * 2" if "2 * x \<le> 2 ^ 25" "0 < x" for x :: int using that by (intro wrap32_id) simp_all
  from this [of "2 ^ k"] assms show ?thesis by simp
qed

text \<open>The doubling of the size, which ends beyond 32 MB, for a \<open>vsnprintf\<close> that only reports failure.\<close>

lemma append_doubling:
  assumes "\<And>n. n \<le> kMaxAppendSize \<Longrightarrow> fst (vs n) = -1"
  shows "k \<le> 25 \<Longrightarrow> append_loop vs (2 ^ k) (-1) dst = Some (Inr dst)"
proof (induction "25 - k" arbitrary: k)
  case 0
  then have k: "k = 25" by simp
  show ?case unfolding k by (subst append_loop.simps) (simp add: kMaxAppendSize_def wrap32_id)
next
  case (Suc n)
  have le: "(2 :: int) ^ Suc k \<le> 2 ^ 25" using Suc.hyps(2) by (intro power_increasing) auto
  have w: "wrap32 (2 ^ k * 2) = 2 ^ Suc k" by (rule wrap32_double [OF le])
  have "fst (vs (2 ^ Suc k)) = -1" using assms le by (simp add: kMaxAppendSize_def)
  then obtain b where f: "vs (2 ^ Suc k) = (-1, b)" by (metis prod.collapse)
  have "append_loop vs (2 ^ k) (-1) dst = append_loop vs (2 ^ Suc k) (-1) dst"
    using le by (subst append_loop.simps) (simp only: w Let_def, simp add: kMaxAppendSize_def f del: power_Suc)
  also have "\<dots> = Some (Inr dst)" using Suc.hyps(2) by (intro Suc.hyps(1)) auto
  finally show ?case .
qed

lemma append_c99_too_long:
  assumes "int (length out) \<ge> kMaxAppendSize"
  shows "stringAppendV (c99 out) dst = (if int (length out) = 2 ^ 31 - 1 then Inl Length_Error else Inr dst)"
proof (cases "int (length out) < 2 ^ 31 - 1")
  case True
  then have "wrap32 (int (length out) + 1) = int (length out) + 1" by (intro wrap32_id) auto
  then show ?thesis using assms True
    by (auto simp: stringAppendV_def c99_def append_loop.simps Let_def kSmallFixedSize_def kMaxAppendSize_def)
next
  case False
  show ?thesis
  proof (cases "int (length out) = 2 ^ 31 - 1")
    case True
    then show ?thesis using wrap32_max
      by (simp add: stringAppendV_def c99_def append_loop.simps Let_def kSmallFixedSize_def kMaxAppendSize_def)
  next
    case ne: False
    then have r: "fst (c99 out n) = -1" for n using False by (simp add: c99_def)
    then have "append_loop (c99 out) (2 ^ 10) (-1) dst = Some (Inr dst)" by (intro append_doubling) simp_all
    moreover obtain b where "c99 out 1024 = (-1, b)" using r [of 1024] by (metis prod.collapse)
    ultimately show ?thesis using ne by (simp add: stringAppendV_def kSmallFixedSize_def)
  qed
qed

lemma append_old_loop:
  assumes "k \<le> 25" and "2 ^ k \<le> int (length out)"
  shows "append_loop (old_glibc out) (2 ^ k) (-1) dst
    = Some (Inr (if int (length out) < kMaxAppendSize then dst @ out else dst))"
  using assms
proof (induction "25 - k" arbitrary: k)
  case 0
  then have k: "k = 25" by simp
  show ?case using 0(3) unfolding k by (subst append_loop.simps) (simp add: kMaxAppendSize_def wrap32_id)
next
  case (Suc n)
  have le: "(2 :: int) ^ Suc k \<le> 2 ^ 25" using Suc.hyps(2) by (intro power_increasing) auto
  have w: "wrap32 (2 ^ k * 2) = 2 ^ Suc k" by (rule wrap32_double [OF le])
  have max: "kMaxAppendSize = 2 ^ 25" by (simp add: kMaxAppendSize_def)
  show ?case
  proof (cases "int (length out) < 2 ^ Suc k")
    case True
    then show ?thesis using le max
      by (subst append_loop.simps) (simp only: w Let_def, simp add: old_glibc_def)
  next
    case False
    have "append_loop (old_glibc out) (2 ^ Suc k) (-1) dst
      = Some (Inr (if int (length out) < kMaxAppendSize then dst @ out else dst))"
      using Suc.hyps(2) False by (intro Suc.hyps(1)) auto
    then show ?thesis using False le max
      by (subst append_loop.simps) (simp only: w Let_def, simp add: old_glibc_def)
  qed
qed

lemma append_old:
  "stringAppendV (old_glibc out) dst = Inr (if int (length out) < kMaxAppendSize then dst @ out else dst)"
proof (cases "int (length out) < kSmallFixedSize")
  case True
  then show ?thesis by (simp add: stringAppendV_def old_glibc_def kSmallFixedSize_def kMaxAppendSize_def)
next
  case False
  then have "append_loop (old_glibc out) (2 ^ 10) (-1) dst
    = Some (Inr (if int (length out) < kMaxAppendSize then dst @ out else dst))"
    by (intro append_old_loop) (auto simp: kSmallFixedSize_def)
  then show ?thesis using False
    by (simp add: stringAppendV_def old_glibc_def kSmallFixedSize_def)
qed

text \<open>Decimal numerals: digits only, and injective.\<close>

lemma digit_inj: "m < 16 \<Longrightarrow> n < 16 \<Longrightarrow> digit m = digit n \<Longrightarrow> m = n"
  by (auto simp: digit_def char_of_eq_iff take_bit_eq_mod split: if_splits dest: arg_cong [where f = of_char])

lemma digit_not_colon: "n < 10 \<Longrightarrow> digit n \<noteq> CHR '':''"
  by (auto simp: digit_def char_of_eq_iff take_bit_eq_mod)

lemma show_nat_no_colon: "CHR '':'' \<notin> set (show_nat n)"
proof (induction n rule: show_nat.induct)
  case (1 n)
  have "digit (n mod 10) \<noteq> CHR '':''" by (rule digit_not_colon) simp
  then show ?case using 1 digit_not_colon [of n] by (subst show_nat.simps) auto
qed

lemma show_nat_not_Nil: "show_nat n \<noteq> []"
  by (subst show_nat.simps) simp

lemma show_nat_inj: "show_nat m = show_nat n \<Longrightarrow> m = n"
proof (induction m arbitrary: n rule: show_nat.induct)
  case (1 m)
  show ?case
  proof (cases "m < 10 \<or> n < 10")
    case True
    then have "m < 10 \<and> n < 10"
      using 1(2) show_nat_not_Nil [of "m div 10"] show_nat_not_Nil [of "n div 10"]
      by (auto simp: show_nat.simps [of m] show_nat.simps [of n] Cons_eq_append_conv append_eq_Cons_conv split: if_splits)
    then show ?thesis using 1(2) digit_inj [of m n]
      by (simp add: show_nat.simps [of m] show_nat.simps [of n])
  next
    case False
    then have e: "show_nat (m div 10) = show_nat (n div 10)" "digit (m mod 10) = digit (n mod 10)"
      using 1(2) by (simp_all add: show_nat.simps [of m] show_nat.simps [of n])
    have "m div 10 = n div 10" using 1(1) [OF _ e(1)] False by simp
    moreover have "m mod 10 = n mod 10" using e(2) by (intro digit_inj) (simp_all add: order_less_trans [of _ 10])
    ultimately show ?thesis by (metis mult_div_mod_eq)
  qed
qed

lemma colon_split:
  assumes "a @ CHR '':'' # s = b @ CHR '':'' # t" and "CHR '':'' \<notin> set s" and "CHR '':'' \<notin> set t"
  shows "a = b \<and> s = t"
proof -
  have "rev s @ CHR '':'' # rev a = rev t @ CHR '':'' # rev b"
    using arg_cong [OF assms(1), of rev] by simp
  moreover have tw: "takeWhile (\<lambda>c. c \<noteq> CHR '':'') (rev u @ CHR '':'' # v) = rev u"
    if "CHR '':'' \<notin> set u" for u v
    using that by (subst takeWhile_append2) auto
  ultimately have "rev s = rev t" using tw [OF assms(2)] tw [OF assms(3)] by metis
  then show ?thesis using assms(1) by simp
qed

lemma show_nat_length: "n < 10 ^ Suc k \<Longrightarrow> length (show_nat n) \<le> Suc k"
proof (induction k arbitrary: n)
  case (Suc k)
  have "n div 10 < 10 ^ Suc k" using Suc.prems by (simp add: div_less_iff_less_mult)
  from Suc.IH [OF this] show ?case by (simp add: show_nat.simps [of n])
qed (simp add: show_nat.simps)

lemma show_port_length: "length (show_nat (unat (p :: u16))) \<le> 5"
proof -
  have "unat p < 65536" using unsigned_less [where ?'a = nat, of p] by simp
  then show ?thesis by (simp add: show_nat.simps)
qed

lemma endpoint_string_ok:
  assumes "CHR 0x00 \<notin> set a" and "length a < 33554400"
  shows "endpoint_string a p = Inr (a @ CHR '':'' # show_nat (unat p))"
proof -
  have "takeWhile (\<lambda>c. c \<noteq> CHR 0x00) a = a" using assms(1) by (auto simp: takeWhile_eq_all_conv)
  moreover have "int (length (a @ '':'' @ show_nat (unat p))) < kMaxAppendSize"
    using assms(2) show_port_length [of p] by (simp add: kMaxAppendSize_def)
  ultimately show ?thesis
    unfolding endpoint_string_def StringPrintf_def by (simp only: append_c99 append_Nil append_Cons)
qed

lemma endpoint_make_str:
  assumes "endpoint_make a p = Inr e" and "CHR 0x00 \<notin> set a" and "length a < 33554400"
  shows "ep_str e = a @ CHR '':'' # show_nat (unat p)"
  using assms endpoint_string_ok [OF assms(2,3), of p] by (auto simp: endpoint_make_def)

section \<open>Properties\<close>

text \<open>
  C27. \<open>stringAppendV\<close> appends the whole formatted text, whatever its length relative to the
  1024-byte buffer on the stack, when it is below 32 MB, and appends nothing when it is not; and it
  does so on a C library whose \<open>vsnprintf\<close> reports the size needed as well as on one that only
  reports that the output was cut. The loop ends in both cases. There is one exception: with the former, for
  a text of \<open>2^31 - 1\<close> characters \<open>result + 1\<close> overflows and the buffer cannot be made.
\<close>
theorem string_append_all_or_nothing:
  "stringAppendV (c99 out) dst =
     (if int (length out) = 2 ^ 31 - 1 then Inl Length_Error
      else Inr (if int (length out) < kMaxAppendSize then dst @ out else dst))
   \<and> stringAppendV (old_glibc out) dst = Inr (if int (length out) < kMaxAppendSize then dst @ out else dst)"
  using append_c99 [of out dst] append_c99_too_long [of out dst] append_old [of out dst]
  by (auto simp: kMaxAppendSize_def)

text \<open>
  The text of an endpoint, the key under which \<open>Application\<close> registers listeners, determines
  its address and its port, although an address may itself contain colons and digits.
\<close>
lemma endpoint_key_unique:
  assumes "endpoint_make a p = Inr e" and "endpoint_make b q = Inr f"
    and "CHR 0x00 \<notin> set a" and "CHR 0x00 \<notin> set b" and "length a < 33554400" and "length b < 33554400"
  shows "ep_str e = ep_str f \<longleftrightarrow> a = b \<and> p = q"
proof -
  note e = endpoint_make_str [OF assms(1,3,5)] and f = endpoint_make_str [OF assms(2,4,6)]
  have "a = b \<and> p = q" if "ep_str e = ep_str f"
  proof -
    have "a = b \<and> show_nat (unat p) = show_nat (unat q)"
      by (rule colon_split [OF that [unfolded e f] show_nat_no_colon show_nat_no_colon])
    then show ?thesis using show_nat_inj by (metis word_unat_eq_iff)
  qed
  then show ?thesis using e f by auto
qed

lemma endpoint_key_unique_witness:
  "\<exists>e f. endpoint_make ''::1'' 80 = Inr e \<and> endpoint_make ''::'' 180 = Inr f \<and> ep_str e \<noteq> ep_str f"
proof -
  have "int (length (''::1'' @ '':'' @ show_nat (unat (80 :: u16)))) < kMaxAppendSize"
    "int (length (''::'' @ '':'' @ show_nat (unat (180 :: u16)))) < kMaxAppendSize"
    by (simp_all add: show_nat.simps kMaxAppendSize_def)
  from append_c99 [OF this(1)] append_c99 [OF this(2)]
  obtain e f where ef: "endpoint_make ''::1'' 80 = Inr e" "endpoint_make ''::'' 180 = Inr f"
    by (simp add: endpoint_make_def endpoint_string_def StringPrintf_def)
  then have "ep_str e = ep_str f \<longleftrightarrow> ''::1'' = ''::'' \<and> (80 :: u16) = 180"
    by (rule endpoint_key_unique) simp_all
  then show ?thesis using ef by simp
qed

text \<open>The dump of a byte string is not injective: a byte below 16 prints as one digit.\<close>

lemma StringToHex_ambiguous: "StringToHex [0x12, 0x03] = StringToHex [0x01, 0x23]"
  by (simp add: StringToHex_def show_hex_def)

end
