(* ===== verification/Clock.thy ===== *)
theory Clock
  imports Errcode Strings "HOL-Library.Signed_Division"
begin

text \<open>
  \<open>src/util/time.cc\<close> and \<open>src/core/timer_thread.h\<close> and \<open>timer_thread.cc\<close>: deadlines, the calendar
  date of a time, and the cached clock that \<open>CurrentMs\<close> reads. \<open>/\<close> and \<open>%\<close> of C truncate towards
  zero (\<open>sdiv\<close>, \<open>smod\<close>); \<open>gettimeofday\<close> is an argument, a pair of seconds and microseconds.
\<close>

section \<open>Deadlines\<close>

record timespec =
  tv_sec :: int
  tv_nsec :: int

definition MakeTimespec :: "int \<times> int \<Rightarrow> int \<Rightarrow> timespec" where
  "MakeTimespec tv ms =
     (let ms = (if ms < 0 then 0 else ms);
          ts = \<lparr>tv_sec = fst tv + ms sdiv 1000, tv_nsec = snd tv * 1000 + (ms smod 1000) * 1000000\<rparr>
      in if tv_nsec ts \<ge> 1000000000 then ts\<lparr>tv_nsec := tv_nsec ts - 1000000000, tv_sec := tv_sec ts + 1\<rparr> else ts)"

section \<open>Dates\<close>

text \<open>The fields of \<open>struct tm\<close> that are set.\<close>

record tm =
  tm_sec :: int
  tm_min :: int
  tm_hour :: int
  tm_mday :: int
  tm_mon :: int
  tm_year :: int

definition kHoursInDay :: int where "kHoursInDay = 24"
definition kMinutesInHour :: int where "kMinutesInHour = 60"
definition kDaysFromUnixTime :: int where "kDaysFromUnixTime = 2472632"
definition kDaysFromYear :: int where "kDaysFromYear = 153"
definition kMagicUnkonwnFirst :: int where "kMagicUnkonwnFirst = 146097"
definition kMagicUnkonwnSec :: int where "kMagicUnkonwnSec = 1461"

lemmas date_consts = kHoursInDay_def kMinutesInHour_def kDaysFromUnixTime_def kDaysFromYear_def
  kMagicUnkonwnFirst_def kMagicUnkonwnSec_def

definition Localtime :: "int \<Rightarrow> tm" where
  "Localtime unix_sec =
     (let sec = wrap32 (unix_sec smod kMinutesInHour);
          i = wrap32 (unix_sec sdiv kMinutesInHour);
          minute = i smod kMinutesInHour;
          i = i sdiv kMinutesInHour;
          hour = (i + 8) smod kHoursInDay;
          mday = (i + 8) sdiv kHoursInDay;
          a = mday + kDaysFromUnixTime;
          b = (a * 4 + 3) sdiv kMagicUnkonwnFirst;
          c = ((- b) * kMagicUnkonwnFirst) sdiv 4 + a;
          d = (c * 4 + 3) sdiv kMagicUnkonwnSec;
          e = (- d) * kMagicUnkonwnSec;
          e = e sdiv 4 + c;
          m = (5 * e + 2) sdiv kDaysFromYear;
          mday = (- (kDaysFromYear * m + 2)) sdiv 5 + e + 1;
          mon = ((- m) sdiv 10) * 12 + m + 2;
          year = b * 100 + d - 6700 + m sdiv 10
      in \<lparr>tm_sec = sec, tm_min = minute, tm_hour = hour, tm_mday = mday, tm_mon = mon, tm_year = year\<rparr>)"

section \<open>The timer thread\<close>

definition kTimeSlots :: nat where "kTimeSlots = 64"
definition kUpdateIntervalMsec :: int where "kUpdateIntervalMsec = 50"
definition kLogTimeStringLength :: nat where "kLogTimeStringLength = length ''2019/01/01 00:00:00.000'' + 1"

record time_slot =
  slot_sec :: int
  slot_msec :: u64

text \<open>
  The pointers into the arrays are their indices; each access by \<open>index_\<close> is checked against the length of
  the array (\<open>Out_Of_Bounds\<close>).
\<close>

record timer_thread =
  cached_times :: "time_slot list"
  cached_log_time_strs :: "string list"
  cached_msecs :: "u64 list"
  cached_time :: nat
  cached_log_time_str :: nat
  cached_msec :: nat
  time_index :: nat

definition show_int :: "int \<Rightarrow> string" where
  "show_int i = (if i < 0 then ''-'' @ show_nat (nat (- i)) else show_nat (nat i))"

text \<open>\<open>%<n>d\<close> and \<open>%0<n>d\<close>.\<close>

definition fmt_pad :: "nat \<Rightarrow> int \<Rightarrow> string" where
  "fmt_pad n i = (let s = show_int i in replicate (n - length s) CHR '' '' @ s)"

definition fmt_zero :: "nat \<Rightarrow> int \<Rightarrow> string" where
  "fmt_zero n i =
     (if i < 0 then ''-'' @ (let s = show_nat (nat (- i)) in replicate (n - 1 - length s) CHR ''0'' @ s)
      else (let s = show_nat (nat i) in replicate (n - length s) CHR ''0'' @ s))"

definition log_time_string :: "tm \<Rightarrow> int \<Rightarrow> string" where
  "log_time_string t msec =
     take (kLogTimeStringLength - 1)
       (fmt_pad 4 (tm_year t + 1900) @ ''/'' @ fmt_zero 2 (tm_mon t + 1) @ ''/'' @ fmt_zero 2 (tm_mday t) @ '' ''
        @ fmt_zero 2 (tm_hour t) @ '':'' @ fmt_zero 2 (tm_min t) @ '':'' @ fmt_zero 2 (tm_sec t) @ ''.'' @ fmt_zero 3 msec)"

definition updateTime :: "int \<times> int \<Rightarrow> timer_thread \<Rightarrow> timer_thread res" where
  "updateTime tv t =
     (let i = (time_index t + 1) mod kTimeSlots;
          sec = fst tv;
          msec = word_of_int (snd tv sdiv 1000) :: u64;
          log = log_time_string (Localtime (fst tv)) (sint (ucast msec :: i32))
      in bindR (guardR (i < length (cached_times t)) Out_Of_Bounds) (\<lambda>_.
         bindR (guardR (i < length (cached_msecs t)) Out_Of_Bounds) (\<lambda>_.
         bindR (guardR (i < length (cached_log_time_strs t)) Out_Of_Bounds) (\<lambda>_.
         Inr (t\<lparr>time_index := i,
           cached_msecs := (cached_msecs t)[i := word_of_int (sec * 1000) + msec],
           cached_times := (cached_times t)[i := \<lparr>slot_sec = sec, slot_msec = msec\<rparr>],
           cached_log_time_strs := (cached_log_time_strs t)[i := log],
           cached_time := i, cached_msec := i, cached_log_time_str := i\<rparr>)))))"

text \<open>
  The constructor, in storage that holds anything; it updates the time once. Nothing starts the
  thread: \<open>doInit\<close> is empty and no code calls \<open>Start\<close> on it.
\<close>

definition timer_thread_new :: "time_slot list \<Rightarrow> string list \<Rightarrow> u64 list \<Rightarrow> int \<times> int \<Rightarrow> timer_thread res" where
  "timer_thread_new a b c tv =
     updateTime tv \<lparr>cached_times = a, cached_log_time_strs = b, cached_msecs = c, cached_time = 0,
       cached_log_time_str = 0, cached_msec = 0, time_index = 0\<rparr>"

text \<open>The updates of the loop of \<open>Run\<close>, at the times \<open>gettimeofday\<close> gives.\<close>

fun clock_updates :: "(int \<times> int) list \<Rightarrow> timer_thread \<Rightarrow> timer_thread res" where
  "clock_updates [] t = Inr t"
| "clock_updates (tv # tvs) t = bindR (updateTime tv t) (clock_updates tvs)"

definition GetNowMs :: "timer_thread \<Rightarrow> u64" where
  "GetNowMs t = cached_msecs t ! cached_msec t"

definition GetNowLogtimeString :: "timer_thread \<Rightarrow> string" where
  "GetNowLogtimeString t = cached_log_time_strs t ! cached_log_time_str t"

section \<open>Lemmas on division\<close>

lemma sgn_nonneg_div: "0 \<le> a \<Longrightarrow> sgn a * (\<bar>a\<bar> div b) = (a :: int) div b"
  by (cases "a = 0") (simp_all add: sgn_if)

lemma sdiv_nonneg: "0 \<le> a \<Longrightarrow> 0 < b \<Longrightarrow> (a :: int) sdiv b = a div b"
  unfolding signed_divide_int_def sgn_pos abs_of_pos mult_1_right by (rule sgn_nonneg_div)

lemma smod_nonneg: "0 \<le> a \<Longrightarrow> 0 < b \<Longrightarrow> (a :: int) smod b = a mod b"
  unfolding signed_modulo_int_def by (cases "a = 0") simp_all

lemma sdiv_minus: "0 \<le> a \<Longrightarrow> 0 < b \<Longrightarrow> (- a :: int) sdiv b = - (a div b)"
  unfolding signed_divide_int_def sgn_pos abs_of_pos mult_1_right sgn_minus abs_minus mult_minus_left
  by (simp only: sgn_nonneg_div)

lemma div_unique_int: "(k :: int) * n \<le> x \<Longrightarrow> x < k * n + n \<Longrightarrow> x div n = k"
  by (rule int_div_pos_eq [of _ _ _ "x - k * n"]) (auto simp: algebra_simps)

section \<open>The calendar\<close>

definition leap :: "nat \<Rightarrow> bool" where
  "leap y \<longleftrightarrow> 4 dvd y \<and> (\<not> 100 dvd y \<or> 400 dvd y)"

definition month_days :: "nat \<Rightarrow> nat \<Rightarrow> nat" where
  "month_days y m = (if m = 2 then (if leap y then 29 else 28) else if m \<in> {4, 6, 9, 11} then 30 else 31)"

definition valid_date :: "nat \<Rightarrow> nat \<Rightarrow> nat \<Rightarrow> bool" where
  "valid_date y m d \<longleftrightarrow> 1970 \<le> y \<and> 1 \<le> m \<and> m \<le> 12 \<and> 1 \<le> d \<and> d \<le> month_days y m"

text \<open>The days from 1 January 1970.\<close>

definition epoch_days :: "nat \<Rightarrow> nat \<Rightarrow> nat \<Rightarrow> nat" where
  "epoch_days y m d = (\<Sum>i \<leftarrow> [1970..<y]. if leap i then 366 else 365) + (\<Sum>i \<leftarrow> [1..<m]. month_days y i) + (d - 1)"

definition leaps :: "nat \<Rightarrow> nat" where
  "leaps y = y div 4 + y div 400 - y div 100"

lemma div_mono_100: "y div 100 \<le> (y :: nat) div 4"
  by (rule div_le_mono2) simp_all

lemma leaps_Suc: "leaps (Suc y) = leaps y + (if leap (Suc y) then 1 else 0)"
proof -
  have s: "Suc y div k = y div k + of_bool (k dvd Suc y)" for k
    by (simp add: div_Suc dvd_eq_mod_eq_0)
  have h: "(100 :: nat) dvd x \<Longrightarrow> 4 dvd x" "(400 :: nat) dvd x \<Longrightarrow> 100 dvd x" for x
    using dvd_trans [of 4 100 x] dvd_trans [of 100 400 x] by simp_all
  have arith: "a + of_bool P + (c + of_bool R) - (b + of_bool Q) = a + c - b + (if P \<and> (\<not> Q \<or> R) then 1 else (0 :: nat))"
    if "b \<le> a" "Q \<longrightarrow> P" "R \<longrightarrow> Q" for a b c P Q R using that by (cases P; cases Q; cases R) simp_all
  show ?thesis unfolding leaps_def leap_def s of_bool_def [symmetric]
    by (rule arith [unfolded of_bool_def, folded of_bool_def]) (use div_mono_100 h in blast)+
qed

lemma year_days: "1970 \<le> y \<Longrightarrow> (\<Sum>i \<leftarrow> [1970..<y]. if leap i then 366 else 365) + 719050 + 477 = 365 * y + leaps (y - 1)"
proof (induction y rule: dec_induct)
  case base
  then show ?case by (simp add: leaps_def)
next
  case (step y)
  have "leaps y = leaps (y - 1) + (if leap y then 1 else 0)" using leaps_Suc [of "y - 1"] step.hyps by simp
  then show ?case using step by simp
qed

text \<open>
  The algorithm counts from 1 March of year 4800 before the era. Its intermediate values at a date:
  \<open>b\<close> centuries, \<open>d\<close> years in the century, \<open>m\<close> months since March, and the date itself.
\<close>

lemma century:
  assumes "0 \<le> b" "0 \<le> c" "c < 36524 \<or> c = 36524 \<and> b mod 4 = (3 :: int)"
  shows "((36524 * b + b div 4 + c) * 4 + 3) div 146097 = b" "((- b) * 146097) sdiv 4 = - (36524 * b + b div 4)"
proof -
  define q r where "q = b div 4" and "r = b mod 4"
  then have f: "4 * q + r = b" "r \<le> 3" "0 \<le> r" by simp_all
  show "((36524 * b + b div 4 + c) * 4 + 3) div 146097 = b"
    unfolding q_def [symmetric]
  proof (rule div_unique_int)
    have g: "(36524 * b + q + c) * 4 + 3 = 146096 * b + 4 * q + 4 * c + 3" by simp
    have u: "4 * c + 3 < 146097 + r" using assms(3) f(3) unfolding r_def by auto
    show "b * 146097 \<le> (36524 * b + q + c) * 4 + 3" unfolding g using f assms(2) by linarith
    show "(36524 * b + q + c) * 4 + 3 < b * 146097 + 146097"
      unfolding g using f u by linarith
  qed
  have "(- b) * 146097 = - (b * 146097)" by simp
  then have "((- b) * 146097) sdiv 4 = - ((b * 146097) div 4)" using assms(1) by (simp only: sdiv_minus)
  moreover have "(b * 146097) div 4 = 36524 * b + b div 4" using div_mult_self1 [of 4 b "36524 * b"] by (simp add: algebra_simps)
  ultimately show "((- b) * 146097) sdiv 4 = - (36524 * b + b div 4)" by simp
qed

lemma year_in_century:
  assumes "0 \<le> d" "0 \<le> e" "e < 365 \<or> e = 365 \<and> d mod 4 = (3 :: int)"
  shows "((365 * d + d div 4 + e) * 4 + 3) div 1461 = d" "((- d) * 1461) sdiv 4 = - (365 * d + d div 4)"
proof -
  define q r where "q = d div 4" and "r = d mod 4"
  then have f: "4 * q + r = d" "r \<le> 3" "0 \<le> r" by simp_all
  show "((365 * d + d div 4 + e) * 4 + 3) div 1461 = d"
    unfolding q_def [symmetric]
  proof (rule div_unique_int)
    have g: "(365 * d + q + e) * 4 + 3 = 1460 * d + 4 * q + 4 * e + 3" by simp
    have u: "4 * e + 3 < 1461 + r" using assms(3) f(3) unfolding r_def by auto
    show "d * 1461 \<le> (365 * d + q + e) * 4 + 3" unfolding g using f assms(2) by linarith
    show "(365 * d + q + e) * 4 + 3 < d * 1461 + 1461"
      unfolding g using f u by linarith
  qed
  have "(- d) * 1461 = - (d * 1461)" by simp
  then have "((- d) * 1461) sdiv 4 = - ((d * 1461) div 4)" using assms(1) by (simp only: sdiv_minus)
  moreover have "(d * 1461) div 4 = 365 * d + d div 4" using div_mult_self1 [of 4 d "365 * d"] by (simp add: algebra_simps)
  ultimately show "((- d) * 1461) sdiv 4 = - (365 * d + d div 4)" by simp
qed

text \<open>The date from the number \<open>a\<close> of its day, as \<open>Localtime\<close> computes it.\<close>

definition civil :: "int \<Rightarrow> int \<times> int \<times> int" where
  "civil a =
     (let b = (a * 4 + 3) sdiv 146097; c = ((- b) * 146097) sdiv 4 + a; d = (c * 4 + 3) sdiv 1461;
          e = ((- d) * 1461) sdiv 4 + c; m = (5 * e + 2) sdiv 153
      in (b * 100 + d - 6700 + m sdiv 10, ((- m) sdiv 10) * 12 + m + 2, (- (153 * m + 2)) sdiv 5 + e + 1))"

lemma civil_march:
  assumes b: "0 \<le> b" and d: "0 \<le> d" "d \<le> 99" and m: "0 \<le> m" "m \<le> 11" and k: "1 \<le> k"
    and e: "e = (153 * m + 2) div 5 + k - 1" "5 * e + 2 < 153 * m + 153"
      "e < 365 \<or> e = 365 \<and> d mod 4 = 3 \<and> (d = 99 \<longrightarrow> b mod 4 = (3 :: int))"
  shows "civil (36524 * b + b div 4 + (365 * d + d div 4 + e))
    = (b * 100 + d - 6700 + (if m = 10 \<or> m = 11 then 1 else 0), (if m = 10 \<or> m = 11 then m - 10 else m + 2), k)"
proof -
  have e0: "0 \<le> e" using e(1) k m by simp
  define c where "c = 365 * d + d div 4 + e"
  have c: "0 \<le> c" "c < 36524 \<or> c = 36524 \<and> b mod 4 = 3"
  proof -
    show "0 \<le> c" using d e0 by (simp add: c_def)
    have "d < 99 \<or> d = 99" using d by auto
    then show "c < 36524 \<or> c = 36524 \<and> b mod 4 = 3" using e(3) d by (auto simp: c_def)
  qed
  define a where "a = 36524 * b + b div 4 + c"
  have "0 \<le> a" using b c by (simp add: a_def)
  then have sb: "(a * 4 + 3) sdiv 146097 = b" using century(1) [OF b c] by (simp add: sdiv_nonneg a_def)
  have sc: "((- b) * 146097) sdiv 4 + a = c" unfolding century(2) [OF b c] by (simp add: a_def)
  have "e < 365 \<or> e = 365 \<and> d mod 4 = 3" using e(3) by auto
  note y = year_in_century [OF d(1) e0 this]
  have sd: "(c * 4 + 3) sdiv 1461 = d" using y(1) c by (simp add: sdiv_nonneg c_def)
  have se: "((- d) * 1461) sdiv 4 + c = e" unfolding y(2) by (simp add: c_def)
  have "m * 153 \<le> 5 * e + 2" using e(1) k by simp
  then have "(5 * e + 2) div 153 = m" using e(2) by (intro div_unique_int) auto
  then have sm: "(5 * e + 2) sdiv 153 = m" using e0 by (simp add: sdiv_nonneg)
  have "(- (153 * m + 2)) sdiv 5 = - ((153 * m + 2) div 5)" using m by (intro sdiv_minus) simp_all
  then have sk: "(- (153 * m + 2)) sdiv 5 + e + 1 = k" using e(1) by linarith
  have "m sdiv 10 = (if m = 10 \<or> m = 11 then 1 else 0)" "((- m) sdiv 10) * 12 = (if m = 10 \<or> m = 11 then -12 else 0)"
    using m by (auto simp: sdiv_nonneg sdiv_minus intro!: div_unique_int div_pos_pos_trivial)
  then show ?thesis unfolding a_def [symmetric] c_def [symmetric] civil_def Let_def sb sc sd se sm sk by simp
qed

lemma leaps_shift: "leaps (y + 4800) = leaps y + 1164"
proof -
  have d: "(y + 4800) div 4 = y div 4 + 1200" "(y + 4800) div 100 = y div 100 + 48" "(y + 4800) div 400 = y div 400 + 12"
    using div_mult_self1 [of 4 y 1200] div_mult_self1 [of 100 y 48] div_mult_self1 [of 400 y 12] by simp_all
  have "b \<le> a \<Longrightarrow> (a + 1200) + (c + 12) - (b + 48) = a + c - b + 1164" for a b c :: nat by simp
  from this [OF div_mono_100] show ?thesis unfolding leaps_def d .
qed

lemma leaps_split:
  "int (365 * y + leaps y) = 36524 * (int y div 100) + (int y div 100) div 4 + (365 * (int y mod 100) + (int y mod 100) div 4)"
proof -
  define b d where "b = y div 100" and "d = y mod 100"
  then have y: "y = 100 * b + d" "d < 100" by simp_all
  have "y div 4 = 25 * b + d div 4" using div_mult_self1 [of 4 d "25 * b"] y(1) by (simp add: algebra_simps)
  moreover have arith: "b \<le> q \<Longrightarrow> 365 * y + (q + c - b) + b = 365 * y + q + c" for b q c :: nat by simp
  moreover have "y div 400 = b div 4" unfolding b_def by (simp add: div_mult2_eq [symmetric])
  ultimately have "365 * y + leaps y + b = 365 * (100 * b + d) + 25 * b + d div 4 + b div 4"
    using y(1) arith [OF div_mono_100 [of y], of "y div 400"] unfolding leaps_def b_def [symmetric] by simp
  then have "365 * y + leaps y = 36524 * b + b div 4 + (365 * d + d div 4)" by (simp add: algebra_simps)
  then have "int (365 * y + leaps y) = int (36524 * b + b div 4 + (365 * d + d div 4))" by (rule arg_cong)
  then show ?thesis unfolding b_def d_def by (simp add: zdiv_int zmod_int)
qed

lemma month_cases:
  assumes "1 \<le> m" "m \<le> (12 :: nat)"
  shows "m = 1 \<or> m = 2 \<or> m = 3 \<or> m = 4 \<or> m = 5 \<or> m = 6 \<or> m = 7 \<or> m = 8 \<or> m = 9 \<or> m = 10 \<or> m = 11 \<or> m = 12"
  using assms by presburger

text \<open>Days before a month, from March on; and its length.\<close>

lemma months_from_march:
  assumes "3 \<le> m" "m \<le> 12"
  shows "(\<Sum>i \<leftarrow> [1..<m]. month_days y i) = 59 + (if leap y then 1 else 0) + (153 * (m - 3) + 2) div 5"
    and "5 * ((153 * (m - 3) + 2) div 5 + month_days y m - 1) + 2 < 153 * (m - 3) + 153"
proof -
  have "m = 3 \<or> m = 4 \<or> m = 5 \<or> m = 6 \<or> m = 7 \<or> m = 8 \<or> m = 9 \<or> m = 10 \<or> m = 11 \<or> m = 12"
    using assms by presburger
  then show "(\<Sum>i \<leftarrow> [1..<m]. month_days y i) = 59 + (if leap y then 1 else 0) + (153 * (m - 3) + 2) div 5"
    and "5 * ((153 * (m - 3) + 2) div 5 + month_days y m - 1) + 2 < 153 * (m - 3) + 153"
    by (elim disjE; simp add: month_days_def upt_conv_Cons)+
qed

lemma epoch_days_march:
  assumes "valid_date y m d" "3 \<le> m"
  shows "epoch_days y m d + 2472632 = 365 * (y + 4800) + leaps (y + 4800) + ((153 * (m - 3) + 2) div 5 + (d - 1))"
proof -
  have v: "1970 \<le> y" "m \<le> 12" using assms by (simp_all add: valid_date_def)
  have l: "leaps y = leaps (y - 1) + (if leap y then 1 else 0)" using leaps_Suc [of "y - 1"] v by simp
  show ?thesis using year_days [OF v(1)] months_from_march(1) [OF assms(2) v(2), of y] l
    unfolding epoch_days_def leaps_shift by simp
qed

lemma epoch_days_jan_feb:
  assumes "valid_date y m d" "m \<le> 2"
  shows "epoch_days y m d + 2472632 = 365 * (y + 4799) + leaps (y + 4799) + ((153 * (m + 9) + 2) div 5 + (d - 1))"
proof -
  have v: "1970 \<le> y" "m = 1 \<or> m = 2" using assms by (auto simp: valid_date_def)
  have "(y - 1) + 4800 = y + 4799" using v by simp
  then have "leaps (y + 4799) = leaps (y - 1) + 1164" using leaps_shift [of "y - 1"] by (simp only:)
  then show ?thesis using year_days [OF v(1)] v(2) unfolding epoch_days_def
    by (auto simp: upt_conv_Cons month_days_def)
qed

lemma leap_year_before:
  assumes "leap y"
  shows "int (y + 4799) mod 100 mod 4 = 3 \<and> (int (y + 4799) mod 100 = 99 \<longrightarrow> int (y + 4799) div 100 mod 4 = 3)"
proof -
  obtain x where x: "y = 4 * x" using assms by (auto simp: leap_def)
  have "int (y + 4799) mod 100 mod 4 = int (y + 4799) mod 4" by (rule mod_mod_cancel) simp
  also have "\<dots> = 3" unfolding x by presburger
  finally have "int (y + 4799) mod 100 mod 4 = 3" .
  moreover have "int (y + 4799) div 100 mod 4 = 3" if "int (y + 4799) mod 100 = 99"
  proof -
    have "100 dvd y" using that by presburger
    then obtain z where "y = 400 * z" using assms by (auto simp: leap_def)
    then have "int (y + 4799) = 99 + (4 * int z + 47) * 100" by simp
    then have q: "int (y + 4799) div 100 = 4 * int z + 47" using div_mult_self1 [of 100 99 "4 * int z + 47"] by simp
    show ?thesis unfolding q by simp
  qed
  ultimately show ?thesis by blast
qed

lemma civil_epoch_days:
  assumes v: "valid_date y m d"
  shows "civil (int (epoch_days y m d) + 2472632) = (int y - 1900, int m - 1, int d)"
proof -
  define Y k where "Y = (if m \<le> 2 then y + 4799 else y + 4800)" and "k = (if m \<le> 2 then m + 9 else m - 3)"
  define e where "e = (153 * k + 2) div 5 + (d - 1)"
  have m: "1 \<le> m" "m \<le> 12" "1 \<le> d" "d \<le> month_days y m" "1970 \<le> y" using v by (simp_all add: valid_date_def)
  have "epoch_days y m d + 2472632 = 365 * Y + leaps Y + e"
    using epoch_days_march [OF v] epoch_days_jan_feb [OF v] by (simp add: Y_def k_def e_def)
  then have "int (epoch_days y m d) + 2472632 = int (365 * Y + leaps Y) + int e" by (metis of_nat_add of_nat_numeral)
  also have "\<dots> = 36524 * (int Y div 100) + (int Y div 100) div 4 + (365 * (int Y mod 100) + (int Y mod 100) div 4 + int e)"
    unfolding leaps_split by simp
  finally have a: "int (epoch_days y m d) + 2472632
    = 36524 * (int Y div 100) + (int Y div 100) div 4 + (365 * (int Y mod 100) + (int Y mod 100) div 4 + int e)" .
  have k11: "k \<le> 11" using m by (auto simp: k_def)
  have e1: "int e = (153 * int k + 2) div 5 + int d - 1" using m(3) unfolding e_def by (simp add: of_nat_diff zdiv_int)
  have "5 * e + 2 < 153 * k + 153 \<and> (e < 365 \<or> e = 365 \<and> m = 2 \<and> leap y)"
  proof (cases "m \<le> 2")
    case True
    then have "m = 1 \<or> m = 2" using m by auto
    then show ?thesis using m by (auto simp: e_def k_def month_days_def split: if_splits)
  next
    case False
    then have "(153 * k + 2) div 5 \<le> 275" using m by (auto simp: k_def intro: div_le_mono [of _ 1379 5, simplified])
    moreover have "d \<le> 31" using m by (auto simp: month_days_def split: if_splits)
    ultimately have "e < 365" unfolding e_def by linarith
    have "5 * (q + (d - 1)) + 2 < r" if "5 * (q + month_days y m - 1) + 2 < r" for q r
      by (rule le_less_trans [OF _ that]) (use m(3,4) in simp)
    from this [OF months_from_march(2)] have "5 * e + 2 < 153 * k + 153" using False m by (simp add: e_def k_def)
    with \<open>e < 365\<close> show ?thesis by blast
  qed
  then have e2: "5 * int e + 2 < 153 * int k + 153"
    and e3: "int e < 365 \<or> int e = 365 \<and> int Y mod 100 mod 4 = 3 \<and> (int Y mod 100 = 99 \<longrightarrow> int Y div 100 mod 4 = 3)"
    using leap_year_before [of y] by (auto simp: Y_def)
  have "civil (int (epoch_days y m d) + 2472632)
    = (int Y div 100 * 100 + int Y mod 100 - 6700 + (if int k = 10 \<or> int k = 11 then 1 else 0),
       (if int k = 10 \<or> int k = 11 then int k - 10 else int k + 2), int d)"
    unfolding a by (rule civil_march) (use m k11 e1 e2 e3 in auto)
  also have "\<dots> = (int y - 1900, int m - 1, int d)"
    using m by (auto simp: Y_def k_def)
  finally show ?thesis .
qed

section \<open>Properties\<close>

text \<open>
  C21. \<open>Localtime\<close> computes the date of the Gregorian calendar and the time of day in the zone UTC+8
  of every time up to the year 6053: the second, minute, hour and date of a moment are the ones its
  seconds since the epoch are counted from, through all leap years and centuries.
\<close>

theorem localtime_gregorian:
  assumes v: "valid_date y m d" and hms: "h < 24" "mi < 60" "s < 60"
    and t: "t = 86400 * int (epoch_days y m d) + 3600 * int h + 60 * int mi + int s - 28800" "0 \<le> t" "t < 60 * 2 ^ 31"
  shows "Localtime t = \<lparr>tm_sec = int s, tm_min = int mi, tm_hour = int h, tm_mday = int d, tm_mon = int m - 1,
    tm_year = int y - 1900\<rparr>"
proof -
  define D where "D = int (epoch_days y m d)"
  define i where "i = 1440 * D + 60 * int h + int mi - 480"
  define j where "j = 24 * D + int h - 8"
  have ti: "t = int s + i * 60" using t(1) by (simp add: i_def D_def)
  have ij: "i = int mi + j * 60" by (simp add: i_def j_def)
  have "t div 60 = i" "t mod 60 = int s"
    unfolding ti using hms div_mult_self1 [of 60 "int s" i] by simp_all
  moreover have i: "0 \<le> i" "i < 2 ^ 31" using t(2,3) hms(3) unfolding ti by linarith+
  ultimately have ws: "wrap32 (t smod 60) = int s" "wrap32 (t sdiv 60) = i"
    using t(2) hms by (simp_all add: smod_nonneg sdiv_nonneg wrap32_id)
  have "i div 60 = j" "i mod 60 = int mi"
    unfolding ij using hms div_mult_self1 [of 60 "int mi" j] by simp_all
  then have wm: "i sdiv 60 = j" "i smod 60 = int mi" using i by (simp_all add: smod_nonneg sdiv_nonneg)
  have j8: "j + 8 = int h + D * 24" by (simp add: j_def)
  have "(j + 8) div 24 = D" "(j + 8) mod 24 = int h" "0 \<le> j + 8"
    unfolding j8 using hms div_mult_self1 [of 24 "int h" D] by (simp_all add: D_def)
  then have wh: "(j + 8) sdiv 24 = D" "(j + 8) smod 24 = int h" by (simp_all add: smod_nonneg sdiv_nonneg)
  from civil_epoch_days [OF v] show ?thesis
    unfolding Localtime_def date_consts Let_def ws wm wh civil_def D_def [symmetric] by simp
qed

text \<open>12 January 2019, 15:04:05 in Beijing, and 29 February 2000, 0:00:00.\<close>

theorem localtime_gregorian_witness:
  "Localtime 1547276645 = \<lparr>tm_sec = 5, tm_min = 4, tm_hour = 15, tm_mday = 12, tm_mon = 0, tm_year = 119\<rparr>
    \<and> Localtime 951753600 = \<lparr>tm_sec = 0, tm_min = 0, tm_hour = 0, tm_mday = 29, tm_mon = 1, tm_year = 100\<rparr>"
proof
  have "epoch_days 2019 1 12 = 17908" "epoch_days 2000 2 29 = 11016"
    using year_days [of 2019] year_days [of 2000] upt_conv_Cons [of 1 2]
    by (simp_all add: epoch_days_def leaps_def month_days_def)
  moreover have "valid_date 2019 1 12" "valid_date 2000 2 29" by (simp_all add: valid_date_def month_days_def leap_def)
  ultimately show
    "Localtime 1547276645 = \<lparr>tm_sec = 5, tm_min = 4, tm_hour = 15, tm_mday = 12, tm_mon = 0, tm_year = 119\<rparr>"
    "Localtime 951753600 = \<lparr>tm_sec = 0, tm_min = 0, tm_hour = 0, tm_mday = 29, tm_mon = 1, tm_year = 100\<rparr>"
    using localtime_gregorian [of 2019 1 12 15 4 5 1547276645] localtime_gregorian [of 2000 2 29 0 0 0 951753600]
    by simp_all
qed

text \<open>
  \<open>MakeTimespec\<close> gives the deadline exactly, \<open>ms\<close> milliseconds (none if negative) after the time
  of day, with the nanoseconds in their range.
\<close>

lemma make_timespec_exact:
  assumes "0 \<le> us" "us < 1000000"
  shows "tv_sec (MakeTimespec (s, us) ms) * 1000000000 + tv_nsec (MakeTimespec (s, us) ms)
      = s * 1000000000 + us * 1000 + max 0 ms * 1000000
    \<and> 0 \<le> tv_nsec (MakeTimespec (s, us) ms) \<and> tv_nsec (MakeTimespec (s, us) ms) < 1000000000"
proof -
  define n where "n = max 0 ms"
  have n: "(if ms < 0 then 0 else ms) = n" "0 \<le> n" by (auto simp: n_def)
  define q r where "q = n div 1000" and "r = n mod 1000"
  have "n sdiv 1000 = q" "n smod 1000 = r" using n(2) by (simp_all add: q_def r_def sdiv_nonneg smod_nonneg)
  moreover have "n = 1000 * q + r" "0 \<le> r" "r < 1000" by (simp_all add: q_def r_def)
  ultimately show ?thesis
    using assms unfolding n_def [symmetric] by (simp add: MakeTimespec_def n(1) Let_def)
qed

lemma make_timespec_exact_witness:
  "MakeTimespec (100, 999999) 1002 = \<lparr>tv_sec = 102, tv_nsec = 1999000\<rparr>
    \<and> tv_sec (MakeTimespec (100, 999999) 1002) * 1000000000 + tv_nsec (MakeTimespec (100, 999999) 1002)
      = 100 * 1000000000 + 999999 * 1000 + 1002 * 1000000"
  using make_timespec_exact [of 999999 100 1002] by (simp add: MakeTimespec_def sdiv_nonneg smod_nonneg)

definition clock_ok :: "timer_thread \<Rightarrow> bool" where
  "clock_ok t \<longleftrightarrow> length (cached_msecs t) = kTimeSlots \<and> length (cached_times t) = kTimeSlots
     \<and> length (cached_log_time_strs t) = kTimeSlots \<and> time_index t < kTimeSlots
     \<and> cached_msec t = time_index t \<and> cached_time t = time_index t \<and> cached_log_time_str t = time_index t"

text \<open>The milliseconds of a time of \<open>gettimeofday\<close>.\<close>

definition ms_of :: "int \<times> int \<Rightarrow> u64" where
  "ms_of tv = word_of_int (fst tv * 1000) + word_of_int (snd tv sdiv 1000)"

text \<open>The same contents in slot \<open>j\<close>.\<close>

definition slot_kept :: "nat \<Rightarrow> timer_thread \<Rightarrow> timer_thread \<Rightarrow> bool" where
  "slot_kept j t u \<longleftrightarrow> cached_msecs u ! j = cached_msecs t ! j \<and> cached_times u ! j = cached_times t ! j
     \<and> cached_log_time_strs u ! j = cached_log_time_strs t ! j"

lemma updateTime_ok:
  assumes "length (cached_msecs t) = kTimeSlots" "length (cached_times t) = kTimeSlots" "length (cached_log_time_strs t) = kTimeSlots"
  shows "\<exists>u. updateTime tv t = Inr u \<and> clock_ok u \<and> time_index u = (time_index t + 1) mod kTimeSlots \<and> GetNowMs u = ms_of tv
    \<and> (\<forall>j. j \<noteq> (time_index t + 1) mod kTimeSlots \<longrightarrow> slot_kept j t u)"
  using assms by (simp add: updateTime_def Let_def clock_ok_def GetNowMs_def ms_of_def slot_kept_def kTimeSlots_def)

lemma clock_updates_ok:
  "clock_ok t \<Longrightarrow> \<exists>u. clock_updates tvs t = Inr u \<and> clock_ok u \<and> time_index u = (time_index t + length tvs) mod kTimeSlots
    \<and> GetNowMs u = (if tvs = [] then GetNowMs t else ms_of (last tvs))
    \<and> (\<forall>j. (\<forall>k \<in> {1..length tvs}. j \<noteq> (time_index t + k) mod kTimeSlots) \<longrightarrow> slot_kept j t u)"
proof (induction tvs arbitrary: t)
  case Nil
  then show ?case by (simp add: clock_ok_def slot_kept_def)
next
  case (Cons tv tvs)
  obtain t1 where 1: "updateTime tv t = Inr t1" "clock_ok t1" "time_index t1 = (time_index t + 1) mod kTimeSlots"
    "GetNowMs t1 = ms_of tv" "\<And>j. j \<noteq> (time_index t + 1) mod kTimeSlots \<Longrightarrow> slot_kept j t t1"
    using updateTime_ok [of t tv] Cons.prems by (auto simp: clock_ok_def)
  obtain u where u: "clock_updates tvs t1 = Inr u" "clock_ok u" "time_index u = (time_index t1 + length tvs) mod kTimeSlots"
    "GetNowMs u = (if tvs = [] then GetNowMs t1 else ms_of (last tvs))"
    "\<And>j. (\<forall>k \<in> {1..length tvs}. j \<noteq> (time_index t1 + k) mod kTimeSlots) \<Longrightarrow> slot_kept j t1 u"
    using Cons.IH [OF 1(2)] by blast
  have m: "(time_index t1 + k) mod kTimeSlots = (time_index t + Suc k) mod kTimeSlots" for k
    by (simp add: 1(3) mod_add_left_eq)
  have "slot_kept j t u" if j: "\<forall>k \<in> {1..length (tv # tvs)}. j \<noteq> (time_index t + k) mod kTimeSlots" for j
  proof -
    have "j \<noteq> (time_index t1 + k) mod kTimeSlots" if "k \<in> {1..length tvs}" for k
      using bspec [OF j, of "Suc k"] that by (simp add: m)
    then have "slot_kept j t1 u" by (intro u(5)) blast
    moreover have "slot_kept j t t1" by (rule 1(5)) (use bspec [OF j, of 1] in simp)
    ultimately show ?thesis by (simp add: slot_kept_def)
  qed
  moreover have "time_index u = (time_index t + length (tv # tvs)) mod kTimeSlots" using u(3) m [of "length tvs"] by simp
  ultimately show ?case using 1(1,4) u(1,2,4) by simp
qed

text \<open>
  C24. From the constructor on, any number of updates stays within the arrays, and so do the pointers; the current
  millisecond counter is that of the last update. A reader that has taken the address of the counter, record or log string
  still finds the values of that moment there while the timer thread goes through up to 63 more updates; the 64th overwrites
  them.
\<close>

theorem cached_time_stable:
  assumes "length a = kTimeSlots" and "length b = kTimeSlots" and "length c = kTimeSlots"
  shows "\<exists>t u. bindR (timer_thread_new a b c tv) (clock_updates before) = Inr t \<and> clock_updates tvs t = Inr u
    \<and> cached_msec t < length (cached_msecs t) \<and> cached_time t < length (cached_times t)
    \<and> cached_log_time_str t < length (cached_log_time_strs t) \<and> GetNowMs t = ms_of (last (tv # before))
    \<and> (length tvs < kTimeSlots \<longrightarrow> cached_msecs u ! cached_msec t = GetNowMs t
        \<and> cached_times u ! cached_time t = cached_times t ! cached_time t
        \<and> cached_log_time_strs u ! cached_log_time_str t = GetNowLogtimeString t)
    \<and> (length tvs = kTimeSlots \<longrightarrow> cached_msec u = cached_msec t \<and> cached_time u = cached_time t
        \<and> cached_log_time_str u = cached_log_time_str t)"
proof -
  obtain t0 where 0: "timer_thread_new a b c tv = Inr t0" "clock_ok t0" "GetNowMs t0 = ms_of tv"
    using updateTime_ok [of "\<lparr>cached_times = a, cached_log_time_strs = b, cached_msecs = c, cached_time = 0,
       cached_log_time_str = 0, cached_msec = 0, time_index = 0\<rparr>" tv] assms by (auto simp: timer_thread_new_def)
  obtain t where t: "clock_updates before t0 = Inr t" "clock_ok t" "GetNowMs t = ms_of (last (tv # before))"
    using clock_updates_ok [OF 0(2), of before] 0(3) by auto
  let ?i = "time_index t"
  have i: "?i < kTimeSlots" "cached_msec t = ?i" "cached_time t = ?i" "cached_log_time_str t = ?i"
    "length (cached_msecs t) = kTimeSlots" "length (cached_times t) = kTimeSlots" "length (cached_log_time_strs t) = kTimeSlots"
    using t(2) by (simp_all add: clock_ok_def)
  obtain u where u: "clock_updates tvs t = Inr u" "clock_ok u" "time_index u = (?i + length tvs) mod kTimeSlots"
    "\<forall>j. (\<forall>k \<in> {1..length tvs}. j \<noteq> (?i + k) mod kTimeSlots) \<longrightarrow> slot_kept j t u"
    using clock_updates_ok [OF t(2), of tvs] by blast
  have n: "?i \<noteq> (?i + k) mod kTimeSlots" if "k \<in> {1..length tvs}" "length tvs < kTimeSlots" for k
  proof
    assume e: "?i = (?i + k) mod kTimeSlots"
    have "?i + k < kTimeSlots \<or> ?i + k - kTimeSlots < kTimeSlots \<and> kTimeSlots \<le> ?i + k" using that i(1) by auto
    then show False using e that by (auto simp: mod_if)
  qed
  have "length tvs < kTimeSlots \<Longrightarrow> slot_kept ?i t u" using u(4) n by blast
  moreover have "length tvs = kTimeSlots \<Longrightarrow> time_index u = ?i" using u(3) i(1) by simp
  ultimately show ?thesis
    using 0(1) t(1,3) u(1,2) i
    by (intro exI [of _ t] exI [of _ u]) (simp add: slot_kept_def clock_ok_def GetNowMs_def GetNowLogtimeString_def)
qed

theorem cached_time_stable_witness:
  "\<exists>t u. timer_thread_new (replicate 64 \<lparr>slot_sec = 0, slot_msec = 0\<rparr>) (replicate 64 []) (replicate 64 0) (5, 7000) = Inr t
    \<and> clock_updates (replicate 63 (6, 0)) t = Inr u \<and> GetNowMs t = 5007 \<and> cached_msecs u ! cached_msec t = 5007"
proof -
  have m: "ms_of (last [(5, 7000)]) = 5007" by (simp add: ms_of_def sdiv_nonneg)
  have n: "clock_updates [] = Inr" by (rule ext) simp
  have "bindR x Inr = x" for x :: "timer_thread res" by (cases x) simp_all
  then show ?thesis
    using cached_time_stable [of "replicate 64 \<lparr>slot_sec = 0, slot_msec = 0\<rparr>" "replicate 64 []" "replicate 64 0" "(5, 7000)" "[]"
        "replicate 63 (6, 0)"] m n by (auto simp: kTimeSlots_def)
qed

end
