(* ===== verification/Heap.thy ===== *)
theory Heap
  imports Prelude
begin

text \<open>
  The free store of the program: \<open>new\<close> / \<open>malloc\<close> and \<open>delete\<close> / \<open>free\<close> for one type of
  object, with the pointers that refer to it. A freed address is handed out again by the next
  allocation, so a stale pointer can meet a new object; dereferencing an address that is not
  allocated is the fault \<open>Wild_Access\<close>, freeing one is \<open>Double_Free\<close>.
\<close>

section \<open>Pointers\<close>

type_synonym addr = nat

text \<open>\<open>Indeterminate\<close> is the value of a pointer variable that was never written.\<close>

datatype ptr = Null | At addr | Indeterminate

definition deref :: "ptr \<Rightarrow> addr res" where
  "deref p = (case p of Null \<Rightarrow> Inl Null_Deref | Indeterminate \<Rightarrow> Inl Uninit_Read | At a \<Rightarrow> Inr a)"

lemma deref_simps [simp]:
  "deref (At a) = Inr a" "deref Null = Inl Null_Deref" "deref Indeterminate = Inl Uninit_Read"
  by (simp_all add: deref_def)

section \<open>The store\<close>

record 'a heap =
  cells :: "addr \<Rightarrow> 'a option"
  avail :: "addr list"
  brk :: addr

definition heap_empty :: "'a heap" where
  "heap_empty = \<lparr>cells = (\<lambda>_. None), avail = [], brk = 0\<rparr>"

definition heap_alloc :: "'a \<Rightarrow> 'a heap \<Rightarrow> addr \<times> 'a heap" where
  "heap_alloc v h = (case avail h of
     [] \<Rightarrow> (brk h, h\<lparr>cells := (cells h)(brk h \<mapsto> v), brk := Suc (brk h)\<rparr>)
   | a # as \<Rightarrow> (a, h\<lparr>cells := (cells h)(a \<mapsto> v), avail := as\<rparr>))"

definition heap_get :: "addr \<Rightarrow> 'a heap \<Rightarrow> 'a res" where
  "heap_get a h = (case cells h a of None \<Rightarrow> Inl Wild_Access | Some v \<Rightarrow> Inr v)"

definition heap_put :: "addr \<Rightarrow> 'a \<Rightarrow> 'a heap \<Rightarrow> 'a heap res" where
  "heap_put a v h = (case cells h a of
     None \<Rightarrow> Inl Wild_Access
   | Some _ \<Rightarrow> Inr (h\<lparr>cells := (cells h)(a \<mapsto> v)\<rparr>))"

definition heap_free :: "addr \<Rightarrow> 'a heap \<Rightarrow> 'a heap res" where
  "heap_free a h = (case cells h a of
     None \<Rightarrow> Inl Double_Free
   | Some _ \<Rightarrow> Inr (h\<lparr>cells := (cells h)(a := None), avail := a # avail h\<rparr>))"

text \<open>Reading and writing through a pointer.\<close>

definition ptr_get :: "ptr \<Rightarrow> 'a heap \<Rightarrow> 'a res" where
  "ptr_get p h = bindR (deref p) (\<lambda>a. heap_get a h)"

definition ptr_upd :: "ptr \<Rightarrow> ('a \<Rightarrow> 'a) \<Rightarrow> 'a heap \<Rightarrow> 'a heap res" where
  "ptr_upd p f h = bindR (deref p) (\<lambda>a. bindR (heap_get a h) (\<lambda>v. heap_put a (f v) h))"

text \<open>\<open>free (NULL)\<close> does nothing.\<close>

definition ptr_free :: "ptr \<Rightarrow> 'a heap \<Rightarrow> 'a heap res" where
  "ptr_free p h = (case p of Null \<Rightarrow> Inr h | Indeterminate \<Rightarrow> Inl Uninit_Read | At a \<Rightarrow> heap_free a h)"

section \<open>Laws of the store\<close>

definition heap_wf :: "'a heap \<Rightarrow> bool" where
  "heap_wf h \<longleftrightarrow> distinct (avail h) \<and> set (avail h) \<inter> dom (cells h) = {}
     \<and> (\<forall>a \<in> dom (cells h) \<union> set (avail h). a < brk h)"

lemma heap_wf_empty [simp]: "heap_wf heap_empty"
  by (simp add: heap_wf_def heap_empty_def)

lemma heap_wf_alloc: "heap_wf h \<Longrightarrow> heap_alloc v h = (a, h') \<Longrightarrow> heap_wf h'"
  by (auto simp: heap_wf_def heap_alloc_def less_Suc_eq split: list.splits if_splits)

lemma heap_alloc_fresh: "heap_wf h \<Longrightarrow> heap_alloc v h = (a, h') \<Longrightarrow> cells h a = None"
  by (fastforce simp: heap_wf_def heap_alloc_def split: list.splits)

lemma heap_alloc_cells: "heap_alloc v h = (a, h') \<Longrightarrow> cells h' = (cells h)(a \<mapsto> v)"
  by (auto simp: heap_alloc_def split: list.splits)

lemma heap_free_ok:
  assumes "heap_wf h" and "cells h a = Some v"
  shows "\<exists>h'. heap_free a h = Inr h' \<and> heap_wf h' \<and> cells h' = (cells h)(a := None)"
  using assms by (auto simp: heap_free_def heap_wf_def)

lemma heap_get_eq_Inr [res_simps]: "heap_get a h = Inr v \<longleftrightarrow> cells h a = Some v"
  by (auto simp: heap_get_def split: option.splits)

lemma heap_get_Some [simp]: "cells h a = Some v \<Longrightarrow> heap_get a h = Inr v"
  by (simp add: heap_get_def)

lemma heap_put_Some [simp]:
  "cells h a = Some v \<Longrightarrow> heap_put a w h = Inr (h\<lparr>cells := (cells h)(a \<mapsto> w)\<rparr>)"
  by (simp add: heap_put_def)

lemma heap_put_wf: "heap_wf h \<Longrightarrow> cells h a = Some v \<Longrightarrow> heap_wf (h\<lparr>cells := (cells h)(a \<mapsto> w)\<rparr>)"
  by (auto simp: heap_wf_def)

lemma ptr_get_At [simp]: "cells h a = Some v \<Longrightarrow> ptr_get (At a) h = Inr v"
  by (simp add: ptr_get_def)

lemma ptr_upd_At [simp]:
  "cells h a = Some v \<Longrightarrow> ptr_upd (At a) f h = Inr (h\<lparr>cells := (cells h)(a \<mapsto> f v)\<rparr>)"
  by (simp add: ptr_upd_def)

lemma ptr_free_Null [simp]: "ptr_free Null h = Inr h"
  by (simp add: ptr_free_def)

lemma ptr_free_At [simp]: "ptr_free (At a) h = heap_free a h"
  by (simp add: ptr_free_def)

end
