(* ===== verification/Yqueue.thy ===== *)
theory Yqueue
  imports Heap
begin

text \<open>
  \<open>src/base/yqueue.h\<close>: the queue under the lock-free pipe. Elements live in chunks of \<open>N\<close>, linked
  in both directions, and are addressed by chunk and position; \<open>Push\<close> and \<open>Pop\<close> only move
  positions, and the last chunk consumed is kept as a spare. The file also has
  \<open>AtomicPointer\<close>, the atomic cell of \<open>src/base/atomic.h\<close>.
\<close>

section \<open>AtomicPointer\<close>

text \<open>\<open>Xchg\<close> and \<open>Cas\<close> return the old value of the cell, and its new value.\<close>

definition atomic_xchg :: "'a \<Rightarrow> 'a \<Rightarrow> 'a \<times> 'a" where
  "atomic_xchg val cell = (cell, val)"

definition atomic_cas :: "'a \<Rightarrow> 'a \<Rightarrow> 'a \<Rightarrow> 'a \<times> 'a" where
  "atomic_cas cmp val cell = (cell, if cell = cmp then val else cell)"

section \<open>Chunks\<close>

text \<open>An element that was never written is \<open>None\<close>: the memory comes from \<open>malloc\<close>.\<close>

record 'a chunk =
  vals :: "'a option list"
  prev :: ptr
  nxt :: ptr

definition chunk_raw :: "nat \<Rightarrow> 'a chunk" where
  "chunk_raw N = \<lparr>vals = replicate N None, prev = Indeterminate, nxt = Indeterminate\<rparr>"

text \<open>The queue with the memory its chunks live in.\<close>

record 'a yqueue =
  begin_chunk :: ptr
  begin_pos :: nat
  back_chunk :: ptr
  back_pos :: nat
  end_chunk :: ptr
  end_pos :: nat
  spare_chunk :: ptr
  chunks :: "'a chunk heap"

type_synonym elem = "addr \<times> nat"

section \<open>Operations\<close>

definition yq_new :: "nat \<Rightarrow> 'a yqueue" where
  "yq_new N = (let (a, h) = heap_alloc (chunk_raw N) heap_empty in
     \<lparr>begin_chunk = At a, begin_pos = 0, back_chunk = Null, back_pos = 0, end_chunk = At a,
      end_pos = 0, spare_chunk = Null, chunks = h\<rparr>)"

text \<open>\<open>&Front ()\<close> and \<open>&Back ()\<close>; \<open>yq_load\<close> and \<open>yq_store\<close> are the accesses through them.\<close>

definition yq_front :: "'a yqueue \<Rightarrow> elem res" where
  "yq_front q = bindR (deref (begin_chunk q)) (\<lambda>a. Inr (a, begin_pos q))"

definition yq_back :: "'a yqueue \<Rightarrow> elem res" where
  "yq_back q = bindR (deref (back_chunk q)) (\<lambda>a. Inr (a, back_pos q))"

definition yq_load :: "elem \<Rightarrow> 'a yqueue \<Rightarrow> 'a res" where
  "yq_load e q = bindR (heap_get (fst e) (chunks q)) (\<lambda>ch.
     if snd e < length (vals ch)
     then (case vals ch ! snd e of None \<Rightarrow> Inl Uninit_Read | Some v \<Rightarrow> Inr v)
     else Inl Out_Of_Bounds)"

definition yq_store :: "elem \<Rightarrow> 'a \<Rightarrow> 'a yqueue \<Rightarrow> 'a yqueue res" where
  "yq_store e v q = bindR (heap_get (fst e) (chunks q)) (\<lambda>ch.
     if snd e < length (vals ch)
     then bindR (heap_put (fst e) (ch\<lparr>vals := (vals ch)[snd e := Some v]\<rparr>) (chunks q))
       (\<lambda>h. Inr (q\<lparr>chunks := h\<rparr>))
     else Inl Out_Of_Bounds)"

text \<open>\<open>p->f = v\<close> for a field of the chunk \<open>p\<close> points at.\<close>

definition yq_upd :: "ptr \<Rightarrow> ('a chunk \<Rightarrow> 'a chunk) \<Rightarrow> 'a yqueue \<Rightarrow> 'a yqueue res" where
  "yq_upd p f q = bindR (ptr_upd p f (chunks q)) (\<lambda>h. Inr (q\<lparr>chunks := h\<rparr>))"

definition yq_push :: "nat \<Rightarrow> 'a yqueue \<Rightarrow> 'a yqueue res" where
  "yq_push N q =
     (let q = q\<lparr>back_chunk := end_chunk q, back_pos := end_pos q, end_pos := Suc (end_pos q)\<rparr> in
      if end_pos q \<noteq> N then Inr q
      else
        let (sc, none) = atomic_xchg Null (spare_chunk q); q = q\<lparr>spare_chunk := none\<rparr> in
        bindR
          (if sc \<noteq> Null then
             bindR (yq_upd (end_chunk q) (\<lambda>ch. ch\<lparr>nxt := sc\<rparr>) q) (\<lambda>q.
             yq_upd sc (\<lambda>ch. ch\<lparr>prev := end_chunk q\<rparr>) q)
           else
             let (a, h) = heap_alloc (chunk_raw N) (chunks q); q = q\<lparr>chunks := h\<rparr> in
             bindR (yq_upd (end_chunk q) (\<lambda>ch. ch\<lparr>nxt := At a\<rparr>) q) (\<lambda>q.
             bindR (ptr_get (end_chunk q) (chunks q)) (\<lambda>ch.
             yq_upd (nxt ch) (\<lambda>ch. ch\<lparr>prev := end_chunk q\<rparr>) q)))
          (\<lambda>q. bindR (ptr_get (end_chunk q) (chunks q)) (\<lambda>ch.
             Inr (q\<lparr>end_chunk := nxt ch, end_pos := 0\<rparr>))))"

definition yq_unpush :: "nat \<Rightarrow> 'a yqueue \<Rightarrow> 'a yqueue res" where
  "yq_unpush N q =
     bindR
       (if back_pos q \<noteq> 0 then Inr (q\<lparr>back_pos := back_pos q - 1\<rparr>)
        else bindR (ptr_get (back_chunk q) (chunks q)) (\<lambda>ch.
          Inr (q\<lparr>back_pos := N - 1, back_chunk := prev ch\<rparr>)))
     (\<lambda>q. if end_pos q \<noteq> 0 then Inr (q\<lparr>end_pos := end_pos q - 1\<rparr>)
        else bindR (ptr_get (end_chunk q) (chunks q)) (\<lambda>ch.
          let q = q\<lparr>end_pos := N - 1, end_chunk := prev ch\<rparr> in
          bindR (ptr_get (end_chunk q) (chunks q)) (\<lambda>ch.
          bindR (ptr_free (nxt ch) (chunks q)) (\<lambda>h.
          yq_upd (end_chunk q) (\<lambda>ch. ch\<lparr>nxt := Null\<rparr>) (q\<lparr>chunks := h\<rparr>)))))"

definition yq_pop :: "nat \<Rightarrow> 'a yqueue \<Rightarrow> 'a yqueue res" where
  "yq_pop N q =
     (let q = q\<lparr>begin_pos := Suc (begin_pos q)\<rparr> in
      if begin_pos q = N then
        let old = begin_chunk q in
        bindR (ptr_get old (chunks q)) (\<lambda>ch.
        let q = q\<lparr>begin_chunk := nxt ch\<rparr> in
        bindR (yq_upd (begin_chunk q) (\<lambda>ch. ch\<lparr>prev := Null\<rparr>) q) (\<lambda>q.
        let (cs, new) = atomic_xchg old (spare_chunk q) in
        bindR (ptr_free cs (chunks q)) (\<lambda>h.
        Inr (q\<lparr>begin_pos := 0, spare_chunk := new, chunks := h\<rparr>))))
      else Inr q)"

text \<open>\<open>~YQueue\<close>: the chunks from \<open>begin\<close> to \<open>end\<close>, then the spare one.\<close>

partial_function (option) yq_destroy_loop ::
  "ptr \<Rightarrow> ptr \<Rightarrow> 'a chunk heap \<Rightarrow> 'a chunk heap res option" where
  "yq_destroy_loop b e h =
     (if b = e then Some (ptr_free b h)
      else (case bindR (ptr_get b h) (\<lambda>ch. bindR (ptr_free b h) (\<lambda>h. Inr (nxt ch, h))) of
              Inl f \<Rightarrow> Some (Inl f)
            | Inr (b', h') \<Rightarrow> yq_destroy_loop b' e h'))"

definition yq_destroy :: "'a yqueue \<Rightarrow> 'a chunk heap res" where
  "yq_destroy q =
     bindR (loopR (yq_destroy_loop (begin_chunk q) (end_chunk q) (chunks q))) (\<lambda>h.
     ptr_free (fst (atomic_xchg Null (spare_chunk q))) h)"

section \<open>What a queue holds\<close>

definition vals_of :: "'a chunk heap \<Rightarrow> addr \<Rightarrow> 'a option list option" where
  "vals_of h a = map_option vals (cells h a)"

definition nxt_of :: "'a chunk heap \<Rightarrow> addr \<Rightarrow> ptr option" where
  "nxt_of h a = map_option nxt (cells h a)"

definition prev_of :: "'a chunk heap \<Rightarrow> addr \<Rightarrow> ptr option" where
  "prev_of h a = map_option prev (cells h a)"

text \<open>The elements of a chunk with their addresses.\<close>

definition chunk_elems :: "'a chunk heap \<Rightarrow> addr \<Rightarrow> (elem \<times> 'a option) list" where
  "chunk_elems h a = (case vals_of h a of None \<Rightarrow> []
     | Some vs \<Rightarrow> map (\<lambda>i. ((a, i), vs ! i)) [0..<length vs])"

definition chunk_linked :: "'a chunk heap \<Rightarrow> addr \<Rightarrow> addr \<Rightarrow> bool" where
  "chunk_linked h a b \<longleftrightarrow> nxt_of h a = Some (At b) \<and> prev_of h b = Some (At a)"

definition chunk_ok :: "nat \<Rightarrow> 'a chunk heap \<Rightarrow> addr \<Rightarrow> bool" where
  "chunk_ok N h a \<longleftrightarrow> (\<exists>vs. vals_of h a = Some vs \<and> length vs = N)"

text \<open>
  The address of the spare chunk; the chunks \<open>xs @ [z]\<close> from \<open>begin\<close> to \<open>end\<close> and the spare
  are all the memory of the queue.
\<close>

definition spare_set :: "ptr \<Rightarrow> addr set" where
  "spare_set p = (case p of At s \<Rightarrow> {s} | _ \<Rightarrow> {})"

lemma spare_set_simps [simp]: "spare_set Null = {}" "spare_set (At a) = {a}"
  by (simp_all add: spare_set_def)

definition yq_elems :: "nat \<Rightarrow> 'a yqueue \<Rightarrow> addr list \<Rightarrow> addr \<Rightarrow> (elem \<times> 'a option) list" where
  "yq_elems N q xs z = drop (begin_pos q) (take (N * length xs + end_pos q)
     (concat (map (chunk_elems (chunks q)) (xs @ [z]))))"

text \<open>The part of the representation that speaks of the memory only.\<close>

definition chain :: "nat \<Rightarrow> 'a chunk heap \<Rightarrow> ptr \<Rightarrow> addr list \<Rightarrow> bool" where
  "chain N h sp zs \<longleftrightarrow> heap_wf h \<and> distinct zs \<and> sp \<noteq> Indeterminate \<and> spare_set sp \<inter> set zs = {}
     \<and> dom (cells h) = set zs \<union> spare_set sp \<and> (\<forall>a \<in> dom (cells h). chunk_ok N h a)
     \<and> successively (chunk_linked h) zs"

definition yq_rep :: "nat \<Rightarrow> 'a yqueue \<Rightarrow> addr list \<Rightarrow> addr \<Rightarrow> (elem \<times> 'a option) list \<Rightarrow> bool" where
  "yq_rep N q xs z es \<longleftrightarrow>
     chain N (chunks q) (spare_chunk q) (xs @ [z])
     \<and> begin_chunk q = At (hd (xs @ [z])) \<and> end_chunk q = At z
     \<and> begin_pos q < N \<and> end_pos q < N \<and> (xs = [] \<longrightarrow> begin_pos q \<le> end_pos q)
     \<and> es = yq_elems N q xs z
     \<and> (es \<noteq> [] \<longrightarrow> (\<exists>b. back_chunk q = At b \<and> fst (last es) = (b, back_pos q)))"

lemma chunk_elems_cong: "vals_of h' a = vals_of h a \<Longrightarrow> chunk_elems h' a = chunk_elems h a"
  by (simp add: chunk_elems_def)

lemma length_chunk_elems: "chunk_ok N h a \<Longrightarrow> length (chunk_elems h a) = N"
  by (auto simp: chunk_ok_def chunk_elems_def)

lemma fst_chunk_elems: "chunk_ok N h a \<Longrightarrow> map fst (chunk_elems h a) = map (Pair a) [0..<N]"
  by (auto simp: chunk_ok_def chunk_elems_def)

lemma chunk_elems_nth: "chunk_ok N h a \<Longrightarrow> i < N \<Longrightarrow> chunk_elems h a ! i = ((a, i), the (vals_of h a) ! i)"
  by (auto simp: chunk_ok_def chunk_elems_def)

lemma length_chain_elems:
  "\<forall>a \<in> set xs. chunk_ok N h a \<Longrightarrow> length (concat (map (chunk_elems h) xs)) = N * length xs"
  by (induction xs) (auto simp: length_chunk_elems)

lemma chain_ok: "chain N h sp zs \<Longrightarrow> a \<in> set zs \<Longrightarrow> chunk_ok N h a"
  by (auto simp: chain_def)

lemma chain_cell: "chain N h sp zs \<Longrightarrow> a \<in> set zs \<Longrightarrow> \<exists>ch. cells h a = Some ch"
  by (auto simp: chain_def)

lemma chain_len: "chain N h sp zs \<Longrightarrow> cells h a = Some ch \<Longrightarrow> length (vals ch) = N"
  unfolding chain_def chunk_ok_def vals_of_def by (metis domI option.map(2) option.inject)

text \<open>Links inside a chain do not depend on the fields outside it.\<close>

lemma linked_cong:
  "successively (chunk_linked h) zs \<Longrightarrow> (\<And>a. a \<in> set (butlast zs) \<Longrightarrow> nxt_of h' a = nxt_of h a)
    \<Longrightarrow> (\<And>a. a \<in> set (tl zs) \<Longrightarrow> prev_of h' a = prev_of h a) \<Longrightarrow> successively (chunk_linked h') zs"
  by (induction zs rule: induct_list012) (auto simp: chunk_linked_def)

lemma of_upd:
  assumes "cells h' = (cells h)(a \<mapsto> u)"
  shows "vals_of h' = (vals_of h)(a \<mapsto> vals u)" "nxt_of h' = (nxt_of h)(a \<mapsto> nxt u)"
    "prev_of h' = (prev_of h)(a \<mapsto> prev u)"
  using assms by (auto simp: vals_of_def nxt_of_def prev_of_def)

lemma of_free:
  assumes "cells h' = (cells h)(a := None)"
  shows "vals_of h' = (vals_of h)(a := None)" "nxt_of h' = (nxt_of h)(a := None)"
    "prev_of h' = (prev_of h)(a := None)"
  using assms by (auto simp: vals_of_def nxt_of_def prev_of_def)

lemma of_cell:
  "cells h a = Some u \<Longrightarrow> vals_of h a = Some (vals u) \<and> nxt_of h a = Some (nxt u) \<and> prev_of h a = Some (prev u)"
  by (simp add: vals_of_def nxt_of_def prev_of_def)

section \<open>The operations on the represented queue\<close>

lemma chain_single: "chain N h Null [a] \<longleftrightarrow> heap_wf h \<and> dom (cells h) = {a} \<and> chunk_ok N h a"
  by (auto simp: chain_def)

lemma yq_new_rep: "0 < N \<Longrightarrow> yq_rep N (yq_new N) [] 0 []"
  by (auto simp: yq_rep_def yq_new_def heap_alloc_def heap_empty_def chain_def yq_elems_def
      heap_wf_def chunk_ok_def vals_of_def chunk_raw_def)

lemma yq_length:
  assumes "yq_rep N q xs z es"
  shows "begin_pos q + length es = N * length xs + end_pos q"
proof -
  have c: "\<forall>a \<in> set (xs @ [z]). chunk_ok N (chunks q) a"
    using assms by (auto simp: yq_rep_def intro: chain_ok)
  have "begin_pos q \<le> N * length xs + end_pos q"
    using assms by (cases xs) (auto simp: yq_rep_def)
  moreover have "es = yq_elems N q xs z" "end_pos q < N" using assms by (auto simp: yq_rep_def)
  ultimately show ?thesis
    using length_chain_elems [OF c] by (simp add: yq_elems_def del: map_append)
qed

lemma distinct_chain_elems:
  "distinct zs \<Longrightarrow> \<forall>a \<in> set zs. chunk_ok N h a \<Longrightarrow> distinct (map fst (concat (map (chunk_elems h) zs)))"
proof (induction zs)
  case (Cons a zs)
  have "fst ` set (chunk_elems h a) \<inter> fst ` set (concat (map (chunk_elems h) zs)) = {}"
    using Cons.prems by (fastforce simp: chunk_elems_def split: option.splits)
  moreover have "distinct (map fst (chunk_elems h a))"
    unfolding fst_chunk_elems [OF Cons.prems(2) [rule_format, OF list.set_intros(1)]]
    by (simp add: distinct_map inj_on_def)
  ultimately show ?case using Cons by (simp del: set_concat)
qed simp

lemma yq_distinct:
  assumes "yq_rep N q xs z es"
  shows "distinct (map fst es)"
proof -
  have c: "\<forall>a \<in> set (xs @ [z]). chunk_ok N (chunks q) a" "distinct (xs @ [z])"
    using assms by (auto simp: yq_rep_def chain_def)
  have "es = yq_elems N q xs z" using assms by (simp add: yq_rep_def)
  then show ?thesis
    using distinct_chain_elems [OF c(2,1)]
    by (simp only: yq_elems_def drop_map [symmetric] take_map [symmetric] distinct_drop distinct_take)
qed

lemma yq_elems_nth:
  assumes "yq_rep N q xs z es" and "i < length es"
  shows "es ! i = concat (map (chunk_elems (chunks q)) (xs @ [z])) ! (begin_pos q + i)"
proof -
  have c: "\<forall>a \<in> set (xs @ [z]). chunk_ok N (chunks q) a"
    using assms by (auto simp: yq_rep_def intro: chain_ok)
  have "es = yq_elems N q xs z" "end_pos q < N" using assms by (auto simp: yq_rep_def)
  then show ?thesis
    using length_chain_elems [OF c] yq_length [OF assms(1)] assms(2)
    by (simp add: yq_elems_def del: map_append)
qed

lemma yq_front_rep:
  assumes "yq_rep N q xs z (e # es)"
  shows "yq_front q = Inr (fst e)"
proof -
  let ?a = "hd (xs @ [z])"
  have c: "chunk_ok N (chunks q) ?a" and b: "begin_chunk q = At ?a" "begin_pos q < N"
    using assms by (auto simp: yq_rep_def intro!: chain_ok [of N "chunks q"] hd_in_set)
  have "e = concat (map (chunk_elems (chunks q)) (xs @ [z])) ! begin_pos q"
    using yq_elems_nth [OF assms, of 0] by simp
  also have "\<dots> = chunk_elems (chunks q) ?a ! begin_pos q"
    using c b(2) by (cases xs) (simp_all add: nth_append length_chunk_elems)
  also have "fst \<dots> = (?a, begin_pos q)" using chunk_elems_nth [OF c b(2)] by simp
  finally show ?thesis by (simp add: yq_front_def b)
qed

lemma yq_back_rep: "yq_rep N q xs z (es @ [e]) \<Longrightarrow> yq_back q = Inr (fst e)"
  by (auto simp: yq_rep_def yq_back_def)

subsection \<open>Loads and stores\<close>

lemma yq_elem_cell:
  assumes "yq_rep N q xs z es" and "(p, v) \<in> set es"
  shows "\<exists>ch. cells (chunks q) (fst p) = Some ch \<and> snd p < length (vals ch) \<and> vals ch ! snd p = v"
proof -
  have "es = yq_elems N q xs z" using assms by (simp add: yq_rep_def)
  then have "(p, v) \<in> set (concat (map (chunk_elems (chunks q)) (xs @ [z])))"
    using assms(2) unfolding yq_elems_def by (metis in_set_dropD in_set_takeD)
  then obtain a where "(p, v) \<in> set (chunk_elems (chunks q) a)" by auto
  then show ?thesis by (cases "cells (chunks q) a") (auto simp: chunk_elems_def vals_of_def)
qed

lemma yq_load_rep: "yq_rep N q xs z es \<Longrightarrow> (p, Some v) \<in> set es \<Longrightarrow> yq_load p q = Inr v"
  by (drule (1) yq_elem_cell) (auto simp: yq_load_def)

lemma chain_upd:
  assumes c: "chain N h sp zs" and a: "cells h a = Some u" and l: "length (vals u') = N"
    and "nxt u' = nxt u" and "prev u' = prev u"
  shows "chain N (h\<lparr>cells := (cells h)(a \<mapsto> u')\<rparr>) sp zs"
proof -
  define h' where "h' = h\<lparr>cells := (cells h)(a \<mapsto> u')\<rparr>"
  have ch: "cells h' = (cells h)(a \<mapsto> u')" by (simp add: h'_def)
  have f: "nxt_of h' b = nxt_of h b" "prev_of h' b = prev_of h b" for b
    using a assms(4,5) by (auto simp: nxt_of_def prev_of_def ch)
  have "successively (chunk_linked h) zs" using c by (simp add: chain_def)
  then have "successively (chunk_linked h') zs" by (rule linked_cong) (simp_all add: f)
  moreover have "chunk_ok N h' b" if "b \<in> dom (cells h')" for b
    using that l chain_len [OF c] by (cases "b = a") (auto simp: chunk_ok_def vals_of_def ch)
  moreover have "dom (cells h') = dom (cells h)" using a ch by auto
  moreover have "heap_wf h'" using c heap_put_wf [OF _ a] by (simp add: chain_def h'_def)
  ultimately have "chain N h' sp zs" using c unfolding chain_def by blast
  then show ?thesis by (simp add: h'_def)
qed

lemma chunk_elems_store:
  assumes "cells h a = Some ch" and "i < length (vals ch)"
  shows "chunk_elems (h\<lparr>cells := (cells h)(a \<mapsto> ch\<lparr>vals := (vals ch)[i := Some v]\<rparr>)\<rparr>) b
    = map (\<lambda>e. if fst e = (a, i) then ((a, i), Some v) else e) (chunk_elems h b)"
  using assms by (auto simp: chunk_elems_def vals_of_def nth_list_update split: option.splits)

lemma yq_store_rep:
  assumes "yq_rep N q xs z (es @ [(p, w)])"
  shows "\<exists>q'. yq_store p v q = Inr q' \<and> yq_rep N q' xs z (es @ [(p, Some v)])"
proof -
  let ?f = "\<lambda>e. if fst e = p then (p, Some v) else e"
  obtain ch where ch: "cells (chunks q) (fst p) = Some ch" "snd p < length (vals ch)"
    using yq_elem_cell [OF assms, of p w] by auto
  define h' where "h' = (chunks q)\<lparr>cells := (cells (chunks q))(fst p \<mapsto> ch\<lparr>vals := (vals ch)[snd p := Some v]\<rparr>)\<rparr>"
  have ce: "chunk_elems h' = (\<lambda>b. map ?f (chunk_elems (chunks q) b))"
    using chunk_elems_store [OF ch] by (auto simp: h'_def)
  have c: "chain N h' (spare_chunk q) (xs @ [z])"
    unfolding h'_def using assms ch
    by (intro chain_upd [where u = ch]) (auto simp: yq_rep_def intro: chain_len)
  have "concat (map (chunk_elems h') zs) = map ?f (concat (map (chunk_elems (chunks q)) zs))" for zs
    by (simp add: ce map_concat comp_def)
  then have "yq_elems N (q\<lparr>chunks := h'\<rparr>) xs z = map ?f (yq_elems N q xs z)"
    by (simp add: yq_elems_def drop_map take_map del: map_append concat_append)
  also have "\<dots> = map ?f (es @ [(p, w)])" using assms by (simp add: yq_rep_def)
  also have "\<dots> = es @ [(p, Some v)]"
    using yq_distinct [OF assms] by (force intro!: map_idI)
  finally have "yq_rep N (q\<lparr>chunks := h'\<rparr>) xs z (es @ [(p, Some v)])"
    using assms c by (auto simp: yq_rep_def)
  moreover have "yq_store p v q = Inr (q\<lparr>chunks := h'\<rparr>)"
    using ch by (simp add: yq_store_def h'_def)
  ultimately show ?thesis by blast
qed

subsection \<open>The memory of a chain\<close>

lemma set_tl: "a \<in> set (tl zs) \<Longrightarrow> a \<in> set zs"
  by (cases zs) auto

lemma chain_alloc:
  assumes c: "chain N h Null zs" and a: "heap_alloc (chunk_raw N) h = (b, h')"
  shows "chain N h' (At b) zs" and "\<forall>a \<in> set zs. vals_of h' a = vals_of h a"
proof -
  have w: "heap_wf h" "heap_wf h'" "cells h b = None"
    using c a heap_wf_alloc heap_alloc_fresh by (auto simp: chain_def)
  have ch: "cells h' = (cells h)(b \<mapsto> chunk_raw N)" using heap_alloc_cells [OF a] .
  have d: "dom (cells h) = set zs" using c by (simp add: chain_def)
  then have b: "b \<notin> set zs" using w(3) by auto
  have same: "vals_of h' a = vals_of h a" "nxt_of h' a = nxt_of h a" "prev_of h' a = prev_of h a"
    if "a \<in> set zs" for a
    using that b by (auto simp: vals_of_def nxt_of_def prev_of_def ch)
  have s: "successively (chunk_linked h) zs" using c by (simp add: chain_def)
  have "successively (chunk_linked h') zs"
    by (rule linked_cong [OF s]) (auto intro!: same dest: in_set_butlastD set_tl)
  moreover have "chunk_ok N h' a" if "a \<in> dom (cells h')" for a
  proof (cases "a = b")
    case True
    then show ?thesis by (simp add: chunk_ok_def vals_of_def ch chunk_raw_def)
  next
    case False
    then have "a \<in> set zs" using that d by (auto simp: ch)
    then show ?thesis using chain_ok [OF c] same by (simp add: chunk_ok_def)
  qed
  moreover have "dom (cells h') = set zs \<union> {b}" using d by (auto simp: ch)
  ultimately show "chain N h' (At b) zs" using w b c by (simp add: chain_def)
  show "\<forall>a \<in> set zs. vals_of h' a = vals_of h a" using same by blast
qed

lemma chain_link:
  assumes c: "chain N h (At b) (xs @ [z])" and u: "cells h z = Some u" and v: "cells h b = Some v"
    and h': "h' = h\<lparr>cells := (cells h)(z \<mapsto> u\<lparr>nxt := At b\<rparr>, b \<mapsto> v\<lparr>prev := At z\<rparr>)\<rparr>"
  shows "chain N h' Null (xs @ [z, b])" and "vals_of h' = vals_of h"
proof -
  have b: "b \<notin> set (xs @ [z])" and d: "distinct (xs @ [z])" and w: "heap_wf h"
    and dom: "dom (cells h) = set (xs @ [z]) \<union> {b}" and s: "successively (chunk_linked h) (xs @ [z])"
    and k: "\<forall>a \<in> dom (cells h). chunk_ok N h a"
    using c by (auto simp: chain_def)
  have ch: "cells h' = (cells h)(z \<mapsto> u\<lparr>nxt := At b\<rparr>, b \<mapsto> v\<lparr>prev := At z\<rparr>)" by (simp add: h')
  show vals: "vals_of h' = vals_of h" using b u v by (auto simp: vals_of_def ch fun_eq_iff)
  have n: "nxt_of h' a = nxt_of h a" if "a \<noteq> z" for a using that v by (auto simp: nxt_of_def ch)
  have p: "prev_of h' a = prev_of h a" if "a \<noteq> b" for a using that u by (auto simp: prev_of_def ch)
  have "successively (chunk_linked h') (xs @ [z])"
    using d b by (intro linked_cong [OF s] n p) (auto dest: list.set_sel(2) [rotated])
  moreover have "chunk_linked h' z b" using b by (auto simp: chunk_linked_def nxt_of_def prev_of_def ch)
  ultimately have "successively (chunk_linked h') ((xs @ [z]) @ [b])"
    unfolding successively_append_iff by simp
  moreover have "dom (cells h') = dom (cells h)" using u v by (auto simp: ch)
  moreover have "heap_wf h'" using w u v by (auto simp: h' heap_wf_def)
  ultimately show "chain N h' Null (xs @ [z, b])"
    using b d dom k vals by (simp add: chain_def chunk_ok_def) blast
qed

lemma chain_pop:
  assumes c: "chain N h sp (x # y # ys)" and u: "cells h y = Some u"
    and h1: "h1 = h\<lparr>cells := (cells h)(y \<mapsto> u\<lparr>prev := Null\<rparr>)\<rparr>"
  shows "\<exists>h2. ptr_free sp h1 = Inr h2 \<and> chain N h2 (At x) (y # ys)
    \<and> (\<forall>a \<in> set (y # ys). vals_of h2 a = vals_of h a)"
proof -
  have d: "distinct (x # y # ys)" and w: "heap_wf h" and sp: "sp \<noteq> Indeterminate"
    "spare_set sp \<inter> set (x # y # ys) = {}"
    and dom: "dom (cells h) = set (x # y # ys) \<union> spare_set sp"
    and s: "successively (chunk_linked h) (y # ys)" and k: "\<forall>a \<in> dom (cells h). chunk_ok N h a"
    using c by (auto simp: chain_def)
  have w1: "heap_wf h1" using heap_put_wf [OF w u] by (simp add: h1)
  have c1: "cells h1 = (cells h)(y \<mapsto> u\<lparr>prev := Null\<rparr>)" by (simp add: h1)
  have sps: "set (x # y # ys) \<inter> spare_set sp = {}" using sp(2) by blast
  obtain h2 where h2: "ptr_free sp h1 = Inr h2" "heap_wf h2"
    "\<And>a. cells h2 a = (if a \<in> spare_set sp then None else cells h1 a)"
  proof (cases sp)
    case (At t)
    then obtain ct where "cells h1 t = Some ct" using dom sps by (auto simp: c1 dom_def)
    then show ?thesis using heap_free_ok [OF w1] that At by fastforce
  qed (use that w1 sp(1) in auto)
  have dom2: "dom (cells h2) = set (x # y # ys)"
    using dom sps u by (auto simp: h2(3) c1 dom_def split: if_splits)
  have f: "vals_of h2 a = vals_of h a" "nxt_of h2 a = nxt_of h a" "a \<noteq> y \<Longrightarrow> prev_of h2 a = prev_of h a"
    if "a \<in> set (x # y # ys)" for a
    using that sps u by (auto simp: vals_of_def nxt_of_def prev_of_def h2(3) c1)
  have "successively (chunk_linked h2) (y # ys)"
  proof (rule linked_cong [OF s])
    fix a assume "a \<in> set (butlast (y # ys))"
    then have "a \<in> set (y # ys)" by (rule in_set_butlastD)
    then show "nxt_of h2 a = nxt_of h a" by (intro f) auto
  next
    fix a assume "a \<in> set (tl (y # ys))"
    then show "prev_of h2 a = prev_of h a" using d by (intro f) auto
  qed
  moreover have "chunk_ok N h2 a" if "a \<in> dom (cells h2)" for a
    using that k f(1) [of a] dom unfolding dom2 by (simp add: chunk_ok_def) blast
  ultimately have "chain N h2 (At x) (y # ys)"
    using h2(2) d dom2 unfolding chain_def by auto
  then show ?thesis using h2(1) f(1) by auto
qed

lemma chain_drop_last:
  assumes c: "chain N h sp (ys @ [y, z])" and u: "cells h y = Some u"
  shows "\<exists>h1. heap_free z h = Inr h1 \<and> cells h1 y = Some u \<and> nxt u = At z
    \<and> chain N (h1\<lparr>cells := (cells h1)(y \<mapsto> u\<lparr>nxt := Null\<rparr>)\<rparr>) sp (ys @ [y])
    \<and> (\<forall>a \<in> set (ys @ [y]). vals_of (h1\<lparr>cells := (cells h1)(y \<mapsto> u\<lparr>nxt := Null\<rparr>)\<rparr>) a = vals_of h a)"
proof -
  have d: "distinct (ys @ [y, z])" and w: "heap_wf h" and sp: "sp \<noteq> Indeterminate"
    "spare_set sp \<inter> set (ys @ [y, z]) = {}"
    and dom: "dom (cells h) = set (ys @ [y, z]) \<union> spare_set sp"
    and s: "successively (chunk_linked h) ((ys @ [y]) @ [z])" and k: "\<forall>a \<in> dom (cells h). chunk_ok N h a"
    using c by (auto simp: chain_def)
  obtain h1 where h1: "heap_free z h = Inr h1" "heap_wf h1" "cells h1 = (cells h)(z := None)"
    using heap_free_ok [OF w] dom by (metis UnCI domD in_set_conv_decomp append.assoc append_Cons append_Nil)
  have y1: "cells h1 y = Some u" using u d by (simp add: h1)
  define h2 where "h2 = h1\<lparr>cells := (cells h1)(y \<mapsto> u\<lparr>nxt := Null\<rparr>)\<rparr>"
  have c2: "cells h2 = (cells h)(z := None, y \<mapsto> u\<lparr>nxt := Null\<rparr>)" by (simp add: h2_def h1)
  have s1: "successively (chunk_linked h) (ys @ [y])" "chunk_linked h y z"
    using s by (auto simp: successively_append_iff)
  have f: "vals_of h2 a = vals_of h a" "prev_of h2 a = prev_of h a" "a \<noteq> y \<Longrightarrow> nxt_of h2 a = nxt_of h a"
    if "a \<noteq> z" for a
    using that u by (auto simp: vals_of_def nxt_of_def prev_of_def c2)
  have "successively (chunk_linked h2) (ys @ [y])"
  proof (rule linked_cong [OF s1(1)])
    fix a assume "a \<in> set (butlast (ys @ [y]))"
    then show "nxt_of h2 a = nxt_of h a" using d by (intro f) auto
  next
    fix a assume "a \<in> set (tl (ys @ [y]))"
    then have "a \<in> set (ys @ [y])" by (cases ys) auto
    then show "prev_of h2 a = prev_of h a" using d by (intro f) auto
  qed
  moreover have "dom (cells h2) = dom (cells h) - {z}" using d u by (auto simp: c2)
  moreover have "heap_wf h2" using heap_put_wf [OF h1(2) y1] by (simp add: h2_def)
  moreover have "chunk_ok N h2 a" if "a \<in> dom (cells h2)" for a
    using that k f(1) [of a] d domI [of "cells h" y u] u by (cases "a = z") (auto simp: c2 chunk_ok_def)
  ultimately have "chain N h2 sp (ys @ [y])"
    using d sp dom unfolding chain_def by auto
  moreover have "nxt u = At z" using s1(2) u by (simp add: chunk_linked_def nxt_of_def)
  moreover have "\<forall>a \<in> set (ys @ [y]). vals_of h2 a = vals_of h a" using f(1) d by fastforce
  ultimately show ?thesis using h1(1) y1 unfolding h2_def by blast
qed

subsection \<open>Push, pop and unpush\<close>

lemma chain_elems_fst:
  "\<forall>a \<in> set zs. chunk_ok N h a \<Longrightarrow> j < N * length zs
    \<Longrightarrow> fst (concat (map (chunk_elems h) zs) ! j) = (zs ! (j div N), j mod N)"
proof (induction zs arbitrary: j)
  case (Cons a zs)
  then have l: "length (chunk_elems h a) = N" "chunk_ok N h a" by (simp_all add: length_chunk_elems)
  show ?case
  proof (cases "j < N")
    case True
    then show ?thesis using l chunk_elems_nth [OF l(2) True] by (simp add: nth_append)
  next
    case False
    then have "fst (concat (map (chunk_elems h) zs) ! (j - N)) = (zs ! ((j - N) div N), (j - N) mod N)"
      using Cons by simp
    moreover have "0 < N" using Cons.prems(2) by (cases N) auto
    moreover have "j div N = Suc ((j - N) div N)" "(j - N) mod N = j mod N"
      using False le_div_geq [OF \<open>0 < N\<close>, of j] by (auto simp: le_mod_geq)
    ultimately show ?thesis using False l by (simp add: nth_append)
  qed
qed simp

lemma chain_elems_cong:
  "(\<And>a. a \<in> set zs \<Longrightarrow> vals_of h' a = vals_of h a)
    \<Longrightarrow> concat (map (chunk_elems h') zs) = concat (map (chunk_elems h) zs)"
  by (induction zs) (auto intro!: chunk_elems_cong)

text \<open>The element in front of position \<open>end\<close> and the address of \<open>back\<close>.\<close>

lemma yq_last_addr:
  assumes "yq_rep N q xs z es" and "es \<noteq> []"
  shows "fst (last es) = ((xs @ [z]) ! ((N * length xs + end_pos q - 1) div N), (N * length xs + end_pos q - 1) mod N)"
proof -
  have c: "\<forall>a \<in> set (xs @ [z]). chunk_ok N (chunks q) a" "end_pos q < N"
    using assms by (auto simp: yq_rep_def intro: chain_ok)
  have "last es = concat (map (chunk_elems (chunks q)) (xs @ [z])) ! (N * length xs + end_pos q - 1)"
  proof -
    have "begin_pos q + (length es - 1) = N * length xs + end_pos q - 1"
      using yq_length [OF assms(1)] assms(2) by (cases es) auto
    then show ?thesis
      using yq_elems_nth [OF assms(1), of "length es - 1"] assms(2) by (simp add: last_conv_nth)
  qed
  then show ?thesis
    using chain_elems_fst [OF c(1), of "N * length xs + end_pos q - 1"] c(2) by simp
qed

lemma yq_push_rep:
  assumes rep: "yq_rep N q xs z es"
  shows "\<exists>q' xs' z' p v. yq_push N q = Inr q' \<and> yq_rep N q' xs' z' (es @ [(p, v)])"
proof -
  let ?L = "concat (map (chunk_elems (chunks q)) (xs @ [z]))"
  let ?k = "N * length xs + end_pos q"
  have c: "chain N (chunks q) (spare_chunk q) (xs @ [z])" and e: "end_chunk q = At z"
    "begin_chunk q = At (hd (xs @ [z]))" and n: "begin_pos q < N" "end_pos q < N"
    and es: "es = drop (begin_pos q) (take ?k ?L)"
    using rep by (auto simp: yq_rep_def yq_elems_def)
  have k: "\<forall>a \<in> set (xs @ [z]). chunk_ok N (chunks q) a" using chain_ok [OF c] by blast
  have len: "length ?L = N * length xs + N" using length_chain_elems [OF k] by simp
  have le: "begin_pos q \<le> ?k" using yq_length [OF rep] by linarith
  have new: "drop (begin_pos q) (take (Suc ?k) ?L) = es @ [?L ! ?k]"
    using n le len unfolding es by (simp add: take_Suc_conv_app_nth del: map_append concat_append)
  have fst: "fst (?L ! ?k) = (z, end_pos q)"
    using chain_elems_fst [OF k, of ?k] n by (simp add: nth_append)
  obtain v where v: "?L ! ?k = ((z, end_pos q), v)" using fst by (metis prod.collapse)
  define q1 where "q1 = q\<lparr>back_chunk := end_chunk q, back_pos := end_pos q, end_pos := Suc (end_pos q)\<rparr>"
  show ?thesis
  proof (cases "Suc (end_pos q) = N")
    case False
    have "yq_rep N q1 xs z (es @ [((z, end_pos q), v)])"
      using False c e n new v le by (auto simp: yq_rep_def yq_elems_def q1_def)
    moreover have "yq_push N q = Inr q1" using False by (simp add: yq_push_def q1_def)
    ultimately show ?thesis by blast
  next
    case True
    obtain b h where h: "chain N h (At b) (xs @ [z])" "\<forall>a \<in> set (xs @ [z]). vals_of h a = vals_of (chunks q) a"
      "if spare_chunk q = Null then heap_alloc (chunk_raw N) (chunks q) = (b, h)
       else spare_chunk q = At b \<and> h = chunks q"
    proof (cases "spare_chunk q")
      case Null
      obtain b h where "heap_alloc (chunk_raw N) (chunks q) = (b, h)" by fastforce
      then show ?thesis using that chain_alloc [of N "chunks q"] c Null by metis
    next
      case Indeterminate
      then show ?thesis using c by (simp add: chain_def)
    qed (use that c in auto)
    have bz: "b \<noteq> z" using h(1) by (auto simp: chain_def)
    have "z \<in> dom (cells h)" "b \<in> dom (cells h)" using h(1) by (simp_all add: chain_def)
    then obtain u w where u: "cells h z = Some u" "cells h b = Some w" by blast
    define h' where "h' = h\<lparr>cells := (cells h)(z \<mapsto> u\<lparr>nxt := At b\<rparr>, b \<mapsto> w\<lparr>prev := At z\<rparr>)\<rparr>"
    note link = chain_link [OF h(1) u h'_def]
    define q2 where "q2 = q1\<lparr>spare_chunk := Null, chunks := h', end_chunk := At b, end_pos := 0\<rparr>"
    have "yq_push N q = Inr q2"
      using True h(3) u bz e
      by (auto simp: yq_push_def q2_def q1_def atomic_xchg_def Let_def yq_upd_def h'_def
          split: if_splits)
    moreover have "yq_rep N q2 (xs @ [z]) b (es @ [((z, end_pos q), v)])"
    proof -
      have L: "concat (map (chunk_elems h') (xs @ [z])) = ?L"
        using link(2) h(2) by (intro chain_elems_cong) auto
      have "concat (map (chunk_elems h') ((xs @ [z]) @ [b])) = ?L @ chunk_elems h' b"
        using arg_cong [OF L, of "\<lambda>l. l @ chunk_elems h' b"] by simp
      moreover have "N * length (xs @ [z]) + 0 = length ?L" "Suc ?k = length ?L"
        using len True by simp_all
      ultimately have "yq_elems N q2 (xs @ [z]) b = drop (begin_pos q) (take (Suc ?k) ?L)"
        by (simp add: yq_elems_def q2_def q1_def del: map_append concat_append)
      then show ?thesis
        using link(1) e n new v by (auto simp: yq_rep_def q2_def q1_def hd_append)
    qed
    ultimately show ?thesis by blast
  qed
qed

lemma yq_pop_rep:
  assumes rep: "yq_rep N q xs z (e # es)"
  shows "\<exists>q' xs'. yq_pop N q = Inr q' \<and> yq_rep N q' xs' z es"
proof -
  let ?L = "concat (map (chunk_elems (chunks q)) (xs @ [z]))"
  let ?k = "N * length xs + end_pos q"
  have c: "chain N (chunks q) (spare_chunk q) (xs @ [z])" and e: "end_chunk q = At z"
    "begin_chunk q = At (hd (xs @ [z]))" and n: "begin_pos q < N" "end_pos q < N"
    and es: "e # es = drop (begin_pos q) (take ?k ?L)"
    using rep by (auto simp: yq_rep_def yq_elems_def)
  have bk: "\<exists>b. back_chunk q = At b \<and> fst (last (e # es)) = (b, back_pos q)"
    using rep unfolding yq_rep_def by blast
  have len: "begin_pos q + Suc (length es) = ?k" using yq_length [OF rep] by simp
  have tl: "es = drop (Suc (begin_pos q)) (take ?k ?L)"
    using es by (metis drop_Suc tl_drop list.sel(3))
  show ?thesis
  proof (cases "Suc (begin_pos q) = N")
    case False
    have "yq_rep N (q\<lparr>begin_pos := Suc (begin_pos q)\<rparr>) xs z es"
      using False c e n len bk tl by (auto simp: yq_rep_def yq_elems_def split: if_splits)
    moreover have "yq_pop N q = Inr (q\<lparr>begin_pos := Suc (begin_pos q)\<rparr>)"
      using False by (simp add: yq_pop_def)
    ultimately show ?thesis by blast
  next
    case True
    then obtain x xs' where x: "xs = x # xs'" using len n(2) by (cases xs) auto
    obtain y ys where y: "xs' @ [z] = y # ys" by (cases "xs' @ [z]") auto
    have c': "chain N (chunks q) (spare_chunk q) (x # y # ys)" using c x y by simp
    obtain u w where u: "cells (chunks q) y = Some u" "cells (chunks q) x = Some w"
      using chain_cell [OF c', of y] chain_cell [OF c', of x] by auto
    have nx: "nxt w = At y" using c' u by (auto simp: chain_def chunk_linked_def nxt_of_def)
    define h1 where "h1 = (chunks q)\<lparr>cells := (cells (chunks q))(y \<mapsto> u\<lparr>prev := Null\<rparr>)\<rparr>"
    obtain h2 where h2: "ptr_free (spare_chunk q) h1 = Inr h2" "chain N h2 (At x) (y # ys)"
      "\<forall>a \<in> set (y # ys). vals_of h2 a = vals_of (chunks q) a"
      using chain_pop [OF c' u(1) h1_def] by blast
    define q2 where "q2 = q\<lparr>begin_chunk := At y, begin_pos := 0, spare_chunk := At x, chunks := h2\<rparr>"
    have "yq_pop N q = Inr q2"
      using True u nx e h2(1) x
      by (simp add: yq_pop_def Let_def yq_upd_def h1_def atomic_xchg_def q2_def)
    moreover have "yq_rep N q2 xs' z es"
    proof -
      have L: "concat (map (chunk_elems h2) (xs' @ [z])) = concat (map (chunk_elems (chunks q)) (xs' @ [z]))"
        using h2(3) y by (intro chain_elems_cong) auto
      have lx: "length (chunk_elems (chunks q) x) = N"
        using chain_ok [OF c', of x] by (simp add: length_chunk_elems)
      have "yq_elems N q2 xs' z = take (N * length xs' + end_pos q) (concat (map (chunk_elems (chunks q)) (xs' @ [z])))"
        using L by (simp add: yq_elems_def q2_def del: map_append concat_append)
      also have "\<dots> = es" using tl True lx x by (simp add: drop_take)
      finally show ?thesis
        using h2(2) y n e bk len x True by (auto simp: yq_rep_def q2_def split: if_splits)
    qed
    ultimately show ?thesis by blast
  qed
qed

text \<open>Where the element before the last one lies.\<close>

lemma chain_prev:
  assumes "chain N h sp zs" and "Suc i < length zs" and "cells h (zs ! Suc i) = Some u"
  shows "prev u = At (zs ! i)"
proof -
  have "zs = take i zs @ zs ! i # zs ! Suc i # drop (Suc (Suc i)) zs"
    using assms(2) by (metis Cons_nth_drop_Suc Suc_lessD append_take_drop_id)
  moreover have "successively (chunk_linked h) zs" using assms(1) by (simp add: chain_def)
  ultimately have "chunk_linked h (zs ! i) (zs ! Suc i)"
    by (metis successively.simps(3) successively_append_iff)
  then show ?thesis using assms(3) by (simp add: chunk_linked_def prev_of_def)
qed

definition back_step :: "nat \<Rightarrow> 'a yqueue \<Rightarrow> 'a yqueue res" where
  "back_step N q = (if back_pos q \<noteq> 0 then Inr (q\<lparr>back_pos := back_pos q - 1\<rparr>)
     else bindR (ptr_get (back_chunk q) (chunks q)) (\<lambda>ch.
       Inr (q\<lparr>back_pos := N - 1, back_chunk := prev ch\<rparr>)))"

lemma back_step_rep:
  assumes rep: "yq_rep N q xs z (es @ [e])"
  shows "\<exists>bc bp. back_step N q = Inr (q\<lparr>back_pos := bp, back_chunk := bc\<rparr>)
    \<and> (es \<noteq> [] \<longrightarrow> (\<exists>b. bc = At b \<and> fst (last es) = (b, bp)))"
proof -
  let ?zs = "xs @ [z]"
  let ?k = "N * length xs + end_pos q"
  have c: "chain N (chunks q) (spare_chunk q) ?zs" and n: "begin_pos q < N" "end_pos q < N"
    using rep by (auto simp: yq_rep_def)
  have k: "\<forall>a \<in> set ?zs. chunk_ok N (chunks q) a" using chain_ok [OF c] by blast
  have len: "begin_pos q + Suc (length es) = ?k" using yq_length [OF rep] by simp
  have bk: "back_chunk q = At (?zs ! ((?k - 1) div N))" "back_pos q = (?k - 1) mod N"
  proof -
    obtain b where "back_chunk q = At b" "fst e = (b, back_pos q)"
      using rep by (auto simp: yq_rep_def)
    moreover have "fst e = (?zs ! ((?k - 1) div N), (?k - 1) mod N)" using yq_last_addr [OF rep] by simp
    ultimately show "back_chunk q = At (?zs ! ((?k - 1) div N))" "back_pos q = (?k - 1) mod N" by simp_all
  qed
  have "?k - 1 < N * length ?zs" using n by simp
  then have j: "(?k - 1) div N < length ?zs" by (metis less_mult_imp_div_less mult.commute)
  have old: "fst (last es) = (?zs ! ((?k - 2) div N), (?k - 2) mod N)" if "es \<noteq> []"
  proof -
    have "(es @ [e]) ! (length es - 1) = concat (map (chunk_elems (chunks q)) ?zs) ! (begin_pos q + (length es - 1))"
      using that by (intro yq_elems_nth [OF rep]) simp
    moreover have "(es @ [e]) ! (length es - 1) = last es"
      using that by (simp add: nth_append last_conv_nth)
    moreover have "begin_pos q + (length es - 1) = ?k - 2" using len that by (cases es) auto
    ultimately have "last es = concat (map (chunk_elems (chunks q)) ?zs) ! (?k - 2)" by simp
    then show ?thesis using chain_elems_fst [OF k, of "?k - 2"] n by simp
  qed
  show ?thesis
  proof (cases "back_pos q = 0")
    case False
    have "?k - 1 \<noteq> 0" using False bk(2) by (metis mod_0)
    then have t: "?k - 1 = Suc (?k - 2)" by linarith
    have "(?k - 1) mod N = Suc ((?k - 2) mod N)" "(?k - 2) div N = (?k - 1) div N"
      using False bk(2) mod_Suc [of "?k - 2" N] div_Suc [of "?k - 2" N] unfolding t
      by (auto split: if_splits)
    then have "back_step N q = Inr (q\<lparr>back_pos := back_pos q - 1, back_chunk := back_chunk q\<rparr>)"
      "es \<noteq> [] \<longrightarrow> (\<exists>b. back_chunk q = At b \<and> fst (last es) = (b, back_pos q - 1))"
      using False bk old by (auto simp: back_step_def)
    then show ?thesis by blast
  next
    case True
    define m where "m = (?k - 1) div N"
    have km: "?k - 1 = N * m" using True bk(2) mult_div_mod_eq [of N "?k - 1"] by (simp add: m_def)
    obtain u where u: "cells (chunks q) (?zs ! m) = Some u"
      using chain_cell [OF c, of "?zs ! m"] j nth_mem [OF j] by (auto simp: m_def)
    have step: "back_step N q = Inr (q\<lparr>back_pos := N - 1, back_chunk := prev u\<rparr>)"
      using True bk(1) u by (simp add: back_step_def m_def)
    have "\<exists>b. prev u = At b \<and> fst (last es) = (b, N - 1)" if ne: "es \<noteq> []"
    proof -
      have "?k - 1 > 0" using len ne by (cases es) auto
      then obtain i where i: "m = Suc i" using km by (cases m) auto
      have "?k - 2 = N * i + (N - 1)" using km i n by simp
      moreover have "(N * i + (N - 1)) div N = i" "(N * i + (N - 1)) mod N = N - 1"
        using n(1) by (simp_all only: div_mult_self4 mod_mult_self4) (simp_all)
      ultimately have "(?k - 2) div N = i" "(?k - 2) mod N = N - 1" by simp_all
      moreover have "prev u = At (?zs ! i)" using chain_prev [OF c, of i u] u i j by (simp add: m_def)
      ultimately show ?thesis using old [OF ne] by simp
    qed
    then show ?thesis using step by blast
  qed
qed

lemma yq_unpush_rep:
  assumes rep: "yq_rep N q xs z (es @ [e])"
  shows "\<exists>q' xs' z'. yq_unpush N q = Inr q' \<and> yq_rep N q' xs' z' es"
proof -
  let ?L = "concat (map (chunk_elems (chunks q)) (xs @ [z]))"
  let ?k = "N * length xs + end_pos q"
  have c: "chain N (chunks q) (spare_chunk q) (xs @ [z])" and e: "end_chunk q = At z"
    "begin_chunk q = At (hd (xs @ [z]))" and n: "begin_pos q < N" "end_pos q < N"
    and es: "es @ [e] = drop (begin_pos q) (take ?k ?L)"
    using rep by (auto simp: yq_rep_def yq_elems_def)
  have k: "\<forall>a \<in> set (xs @ [z]). chunk_ok N (chunks q) a" using chain_ok [OF c] by blast
  have len: "begin_pos q + Suc (length es) = ?k" using yq_length [OF rep] by simp
  have lL: "length ?L = N * length xs + N" using length_chain_elems [OF k] by simp
  have old: "es = drop (begin_pos q) (take (?k - 1) ?L)"
  proof -
    have "es = take (length es) (es @ [e])" by simp
    also have "\<dots> = take (?k - 1 - begin_pos q) (drop (begin_pos q) (take ?k ?L))"
      using len unfolding es by (metis add_diff_cancel_left' diff_Suc_1 add_Suc_right)
    also have "\<dots> = drop (begin_pos q) (take (?k - 1) (take ?k ?L))"
      using len by (simp only: take_drop) simp
    also have "take (?k - 1) (take ?k ?L) = take (?k - 1) ?L" by (simp only: take_take) simp
    finally show ?thesis .
  qed
  obtain bc bp where st: "back_step N q = Inr (q\<lparr>back_pos := bp, back_chunk := bc\<rparr>)"
    and bk: "es \<noteq> [] \<longrightarrow> (\<exists>b. bc = At b \<and> fst (last es) = (b, bp))"
    using back_step_rep [OF rep] by blast
  define q1 where "q1 = q\<lparr>back_pos := bp, back_chunk := bc\<rparr>"
  show ?thesis
  proof (cases "end_pos q = 0")
    case False
    have "yq_unpush N q = Inr (q1\<lparr>end_pos := end_pos q - 1\<rparr>)"
      using False st [unfolded back_step_def] by (simp add: yq_unpush_def q1_def)
    moreover have "yq_elems N (q1\<lparr>end_pos := end_pos q - 1\<rparr>) xs z = drop (begin_pos q) (take (?k - 1) ?L)"
      using False by (simp add: yq_elems_def q1_def del: map_append concat_append)
    moreover have "xs = [] \<longrightarrow> begin_pos q \<le> end_pos q - 1" using len by auto
    ultimately show ?thesis
      using c e n bk unfolding old [symmetric] by (auto simp: yq_rep_def q1_def)
  next
    case True
    then obtain ys y where y: "xs = ys @ [y]" using len by (cases xs rule: rev_cases) auto
    have c': "chain N (chunks q) (spare_chunk q) (ys @ [y, z])" using c y by simp
    obtain u w where u: "cells (chunks q) y = Some u" "cells (chunks q) z = Some w"
      using chain_cell [OF c', of y] chain_cell [OF c', of z] by auto
    have pv: "prev w = At y"
      using chain_prev [OF c', of "length ys" w] u by (simp add: nth_append)
    obtain h1 where h1: "heap_free z (chunks q) = Inr h1" "cells h1 y = Some u" "nxt u = At z"
      and c1: "chain N (h1\<lparr>cells := (cells h1)(y \<mapsto> u\<lparr>nxt := Null\<rparr>)\<rparr>) (spare_chunk q) (ys @ [y])"
      and v1: "\<forall>a \<in> set (ys @ [y]). vals_of (h1\<lparr>cells := (cells h1)(y \<mapsto> u\<lparr>nxt := Null\<rparr>)\<rparr>) a
        = vals_of (chunks q) a"
      using chain_drop_last [OF c' u(1)] by blast
    define h2 where "h2 = h1\<lparr>cells := (cells h1)(y \<mapsto> u\<lparr>nxt := Null\<rparr>)\<rparr>"
    define q2 where "q2 = q1\<lparr>end_pos := N - 1, end_chunk := At y, chunks := h2\<rparr>"
    have "yq_unpush N q = Inr q2"
      using True st [unfolded back_step_def] e u pv h1
      by (simp add: yq_unpush_def q1_def q2_def yq_upd_def h2_def Let_def)
    moreover have "yq_rep N q2 ys y es"
    proof -
      have L: "concat (map (chunk_elems h2) (ys @ [y])) = concat (map (chunk_elems (chunks q)) (ys @ [y]))"
        using v1 by (intro chain_elems_cong) (auto simp: h2_def)
      have ll: "length (concat (map (chunk_elems (chunks q)) (ys @ [y]))) = N * length xs"
        using length_chain_elems [of xs N "chunks q"] k y by simp
      have "?k - 1 = N * length ys + (N - 1)" using True y n by simp
      then have "yq_elems N q2 ys y = drop (begin_pos q) (take (?k - 1) (concat (map (chunk_elems (chunks q)) (ys @ [y]))))"
        using L by (simp add: yq_elems_def q2_def q1_def del: map_append concat_append)
      also have "take (?k - 1) (concat (map (chunk_elems (chunks q)) (ys @ [y]))) = take (?k - 1) ?L"
        using ll True y by (simp del: map_append concat_append) (simp add: y)
      finally have "yq_elems N q2 ys y = es" using old by simp
      moreover have "begin_pos q \<le> N - 1" using n(1) by linarith
      ultimately show ?thesis
        using c1 e n bk y by (simp add: yq_rep_def q2_def q1_def h2_def hd_append)
    qed
    ultimately show ?thesis by blast
  qed
qed

section \<open>The destructor frees everything\<close>

lemma yq_destroy_loop_rep:
  "heap_wf h \<Longrightarrow> distinct (xs @ [z]) \<Longrightarrow> set (xs @ [z]) \<subseteq> dom (cells h)
    \<Longrightarrow> successively (chunk_linked h) (xs @ [z])
    \<Longrightarrow> \<exists>h'. yq_destroy_loop (At (hd (xs @ [z]))) (At z) h = Some (Inr h') \<and> heap_wf h'
      \<and> cells h' = (cells h) |` (- set (xs @ [z]))"
proof (induction xs arbitrary: h)
  case Nil
  then obtain v where "cells h z = Some v" by auto
  then show ?case
    using heap_free_ok [OF Nil(1), of z v]
    by (subst yq_destroy_loop.simps) (auto simp: restrict_map_def fun_eq_iff)
next
  case (Cons x xs)
  then obtain v where v: "cells h x = Some v" by auto
  let ?y = "hd (xs @ [z])"
  have ne: "x \<noteq> z" using Cons.prems(2) by auto
  have nx: "nxt v = At ?y"
    using Cons.prems(4) v by (auto simp: successively_Cons chunk_linked_def nxt_of_def)
  obtain h1 where h1: "heap_free x h = Inr h1" "heap_wf h1" "cells h1 = (cells h)(x := None)"
    using heap_free_ok [OF Cons.prems(1) v] by blast
  have s: "successively (chunk_linked h) (xs @ [z])" using Cons.prems(4) by (auto simp: successively_Cons)
  have eq: "cells h1 a = cells h a" if "a \<in> set (xs @ [z])" for a
    using that Cons.prems(2) by (auto simp: h1)
  have "successively (chunk_linked h1) (xs @ [z])"
  proof (rule linked_cong [OF s])
    show "nxt_of h1 a = nxt_of h a" if "a \<in> set (butlast (xs @ [z]))" for a
      using eq [OF in_set_butlastD [OF that]] by (simp add: nxt_of_def)
    show "prev_of h1 a = prev_of h a" if "a \<in> set (tl (xs @ [z]))" for a
      using eq [OF set_tl [OF that]] by (simp add: prev_of_def)
  qed
  moreover have "set (xs @ [z]) \<subseteq> dom (cells h1)" using Cons.prems(2,3) by (auto simp: h1)
  ultimately obtain h2 where h2: "yq_destroy_loop (At ?y) (At z) h1 = Some (Inr h2)" "heap_wf h2"
    "cells h2 = (cells h1) |` (- set (xs @ [z]))"
    using Cons.IH [OF h1(2)] Cons.prems(2) by auto
  have "yq_destroy_loop (At x) (At z) h = Some (Inr h2)"
    using ne v nx h1(1) h2(1) by (subst yq_destroy_loop.simps) simp
  moreover have "cells h2 = (cells h) |` (- set ((x # xs) @ [z]))"
    by (auto simp: h1 h2(3) restrict_map_def fun_eq_iff)
  ultimately show ?case using h2(2) by simp
qed

lemma yq_destroy_rep:
  assumes rep: "yq_rep N q xs z es"
  shows "\<exists>h. yq_destroy q = Inr h \<and> dom (cells h) = {}"
proof -
  have c: "heap_wf (chunks q)" "distinct (xs @ [z])" "successively (chunk_linked (chunks q)) (xs @ [z])"
    and d: "dom (cells (chunks q)) = set (xs @ [z]) \<union> spare_set (spare_chunk q)"
    "spare_chunk q \<noteq> Indeterminate" "spare_set (spare_chunk q) \<inter> set (xs @ [z]) = {}"
    and e: "begin_chunk q = At (hd (xs @ [z]))" "end_chunk q = At z"
    using rep by (auto simp: yq_rep_def chain_def)
  obtain h where h: "yq_destroy_loop (begin_chunk q) (end_chunk q) (chunks q) = Some (Inr h)" "heap_wf h"
    "cells h = (cells (chunks q)) |` (- set (xs @ [z]))"
    using yq_destroy_loop_rep [OF c(1,2) _ c(3)] d(1) e by auto
  have dh: "dom (cells h) = spare_set (spare_chunk q)"
    using d(1,3) h(3) by auto
  show ?thesis
  proof (cases "spare_chunk q")
    case (At s)
    then obtain v where "cells h s = Some v" using dh by auto
    then obtain h' where "heap_free s h = Inr h'" "cells h' = (cells h)(s := None)"
      using heap_free_ok [OF h(2)] by blast
    moreover have "(cells h)(s := None) = Map.empty"
      by (rule ext) (metis dh At spare_set_simps(2) fun_upd_apply domIff singletonD)
    ultimately show ?thesis
      using At h(1) by (simp add: yq_destroy_def atomic_xchg_def)
  qed (use d(2) h(1) dh in \<open>auto simp: yq_destroy_def atomic_xchg_def\<close>)
qed

section \<open>The interface\<close>

text \<open>
  What a user of the queue relies on: the elements, with their addresses and values, form a list
  that grows and shrinks at its back and is consumed at its front; addresses stay put.
\<close>

locale elem_queue =
  fixes push :: "'s \<Rightarrow> 's res" and unpush :: "'s \<Rightarrow> 's res" and pop :: "'s \<Rightarrow> 's res"
    and at_front :: "'s \<Rightarrow> 'p res" and at_back :: "'s \<Rightarrow> 'p res"
    and load :: "'p \<Rightarrow> 's \<Rightarrow> 'a res" and store :: "'p \<Rightarrow> 'a \<Rightarrow> 's \<Rightarrow> 's res"
    and rep :: "'s \<Rightarrow> ('p \<times> 'a option) list \<Rightarrow> bool"
  assumes push_rep: "rep s es \<Longrightarrow> \<exists>s' p v. push s = Inr s' \<and> rep s' (es @ [(p, v)])"
    and unpush_rep: "rep s (es @ [e]) \<Longrightarrow> \<exists>s'. unpush s = Inr s' \<and> rep s' es"
    and pop_rep: "rep s (e # es) \<Longrightarrow> \<exists>s'. pop s = Inr s' \<and> rep s' es"
    and front_rep: "rep s (e # es) \<Longrightarrow> at_front s = Inr (fst e)"
    and back_rep: "rep s (es @ [e]) \<Longrightarrow> at_back s = Inr (fst e)"
    and load_rep: "rep s es \<Longrightarrow> (p, Some v) \<in> set es \<Longrightarrow> load p s = Inr v"
    and store_rep: "rep s (es @ [(p, w)]) \<Longrightarrow> \<exists>s'. store p v s = Inr s' \<and> rep s' (es @ [(p, Some v)])"
    and rep_distinct: "rep s es \<Longrightarrow> distinct (map fst es)"
begin

lemma enq_rep:
  assumes "rep s es"
  shows "\<exists>s' p. bindR (push s) (\<lambda>s. bindR (at_back s) (\<lambda>b. store b v s)) = Inr s' \<and> rep s' (es @ [(p, Some v)])"
proof -
  obtain s1 p w where 1: "push s = Inr s1" "rep s1 (es @ [(p, w)])" using push_rep [OF assms] by blast
  moreover have "at_back s1 = Inr p" using back_rep [OF 1(2)] by simp
  ultimately show ?thesis using store_rep [OF 1(2), of v] by auto
qed

lemma deq_rep:
  assumes "rep s ((p, Some v) # es)"
  shows "\<exists>s'. bindR (at_front s) (\<lambda>f. bindR (load f s) (\<lambda>v. bindR (pop s) (\<lambda>s. Inr (v, s)))) = Inr (v, s') \<and> rep s' es"
  using front_rep [OF assms] load_rep [OF assms, of p v] pop_rep [OF assms] by auto

lemma undo_rep:
  assumes "rep s (es @ [(p, Some v)])"
  shows "\<exists>s'. bindR (at_back s) (\<lambda>b. bindR (load b s) (\<lambda>v. bindR (unpush s) (\<lambda>s. Inr (v, s)))) = Inr (v, s') \<and> rep s' es"
  using back_rep [OF assms] load_rep [OF assms, of p v] unpush_rep [OF assms] by auto

end

definition yq_holds :: "nat \<Rightarrow> 'a yqueue \<Rightarrow> (elem \<times> 'a option) list \<Rightarrow> bool" where
  "yq_holds N q es \<longleftrightarrow> (\<exists>xs z. yq_rep N q xs z es)"

interpretation yq: elem_queue "yq_push N" "yq_unpush N" "yq_pop N" yq_front yq_back yq_load yq_store
  "yq_holds N"
proof unfold_locales
  fix s :: "'a yqueue" and es
  assume "yq_holds N s es"
  then show "\<exists>s' p v. yq_push N s = Inr s' \<and> yq_holds N s' (es @ [(p, v)])"
    unfolding yq_holds_def using yq_push_rep by blast
next
  fix s :: "'a yqueue" and es e
  assume "yq_holds N s (es @ [e])"
  then show "\<exists>s'. yq_unpush N s = Inr s' \<and> yq_holds N s' es"
    unfolding yq_holds_def using yq_unpush_rep by blast
next
  fix s :: "'a yqueue" and es e
  assume "yq_holds N s (e # es)"
  then show "\<exists>s'. yq_pop N s = Inr s' \<and> yq_holds N s' es"
    unfolding yq_holds_def using yq_pop_rep by blast
next
  fix s :: "'a yqueue" and es :: "(elem \<times> 'a option) list" and p w and v :: 'a
  assume "yq_holds N s (es @ [(p, w)])"
  then obtain xs z where "yq_rep N s xs z (es @ [(p, w)])" by (auto simp: yq_holds_def)
  from yq_store_rep [OF this, of v] show "\<exists>s'. yq_store p v s = Inr s' \<and> yq_holds N s' (es @ [(p, Some v)])"
    by (auto simp: yq_holds_def)
qed (auto simp: yq_holds_def dest: yq_front_rep yq_back_rep yq_load_rep yq_distinct)

lemma yq_holds_new: "0 < N \<Longrightarrow> yq_holds N (yq_new N) []"
  using yq_new_rep by (auto simp: yq_holds_def)

section \<open>Histories\<close>

text \<open>
  \<open>Enq v\<close> is \<open>Push (); Back () = v\<close>, \<open>Deq\<close> reads \<open>Front ()\<close> and pops it, \<open>Undo\<close> reads \<open>Back ()\<close> and
  takes the last push back.
\<close>

datatype 'a yq_op = Enq 'a | Deq | Undo

fun yq_run :: "nat \<Rightarrow> 'a yq_op list \<Rightarrow> 'a yqueue \<Rightarrow> ('a list \<times> 'a yqueue) res" where
  "yq_run N [] q = Inr ([], q)"
| "yq_run N (Enq v # ops) q =
     bindR (bindR (yq_push N q) (\<lambda>q. bindR (yq_back q) (\<lambda>b. yq_store b v q))) (yq_run N ops)"
| "yq_run N (Deq # ops) q =
     bindR (bindR (yq_front q) (\<lambda>f. bindR (yq_load f q) (\<lambda>v. bindR (yq_pop N q) (\<lambda>q. Inr (v, q)))))
       (\<lambda>(v, q). bindR (yq_run N ops q) (\<lambda>(out, q). Inr (v # out, q)))"
| "yq_run N (Undo # ops) q =
     bindR (bindR (yq_back q) (\<lambda>b. bindR (yq_load b q) (\<lambda>v. bindR (yq_unpush N q) (\<lambda>q. Inr (v, q)))))
       (\<lambda>(v, q). bindR (yq_run N ops q) (\<lambda>(out, q). Inr (v # out, q)))"

text \<open>The same on a list; \<open>None\<close> when an empty queue is popped.\<close>

fun list_run :: "'a yq_op list \<Rightarrow> 'a list \<Rightarrow> ('a list \<times> 'a list) option" where
  "list_run [] xs = Some ([], xs)"
| "list_run (Enq v # ops) xs = list_run ops (xs @ [v])"
| "list_run (Deq # ops) xs = (if xs = [] then None
     else map_option (\<lambda>(out, r). (hd xs # out, r)) (list_run ops (tl xs)))"
| "list_run (Undo # ops) xs = (if xs = [] then None
     else map_option (\<lambda>(out, r). (last xs # out, r)) (list_run ops (butlast xs)))"

lemma yq_run_refines:
  "yq_holds N q es \<Longrightarrow> map snd es = map Some vs \<Longrightarrow> list_run ops vs = Some (out, rest)
    \<Longrightarrow> \<exists>q' es'. yq_run N ops q = Inr (out, q') \<and> yq_holds N q' es' \<and> map snd es' = map Some rest"
proof (induction ops vs arbitrary: q es out rest rule: list_run.induct)
  case (2 v ops vs)
  from yq.enq_rep [OF 2(2), of v] obtain q1 p where
    1: "bindR (yq_push N q) (\<lambda>q. bindR (yq_back q) (\<lambda>b. yq_store b v q)) = Inr q1"
      "yq_holds N q1 (es @ [(p, Some v)])" by blast
  from 2(1) [OF 1(2), of out rest] 2(3,4) show ?case unfolding yq_run.simps 1(1) by simp
next
  case (3 ops vs)
  then obtain v vs' where vs: "vs = v # vs'" by (cases vs) auto
  then obtain p es' where es: "es = (p, Some v) # es'" "map snd es' = map Some vs'"
    using 3(3) by (cases es) auto
  obtain out' where o: "out = v # out'" "list_run ops vs' = Some (out', rest)"
    using 3(4) vs by auto
  from yq.deq_rep [of N q p v es'] 3(2) es obtain q1 where
    1: "bindR (yq_front q) (\<lambda>f. bindR (yq_load f q) (\<lambda>v. bindR (yq_pop N q) (\<lambda>q. Inr (v, q)))) = Inr (v, q1)"
      "yq_holds N q1 es'" by blast
  from 3(1) [OF _ 1(2)] vs es(2) o show ?case unfolding yq_run.simps 1(1) by fastforce
next
  case (4 ops vs)
  then obtain v vs' where vs: "vs = vs' @ [v]" by (cases vs rule: rev_cases) auto
  then obtain p es' where es: "es = es' @ [(p, Some v)]" "map snd es' = map Some vs'"
    using 4(3) by (cases es rule: rev_cases) auto
  obtain out' where o: "out = v # out'" "list_run ops vs' = Some (out', rest)"
    using 4(4) vs by auto
  from yq.undo_rep [of N q es' p v] 4(2) es obtain q1 where
    1: "bindR (yq_back q) (\<lambda>b. bindR (yq_load b q) (\<lambda>v. bindR (yq_unpush N q) (\<lambda>q. Inr (v, q)))) = Inr (v, q1)"
      "yq_holds N q1 es'" by blast
  from 4(1) [OF _ 1(2)] vs es(2) o show ?case unfolding yq_run.simps 1(1) by fastforce
qed auto

section \<open>Properties\<close>

text \<open>
  C19. A YQueue is a double-ended list whatever its granularity: a history of pushes, pops and
  unpushes that never pops an empty queue ends without a memory fault (no stale chunk, no
  uninitialised element), returns the values the list returns, and the destructor then frees
  every chunk exactly once and leaks none.
\<close>
theorem yqueue_is_list:
  assumes "0 < N" and "list_run ops [] = Some (out, rest)"
  shows "\<exists>q h. yq_run N ops (yq_new N) = Inr (out, q) \<and> yq_destroy q = Inr h \<and> dom (cells h) = {}"
proof -
  obtain q es where "yq_run N ops (yq_new N) = Inr (out, q)" "yq_holds N q es"
    using yq_run_refines [OF yq_holds_new [OF assms(1)] _ assms(2)] by auto
  then show ?thesis unfolding yq_holds_def using yq_destroy_rep by blast
qed

theorem yqueue_is_list_witness:
  "\<exists>q h. yq_run 1 [Enq (5 :: nat), Enq 6, Undo, Enq 7, Deq, Deq] (yq_new 1) = Inr ([6, 5, 7], q)
    \<and> yq_destroy q = Inr h \<and> dom (cells h) = {}"
  by (rule yqueue_is_list [where rest = "[]"]) simp_all

end
