(* ===== verification/Ypipe.thy ===== *)
theory Ypipe
  imports Yqueue "HOL-Library.Sublist"
begin

text \<open>
  \<open>src/base/ypipe.h\<close>: the lock-free pipe between one writer and one reader thread. The queue
  always ends in a terminator element; \<open>w_\<close> and \<open>f_\<close> belong to the writer, \<open>r_\<close> to the reader,
  and the atomic \<open>c_\<close> is the only variable both touch. A \<open>Flush\<close> whose compare-and-swap fails
  writes \<open>c_\<close> in a second step, which the reader's steps may separate from the first: the
  histories below interleave the atomic steps of both threads in any order. The abstract pipe is
  the list of items with three counters, and a flag that says the reader found it empty.
\<close>

section \<open>YPipe\<close>

text \<open>\<open>None\<close> is the null pointer.\<close>

record 'a ypipe =
  queue :: "'a yqueue"
  pipe_w :: "elem option"
  pipe_r :: "elem option"
  pipe_f :: "elem option"
  pipe_c :: "elem option"

definition yp_new :: "nat \<Rightarrow> 'a ypipe res" where
  "yp_new N = bindR (yq_push N (yq_new N)) (\<lambda>q. bindR (yq_back q) (\<lambda>b.
     Inr \<lparr>queue = q, pipe_w = Some b, pipe_r = Some b, pipe_f = Some b, pipe_c = Some b\<rparr>))"

definition yp_write :: "nat \<Rightarrow> 'a \<Rightarrow> bool \<Rightarrow> 'a ypipe \<Rightarrow> 'a ypipe res" where
  "yp_write N v incomplete p =
     bindR (yq_back (queue p)) (\<lambda>b.
     bindR (yq_store b v (queue p)) (\<lambda>q.
     bindR (yq_push N q) (\<lambda>q.
     if \<not> incomplete
     then bindR (yq_back q) (\<lambda>b. Inr (p\<lparr>queue := q, pipe_f := Some b\<rparr>))
     else Inr (p\<lparr>queue := q\<rparr>))))"

definition yp_unwrite :: "nat \<Rightarrow> 'a ypipe \<Rightarrow> ('a option \<times> 'a ypipe) res" where
  "yp_unwrite N p =
     bindR (yq_back (queue p)) (\<lambda>b.
     if pipe_f p = Some b then Inr (None, p)
     else
       bindR (yq_unpush N (queue p)) (\<lambda>q.
       bindR (yq_back q) (\<lambda>b.
       bindR (yq_load b q) (\<lambda>v. Inr (Some v, p\<lparr>queue := q\<rparr>)))))"

text \<open>The first half of \<open>Flush\<close> says whether it is finished; the second one writes \<open>c_\<close>.\<close>

definition yp_flush_cas :: "'a ypipe \<Rightarrow> bool \<times> 'a ypipe" where
  "yp_flush_cas p =
     (if pipe_w p = pipe_f p then (True, p)
      else
        let (old, new) = atomic_cas (pipe_w p) (pipe_f p) (pipe_c p); p = p\<lparr>pipe_c := new\<rparr> in
        if old \<noteq> pipe_w p then (False, p) else (True, p\<lparr>pipe_w := pipe_f p\<rparr>))"

definition yp_flush_set :: "'a ypipe \<Rightarrow> 'a ypipe" where
  "yp_flush_set p = p\<lparr>pipe_c := pipe_f p, pipe_w := pipe_f p\<rparr>"

definition yp_flush :: "'a ypipe \<Rightarrow> bool \<times> 'a ypipe" where
  "yp_flush p = (let (finished, p) = yp_flush_cas p in
     if finished then (True, p) else (False, yp_flush_set p))"

definition yp_check_read :: "'a ypipe \<Rightarrow> (bool \<times> 'a ypipe) res" where
  "yp_check_read p =
     bindR (yq_front (queue p)) (\<lambda>fr.
     if Some fr \<noteq> pipe_r p \<and> pipe_r p \<noteq> None then Inr (True, p)
     else
       let (old, new) = atomic_cas (Some fr) None (pipe_c p); p = p\<lparr>pipe_c := new, pipe_r := old\<rparr> in
       if Some fr = pipe_r p \<or> pipe_r p = None then Inr (False, p) else Inr (True, p))"

definition yp_read :: "nat \<Rightarrow> 'a ypipe \<Rightarrow> ('a option \<times> 'a ypipe) res" where
  "yp_read N p =
     bindR (yp_check_read p) (\<lambda>(ok, p).
     if \<not> ok then Inr (None, p)
     else
       bindR (yq_front (queue p)) (\<lambda>fr.
       bindR (yq_load fr (queue p)) (\<lambda>v.
       bindR (yq_pop N (queue p)) (\<lambda>q. Inr (Some v, p\<lparr>queue := q\<rparr>)))))"

definition yp_probe :: "('a \<Rightarrow> bool) \<Rightarrow> 'a ypipe \<Rightarrow> (bool \<times> 'a ypipe) res" where
  "yp_probe fn p =
     bindR (yp_check_read p) (\<lambda>(_, p).
     bindR (yq_front (queue p)) (\<lambda>fr.
     bindR (yq_load fr (queue p)) (\<lambda>v. Inr (fn v, p))))"

section \<open>The abstract pipe\<close>

text \<open>
  \<open>items\<close> are the items written and not yet read, oldest first: the first \<open>nr\<close> are prefetched
  by the reader, the first \<open>nw\<close> are flushed, the first \<open>nf\<close> are complete.
\<close>

record 'a apipe =
  items :: "'a list"
  nr :: nat
  nw :: nat
  nf :: nat
  asleep :: bool

definition ap_new :: "'a apipe" where
  "ap_new = \<lparr>items = [], nr = 0, nw = 0, nf = 0, asleep = False\<rparr>"

definition ap_wf :: "'a apipe \<Rightarrow> bool" where
  "ap_wf a \<longleftrightarrow> nr a \<le> nw a \<and> nw a \<le> nf a \<and> nf a \<le> length (items a) \<and> (asleep a \<longrightarrow> nw a = 0)"

definition ap_write :: "'a \<Rightarrow> bool \<Rightarrow> 'a apipe \<Rightarrow> 'a apipe" where
  "ap_write v incomplete a =
     a\<lparr>items := items a @ [v], nf := if incomplete then nf a else Suc (length (items a))\<rparr>"

definition ap_unwrite :: "'a apipe \<Rightarrow> 'a option \<times> 'a apipe" where
  "ap_unwrite a = (if nf a = length (items a) then (None, a)
     else (Some (last (items a)), a\<lparr>items := butlast (items a)\<rparr>))"

definition ap_flush_cas :: "'a apipe \<Rightarrow> bool \<times> 'a apipe" where
  "ap_flush_cas a = (if nw a = nf a then (True, a) else if asleep a then (False, a)
     else (True, a\<lparr>nw := nf a\<rparr>))"

definition ap_flush_set :: "'a apipe \<Rightarrow> 'a apipe" where
  "ap_flush_set a = a\<lparr>nw := nf a, asleep := False\<rparr>"

definition ap_check_read :: "'a apipe \<Rightarrow> bool \<times> 'a apipe" where
  "ap_check_read a = (if 0 < nr a then (True, a) else if asleep a then (False, a)
     else if nw a = 0 then (False, a\<lparr>asleep := True\<rparr>) else (True, a\<lparr>nr := nw a\<rparr>))"

definition ap_read :: "'a apipe \<Rightarrow> 'a option \<times> 'a apipe" where
  "ap_read a = (let (ok, a) = ap_check_read a in
     if ok then (Some (hd (items a)), a\<lparr>items := tl (items a), nr := nr a - 1, nw := nw a - 1, nf := nf a - 1\<rparr>)
     else (None, a))"

section \<open>Refinement\<close>

definition pipe_rep :: "nat \<Rightarrow> 'a ypipe \<Rightarrow> 'a apipe \<Rightarrow> bool" where
  "pipe_rep N p a \<longleftrightarrow> (\<exists>es t. yq_holds N (queue p) (es @ [t]) \<and> map snd es = map Some (items a) \<and> ap_wf a
     \<and> pipe_w p = Some (fst ((es @ [t]) ! nw a)) \<and> pipe_f p = Some (fst ((es @ [t]) ! nf a))
     \<and> pipe_c p = (if asleep a then None else Some (fst ((es @ [t]) ! nw a)))
     \<and> (pipe_r p = Some (fst ((es @ [t]) ! nr a)) \<or> pipe_r p = None \<and> nr a = 0))"

lemma addr_eq_iff:
  assumes "yq_holds N q es" and "i < length es" and "j < length es"
  shows "fst (es ! i) = fst (es ! j) \<longleftrightarrow> i = j"
  using yq.rep_distinct [OF assms(1)] assms(2,3) nth_eq_iff_index_eq [of "map fst es" i j] by simp

lemma yp_new_rep: "0 < N \<Longrightarrow> \<exists>p :: 'a ypipe. yp_new N = Inr p \<and> pipe_rep N p ap_new"
proof -
  assume "0 < N"
  from yq.push_rep [OF yq_holds_new [OF this]] obtain q :: "'a yqueue" and x v where
    q: "yq_push N (yq_new N) = Inr q" "yq_holds N q ([] @ [(x, v)])" by blast
  let ?p = "\<lparr>queue = q, pipe_w = Some x, pipe_r = Some x, pipe_f = Some x, pipe_c = Some x\<rparr>"
  have "pipe_rep N ?p ap_new"
    unfolding pipe_rep_def using q(2)
    by (intro exI [of _ "[]"] exI [of _ "(x, v)"]) (simp add: ap_new_def ap_wf_def)
  then show ?thesis
    using q(1) yq.back_rep [OF q(2)] by (simp add: yp_new_def)
qed

lemma yp_write_rep:
  assumes "pipe_rep N p a"
  shows "\<exists>p'. yp_write N v inc p = Inr p' \<and> pipe_rep N p' (ap_write v inc a)"
proof -
  obtain es x w where h: "yq_holds N (queue p) (es @ [(x, w)])" and m: "map snd es = map Some (items a)"
    and wf: "ap_wf a" and pt: "pipe_w p = Some (fst ((es @ [(x, w)]) ! nw a))"
    "pipe_f p = Some (fst ((es @ [(x, w)]) ! nf a))"
    "pipe_c p = (if asleep a then None else Some (fst ((es @ [(x, w)]) ! nw a)))"
    "pipe_r p = Some (fst ((es @ [(x, w)]) ! nr a)) \<or> pipe_r p = None \<and> nr a = 0"
    using assms unfolding pipe_rep_def by (metis prod.collapse)
  have l: "length es = length (items a)" using m by (metis length_map)
  obtain q1 where q1: "yq_store x v (queue p) = Inr q1" "yq_holds N q1 (es @ [(x, Some v)])"
    using yq.store_rep [OF h] by blast
  obtain q2 y u where q2: "yq_push N q1 = Inr q2" "yq_holds N q2 ((es @ [(x, Some v)]) @ [(y, u)])"
    using yq.push_rep [OF q1(2)] by blast
  have at: "fst (((es @ [(x, Some v)]) @ [(y, u)]) ! i) = fst ((es @ [(x, w)]) ! i)" if "i \<le> length es" for i
    using that by (auto simp: nth_append)
  have bk: "yq_back (queue p) = Inr x" "yq_back q2 = Inr y"
    using yq.back_rep [OF h] yq.back_rep [OF q2(2)] by simp_all
  have n: "nr a \<le> length es" "nw a \<le> length es" "nf a \<le> length es" using wf l by (auto simp: ap_wf_def)
  have new: "fst (((es @ [(x, Some v)]) @ [(y, u)]) ! Suc (length es)) = y" by (simp add: nth_append)
  let ?p = "if inc then p\<lparr>queue := q2\<rparr> else p\<lparr>queue := q2, pipe_f := Some y\<rparr>"
  have "pipe_rep N ?p (ap_write v inc a)"
    unfolding pipe_rep_def
    using q2(2) m wf pt l new at [OF n(1)] at [OF n(2)] at [OF n(3)]
    by (intro exI [of _ "es @ [(x, Some v)]"] exI [of _ "(y, u)"])
      (auto simp: ap_write_def ap_wf_def simp del: append_assoc)
  moreover have "yp_write N v inc p = Inr ?p"
    using q1(1) q2(1) bk by (simp add: yp_write_def)
  ultimately show ?thesis by blast
qed

lemma yp_unwrite_rep:
  assumes "pipe_rep N p a"
  shows "\<exists>p'. yp_unwrite N p = Inr (fst (ap_unwrite a), p') \<and> pipe_rep N p' (snd (ap_unwrite a))"
proof -
  obtain es t where h: "yq_holds N (queue p) (es @ [t])" and m: "map snd es = map Some (items a)"
    and wf: "ap_wf a" and pt: "pipe_w p = Some (fst ((es @ [t]) ! nw a))"
    "pipe_f p = Some (fst ((es @ [t]) ! nf a))"
    "pipe_c p = (if asleep a then None else Some (fst ((es @ [t]) ! nw a)))"
    "pipe_r p = Some (fst ((es @ [t]) ! nr a)) \<or> pipe_r p = None \<and> nr a = 0"
    using assms unfolding pipe_rep_def by blast
  have l: "length es = length (items a)" using m by (metis length_map)
  have bk: "yq_back (queue p) = Inr (fst t)" using yq.back_rep [OF h] .
  have n: "nf a \<le> length es" using wf l by (simp add: ap_wf_def)
  have eq: "pipe_f p = Some (fst t) \<longleftrightarrow> nf a = length (items a)"
    using addr_eq_iff [OF h, of "nf a" "length es"] n pt(2) unfolding l [symmetric] by simp
  show ?thesis
  proof (cases "nf a = length (items a)")
    case True
    then show ?thesis using eq bk assms by (simp add: yp_unwrite_def ap_unwrite_def)
  next
    case False
    then have "es \<noteq> []" using n l by auto
    then obtain es' x w where es: "es = es' @ [(x, w)]" by (metis rev_exhaust prod.collapse)
    obtain vs v where vs: "items a = vs @ [v]" "w = Some v" "map snd es' = map Some vs"
      using m es by (cases "items a" rule: rev_cases) auto
    obtain q1 where q1: "yq_unpush N (queue p) = Inr q1" "yq_holds N q1 (es' @ [(x, w)])"
      using yq.unpush_rep [OF h] es by blast
    have l1: "yq_back q1 = Inr x" "yq_load x q1 = Inr v"
      using yq.back_rep [OF q1(2)] yq.load_rep [OF q1(2), of x v] vs(2) by simp_all
    have "yp_unwrite N p = Inr (Some v, p\<lparr>queue := q1\<rparr>)"
      using False eq bk q1(1) l1 by (simp add: yp_unwrite_def)
    moreover have "pipe_rep N (p\<lparr>queue := q1\<rparr>) (snd (ap_unwrite a))"
      unfolding pipe_rep_def using False q1(2) vs wf pt l es
      by (intro exI [of _ es'] exI [of _ "(x, w)"]) (auto simp: ap_unwrite_def ap_wf_def nth_append)
    ultimately show ?thesis using False vs(1) by (simp add: ap_unwrite_def)
  qed
qed

lemma yp_flush_cas_rep:
  assumes "pipe_rep N p a"
  shows "\<exists>p'. yp_flush_cas p = (fst (ap_flush_cas a), p') \<and> pipe_rep N p' (snd (ap_flush_cas a))"
proof -
  obtain es t where h: "yq_holds N (queue p) (es @ [t])" and m: "map snd es = map Some (items a)"
    and wf: "ap_wf a" and pt: "pipe_w p = Some (fst ((es @ [t]) ! nw a))"
    "pipe_f p = Some (fst ((es @ [t]) ! nf a))"
    "pipe_c p = (if asleep a then None else Some (fst ((es @ [t]) ! nw a)))"
    "pipe_r p = Some (fst ((es @ [t]) ! nr a)) \<or> pipe_r p = None \<and> nr a = 0"
    using assms unfolding pipe_rep_def by blast
  have l: "length es = length (items a)" using m by (metis length_map)
  have eq: "pipe_w p = pipe_f p \<longleftrightarrow> nw a = nf a"
    using addr_eq_iff [OF h, of "nw a" "nf a"] wf l pt by (simp add: ap_wf_def)
  consider "nw a = nf a" | "nw a \<noteq> nf a" "asleep a" | "nw a \<noteq> nf a" "\<not> asleep a" by blast
  then show ?thesis
  proof cases
    case 1
    then show ?thesis using eq assms by (simp add: yp_flush_cas_def ap_flush_cas_def)
  next
    case 2
    have "yp_flush_cas p = (False, p\<lparr>pipe_c := None\<rparr>)"
      using 2 eq pt by (simp add: yp_flush_cas_def atomic_cas_def)
    moreover have "p\<lparr>pipe_c := None\<rparr> = p" using 2 pt(3) by (cases p) simp
    ultimately show ?thesis using 2 assms by (simp add: ap_flush_cas_def)
  next
    case 3
    have "pipe_rep N (p\<lparr>pipe_c := pipe_f p, pipe_w := pipe_f p\<rparr>) (a\<lparr>nw := nf a\<rparr>)"
      unfolding pipe_rep_def using 3 h m wf pt
      by (intro exI [of _ es] exI [of _ t]) (auto simp: ap_wf_def)
    then show ?thesis
      using 3 eq pt by (simp add: yp_flush_cas_def atomic_cas_def ap_flush_cas_def)
  qed
qed

lemma yp_flush_set_rep: "pipe_rep N p a \<Longrightarrow> pipe_rep N (yp_flush_set p) (ap_flush_set a)"
  unfolding pipe_rep_def
  by (elim exE conjE, intro exI conjI) (auto simp: yp_flush_set_def ap_flush_set_def ap_wf_def)

lemma yp_check_read_rep:
  assumes "pipe_rep N p a"
  shows "\<exists>p'. yp_check_read p = Inr (fst (ap_check_read a), p') \<and> pipe_rep N p' (snd (ap_check_read a))"
proof -
  obtain es t where h: "yq_holds N (queue p) (es @ [t])" and m: "map snd es = map Some (items a)"
    and wf: "ap_wf a" and pt: "pipe_w p = Some (fst ((es @ [t]) ! nw a))"
    "pipe_f p = Some (fst ((es @ [t]) ! nf a))"
    "pipe_c p = (if asleep a then None else Some (fst ((es @ [t]) ! nw a)))"
    "pipe_r p = Some (fst ((es @ [t]) ! nr a)) \<or> pipe_r p = None \<and> nr a = 0"
    using assms unfolding pipe_rep_def by blast
  have l: "length es = length (items a)" using m by (metis length_map)
  have n: "nr a \<le> length es" "nw a \<le> length es" using wf l by (auto simp: ap_wf_def)
  let ?fr = "fst ((es @ [t]) ! 0)"
  have fr: "yq_front (queue p) = Inr ?fr"
    using h by (cases es) (auto dest: yq.front_rep)
  have eq: "fst ((es @ [t]) ! i) = ?fr \<longleftrightarrow> i = 0" if "i \<le> length es" for i
    using addr_eq_iff [OF h, of i 0] that by simp
  consider (pre) "0 < nr a" | (off) "nr a = 0" "asleep a" | (empty) "nr a = 0" "\<not> asleep a" "nw a = 0"
    | (more) "nr a = 0" "\<not> asleep a" "0 < nw a" by blast
  then show ?thesis
  proof cases
    case pre
    then have "Some ?fr \<noteq> pipe_r p \<and> pipe_r p \<noteq> None" using pt(4) eq [OF n(1)] by auto
    then show ?thesis using pre fr assms by (simp add: yp_check_read_def ap_check_read_def)
  next
    case off
    have "pipe_rep N (p\<lparr>pipe_c := None, pipe_r := None\<rparr>) a"
      unfolding pipe_rep_def using off h m wf pt by (intro exI [of _ es] exI [of _ t]) auto
    then show ?thesis using off fr pt
      by (auto simp: yp_check_read_def ap_check_read_def atomic_cas_def)
  next
    case empty
    have "pipe_rep N (p\<lparr>pipe_c := None, pipe_r := Some ?fr\<rparr>) (a\<lparr>asleep := True\<rparr>)"
      unfolding pipe_rep_def using empty h m wf pt
      by (intro exI [of _ es] exI [of _ t]) (auto simp: ap_wf_def)
    then show ?thesis using empty fr pt
      by (auto simp: yp_check_read_def ap_check_read_def atomic_cas_def)
  next
    case more
    have "pipe_rep N (p\<lparr>pipe_c := Some (fst ((es @ [t]) ! nw a)), pipe_r := Some (fst ((es @ [t]) ! nw a))\<rparr>)
      (a\<lparr>nr := nw a\<rparr>)"
      unfolding pipe_rep_def using more h m wf pt
      by (intro exI [of _ es] exI [of _ t]) (auto simp: ap_wf_def)
    moreover have "fst ((es @ [t]) ! nw a) \<noteq> ?fr" using eq [OF n(2)] more by simp
    ultimately show ?thesis using more fr pt
      by (auto simp: yp_check_read_def ap_check_read_def atomic_cas_def)
  qed
qed

lemma yp_read_rep:
  assumes "pipe_rep N p a"
  shows "\<exists>p'. yp_read N p = Inr (fst (ap_read a), p') \<and> pipe_rep N p' (snd (ap_read a))"
proof -
  obtain p1 where p1: "yp_check_read p = Inr (fst (ap_check_read a), p1)"
    "pipe_rep N p1 (snd (ap_check_read a))"
    using yp_check_read_rep [OF assms] by blast
  show ?thesis
  proof (cases "fst (ap_check_read a)")
    case False
    then show ?thesis using p1 by (simp add: yp_read_def ap_read_def split_beta)
  next
    case True
    define b where "b = snd (ap_check_read a)"
    have nr: "0 < nr b" using True by (auto simp: ap_check_read_def b_def split: if_splits)
    obtain es t where h: "yq_holds N (queue p1) (es @ [t])" and m: "map snd es = map Some (items b)"
      and wf: "ap_wf b" and pt: "pipe_w p1 = Some (fst ((es @ [t]) ! nw b))"
      "pipe_f p1 = Some (fst ((es @ [t]) ! nf b))"
      "pipe_c p1 = (if asleep b then None else Some (fst ((es @ [t]) ! nw b)))"
      "pipe_r p1 = Some (fst ((es @ [t]) ! nr b)) \<or> pipe_r p1 = None \<and> nr b = 0"
      using p1(2) unfolding pipe_rep_def b_def by blast
    have "length es = length (items b)" using m by (metis length_map)
    then have "es \<noteq> []" using nr wf by (auto simp: ap_wf_def)
    then obtain x w es' where es: "es = (x, w) # es'" by (cases es) auto
    obtain v vs where vs: "items b = v # vs" "w = Some v" "map snd es' = map Some vs"
      using m es by (cases "items b") auto
    obtain q where q: "yq_pop N (queue p1) = Inr q" "yq_holds N q (es' @ [t])"
      using yq.pop_rep [of N "queue p1" "(x, w)"] h es by auto
    have fr: "yq_front (queue p1) = Inr x" "yq_load x (queue p1) = Inr v"
      using yq.front_rep [of N "queue p1" "(x, w)"] yq.load_rep [OF h, of x v] h es vs(2) by auto
    have "yp_read N p = Inr (Some v, p1\<lparr>queue := q\<rparr>)"
      using True p1(1) fr q(1) by (simp add: yp_read_def)
    moreover have "ap_read a = (Some v, b\<lparr>items := vs, nr := nr b - 1, nw := nw b - 1, nf := nf b - 1\<rparr>)"
      using True vs(1) by (simp add: ap_read_def split_beta b_def)
    moreover have "pipe_rep N (p1\<lparr>queue := q\<rparr>) (b\<lparr>items := vs, nr := nr b - 1, nw := nw b - 1, nf := nf b - 1\<rparr>)"
      unfolding pipe_rep_def using nr q(2) vs wf pt es
      by (intro exI [of _ es'] exI [of _ t]) (auto simp: ap_wf_def nth_Cons')
    ultimately show ?thesis by simp
  qed
qed

lemma yp_flush_rep:
  assumes "pipe_rep N p a"
  shows "\<exists>b p'. yp_flush p = (b, p') \<and> b = fst (ap_flush_cas a)
    \<and> pipe_rep N p' (if b then snd (ap_flush_cas a) else ap_flush_set (snd (ap_flush_cas a)))"
  using yp_flush_cas_rep [OF assms] yp_flush_set_rep by (auto simp: yp_flush_def)

section \<open>Interleavings\<close>

text \<open>
  The atomic steps of the two threads: \<open>Write\<close>, \<open>UnWrite\<close>, \<open>FlushCas\<close>, \<open>FlushSet\<close> and \<open>Flush\<close> (both
  halves) are the writer's, \<open>CheckRead\<close> and \<open>Read\<close> the reader's. A list of steps is any
  interleaving.
\<close>

datatype 'a pipe_op = Write 'a bool | UnWrite | FlushCas | FlushSet | Flush | CheckRead | Read

datatype 'a pipe_out = Done | Flag bool | Value "'a option"

fun yp_step :: "nat \<Rightarrow> 'a pipe_op \<Rightarrow> 'a ypipe \<Rightarrow> ('a pipe_out \<times> 'a ypipe) res" where
  "yp_step N (Write v inc) p = bindR (yp_write N v inc p) (\<lambda>p. Inr (Done, p))"
| "yp_step N UnWrite p = bindR (yp_unwrite N p) (\<lambda>(v, p). Inr (Value v, p))"
| "yp_step N FlushCas p = (let (b, p) = yp_flush_cas p in Inr (Flag b, p))"
| "yp_step N FlushSet p = Inr (Done, yp_flush_set p)"
| "yp_step N Flush p = (let (b, p) = yp_flush p in Inr (Flag b, p))"
| "yp_step N CheckRead p = bindR (yp_check_read p) (\<lambda>(b, p). Inr (Flag b, p))"
| "yp_step N Read p = bindR (yp_read N p) (\<lambda>(v, p). Inr (Value v, p))"

fun yp_run :: "nat \<Rightarrow> 'a pipe_op list \<Rightarrow> 'a ypipe \<Rightarrow> ('a pipe_out list \<times> 'a ypipe) res" where
  "yp_run N [] p = Inr ([], p)"
| "yp_run N (op # ops) p = bindR (yp_step N op p) (\<lambda>(x, p).
     bindR (yp_run N ops p) (\<lambda>(xs, p). Inr (x # xs, p)))"

fun ap_step :: "'a pipe_op \<Rightarrow> 'a apipe \<Rightarrow> 'a pipe_out \<times> 'a apipe" where
  "ap_step (Write v inc) a = (Done, ap_write v inc a)"
| "ap_step UnWrite a = (let (v, a) = ap_unwrite a in (Value v, a))"
| "ap_step FlushCas a = (let (b, a) = ap_flush_cas a in (Flag b, a))"
| "ap_step FlushSet a = (Done, ap_flush_set a)"
| "ap_step Flush a = (let (b, a) = ap_flush_cas a in (Flag b, if b then a else ap_flush_set a))"
| "ap_step CheckRead a = (let (b, a) = ap_check_read a in (Flag b, a))"
| "ap_step Read a = (let (v, a) = ap_read a in (Value v, a))"

fun ap_run :: "'a pipe_op list \<Rightarrow> 'a apipe \<Rightarrow> 'a pipe_out list \<times> 'a apipe" where
  "ap_run [] a = ([], a)"
| "ap_run (op # ops) a = (let (x, a) = ap_step op a; (xs, a) = ap_run ops a in (x # xs, a))"

lemma yp_step_rep:
  assumes "pipe_rep N p a"
  shows "\<exists>p'. yp_step N op p = Inr (fst (ap_step op a), p') \<and> pipe_rep N p' (snd (ap_step op a))"
proof (cases op)
  case (Write v inc)
  then show ?thesis using yp_write_rep [OF assms, of v inc] by auto
next
  case UnWrite
  then show ?thesis using yp_unwrite_rep [OF assms] by (auto simp: split_beta)
next
  case FlushCas
  then show ?thesis using yp_flush_cas_rep [OF assms] by (auto simp: split_beta)
next
  case Flush
  then show ?thesis using yp_flush_rep [OF assms] by (auto simp: split_beta split: if_splits)
next
  case CheckRead
  then show ?thesis using yp_check_read_rep [OF assms] by (auto simp: split_beta)
next
  case Read
  then show ?thesis using yp_read_rep [OF assms] by (auto simp: split_beta)
qed (use yp_flush_set_rep [OF assms] in auto)

text \<open>Every interleaving on the pipe does what it does on the abstract pipe.\<close>

lemma yp_run_rep:
  "pipe_rep N p a \<Longrightarrow> \<exists>p'. yp_run N ops p = Inr (fst (ap_run ops a), p') \<and> pipe_rep N p' (snd (ap_run ops a))"
proof (induction ops arbitrary: p a)
  case (Cons op ops)
  obtain p1 where 1: "yp_step N op p = Inr (fst (ap_step op a), p1)" "pipe_rep N p1 (snd (ap_step op a))"
    using yp_step_rep [OF Cons.prems] by blast
  obtain p2 where "yp_run N ops p1 = Inr (fst (ap_run ops (snd (ap_step op a))), p2)"
    "pipe_rep N p2 (snd (ap_run ops (snd (ap_step op a))))"
    using Cons.IH [OF 1(2)] by blast
  then show ?case using 1(1) by (simp add: split_beta)
qed simp

section \<open>First in, first out\<close>

text \<open>The values read, and the values written less those unwritten, in a history.\<close>

fun reads :: "'a pipe_op list \<Rightarrow> 'a pipe_out list \<Rightarrow> 'a list" where
  "reads (Read # ops) (Value (Some v) # outs) = v # reads ops outs"
| "reads (op # ops) (x # outs) = reads ops outs"
| "reads _ _ = []"

fun written :: "'a pipe_op list \<Rightarrow> 'a pipe_out list \<Rightarrow> 'a list \<Rightarrow> 'a list" where
  "written (Write v inc # ops) (x # outs) ws = written ops outs (ws @ [v])"
| "written (UnWrite # ops) (Value (Some v) # outs) ws = written ops outs (butlast ws)"
| "written (op # ops) (x # outs) ws = written ops outs ws"
| "written _ _ ws = ws"

lemma ap_step_wf: "ap_wf a \<Longrightarrow> ap_wf (snd (ap_step op a))"
  by (cases op) (auto simp: ap_wf_def ap_write_def ap_unwrite_def ap_flush_cas_def ap_flush_set_def
      ap_check_read_def ap_read_def split_beta Let_def)

lemma ap_run_fifo:
  "ap_wf a \<Longrightarrow> ap_run ops a = (outs, a') \<Longrightarrow>
    written ops outs (rs @ items a) = rs @ reads ops outs @ items a' \<and> ap_wf a'"
proof (induction ops arbitrary: a outs rs)
  case (Cons op ops)
  obtain x a1 xs where 1: "ap_step op a = (x, a1)" "ap_run ops a1 = (xs, a')" "outs = x # xs"
    using Cons.prems(2) by (auto split: prod.splits)
  have wf: "ap_wf a1" using ap_step_wf [OF Cons.prems(1), of op] 1(1) by simp
  note IH = Cons.IH [OF wf 1(2)]
  show ?case
  proof (cases op)
    case (Write v inc)
    then show ?thesis using IH [of rs] 1 by (auto simp: ap_write_def)
  next
    case UnWrite
    show ?thesis
    proof (cases "nf a = length (items a)")
      case True
      then show ?thesis using UnWrite IH [of rs] 1 by (auto simp: ap_unwrite_def)
    next
      case False
      then have "items a \<noteq> []" using Cons.prems(1) by (auto simp: ap_wf_def)
      then show ?thesis using UnWrite False IH [of rs] 1 by (auto simp: ap_unwrite_def butlast_append)
    qed
  next
    case Read
    show ?thesis
    proof (cases "fst (ap_check_read a)")
      case True
      then have "items a \<noteq> []" "items (snd (ap_check_read a)) = items a"
        using Cons.prems(1) by (auto simp: ap_wf_def ap_check_read_def split: if_splits)
      then show ?thesis using Read True IH [of "rs @ [hd (items a)]"] 1 by (auto simp: ap_read_def split_beta)
    next
      case False
      then show ?thesis using Read IH [of rs] 1
        by (auto simp: ap_read_def ap_check_read_def split: if_splits)
    qed
  qed (use IH [of rs] 1 in \<open>auto simp: ap_flush_cas_def ap_flush_set_def ap_check_read_def split: if_splits\<close>)
qed auto

lemma ap_reads_all:
  "\<not> asleep a \<Longrightarrow> nw a = length (items a) \<Longrightarrow> nr a \<le> nw a
    \<Longrightarrow> reads (replicate (length (items a)) Read) (fst (ap_run (replicate (length (items a)) Read) a)) = items a"
proof (induction "items a" arbitrary: a)
  case (Cons v vs)
  define b where "b = snd (ap_read a)"
  have b: "fst (ap_read a) = Some v" "items b = vs" "\<not> asleep b" "nw b = length (items b)" "nr b \<le> nw b"
    using Cons.prems Cons.hyps(2) [symmetric]
    by (auto simp: ap_read_def ap_check_read_def b_def)
  have "items a = v # items b" using b(2) Cons.hyps(2) by simp
  then show ?case
    using Cons.hyps(1) [OF b(2) [symmetric] b(3,4,5)] b(1) by (simp add: split_beta b_def [symmetric])
qed simp

lemma yp_reachable:
  fixes p0 :: "'a ypipe"
  assumes "0 < N" and "yp_new N = Inr p0" and "yp_run N ops p0 = Inr (outs, p)"
  shows "\<exists>a. ap_run ops ap_new = (outs, a) \<and> pipe_rep N p a \<and> ap_wf a
    \<and> written ops outs [] = reads ops outs @ items a"
proof -
  obtain p' :: "'a ypipe" where "yp_new N = Inr p'" "pipe_rep N p' ap_new"
    using yp_new_rep [OF assms(1)] by blast
  then have "pipe_rep N p0 ap_new" using assms(2) by simp
  from yp_run_rep [OF this, of ops] assms(3)
  have "ap_run ops ap_new = (outs, snd (ap_run ops ap_new))" "pipe_rep N p (snd (ap_run ops ap_new))"
    by (auto simp: prod_eq_iff)
  moreover have "ap_wf ap_new" by (simp add: ap_wf_def ap_new_def)
  ultimately show ?thesis
    using ap_run_fifo [of ap_new ops outs "snd (ap_run ops ap_new)" "[]"] by (auto simp: ap_new_def)
qed

section \<open>Properties\<close>

text \<open>
  C9. Under every interleaving of the writer's and the reader's steps a YPipe is a FIFO: no step
  touches freed or uninitialised memory, and the values read are, in order and without loss or
  duplication, a prefix of the values written and not unwritten.
\<close>
theorem pipe_is_fifo:
  fixes ops :: "'a pipe_op list"
  assumes "0 < N"
  shows "\<exists>p0 outs p. yp_new N = Inr p0 \<and> yp_run N ops p0 = Inr (outs, p)
    \<and> prefix (reads ops outs) (written ops outs [])"
proof -
  obtain p0 :: "'a ypipe" where p0: "yp_new N = Inr p0" "pipe_rep N p0 ap_new"
    using yp_new_rep [OF assms] by blast
  obtain outs p where r: "yp_run N ops p0 = Inr (outs, p)" using yp_run_rep [OF p0(2)] by blast
  from yp_reachable [OF assms p0(1) r] show ?thesis using p0(1) r by (auto intro: prefixI)
qed

theorem pipe_is_fifo_witness:
  "\<exists>p0 outs p. yp_new 2 = Inr p0
    \<and> yp_run 2 [CheckRead, Write (1 :: nat) False, FlushCas, Read, FlushSet, Read] p0 = Inr (outs, p)
    \<and> prefix (reads [CheckRead, Write 1 False, FlushCas, Read, FlushSet, Read] outs)
        (written [CheckRead, Write 1 False, FlushCas, Read, FlushSet, Read] outs [])"
  by (rule pipe_is_fifo) simp

text \<open>
  C10. Nothing written is lost: from any state an interleaving can reach, once the writer has
  completed an item and flushed, the reader's next calls of \<open>Read\<close> all succeed and return
  everything written before and not yet read, in order.
\<close>
theorem pipe_delivers_all:
  assumes "0 < N" and "yp_new N = Inr p0" and "yp_run N ops p0 = Inr (outs, p)"
    and "written ops outs [] = reads ops outs @ rest"
  shows "\<exists>b xs p'. yp_run N (Write v False # Flush # replicate (Suc (length rest)) Read) p
      = Inr (Done # Flag b # xs, p')
    \<and> reads (replicate (Suc (length rest)) Read) xs = rest @ [v]"
proof -
  obtain a where a: "pipe_rep N p a" "ap_wf a" "items a = rest"
    using yp_reachable [OF assms(1-3)] assms(4) by auto
  let ?n = "Suc (length rest)"
  define b where "b = snd (ap_step Flush (ap_write v False a))"
  have b: "\<not> asleep b" "items b = rest @ [v]" "nw b = length (items b)" "nr b \<le> nw b"
    using a(2,3) by (auto simp: b_def ap_wf_def ap_write_def ap_flush_cas_def ap_flush_set_def split_beta)
  obtain f where f: "ap_step Flush (ap_write v False a) = (Flag f, b)" by (auto simp: b_def split_beta)
  have "reads (replicate ?n Read) (fst (ap_run (replicate ?n Read) b)) = rest @ [v]"
    using ap_reads_all [OF b(1,3,4)] b(2) by simp
  moreover obtain p' where "yp_run N (Write v False # Flush # replicate ?n Read) p
      = Inr (fst (ap_run (Write v False # Flush # replicate ?n Read) a), p')"
    using yp_run_rep [OF a(1)] by blast
  ultimately show ?thesis using f by (auto simp: split_beta simp del: replicate_Suc ap_step.simps(5))
qed

theorem pipe_delivers_all_witness:
  "\<exists>p0 outs p. yp_new 1 = Inr p0 \<and> yp_run 1 [Write (1 :: nat) True] p0 = Inr (outs, p)
    \<and> (\<exists>b xs p'. yp_run 1 (Write 2 False # Flush # replicate (Suc (length [1 :: nat])) Read) p
        = Inr (Done # Flag b # xs, p')
      \<and> reads (replicate (Suc (length [1 :: nat])) Read) xs = [1] @ [2])"
proof -
  obtain p0 :: "nat ypipe" where p0: "yp_new 1 = Inr p0" "pipe_rep 1 p0 ap_new"
    using yp_new_rep [of 1] by auto
  obtain p where r: "yp_run 1 [Write (1 :: nat) True] p0 = Inr ([Done], p)"
    using yp_run_rep [OF p0(2), of "[Write 1 True]"] by auto
  have "\<exists>b xs p'. yp_run 1 (Write 2 False # Flush # replicate (Suc (length [1 :: nat])) Read) p
        = Inr (Done # Flag b # xs, p')
      \<and> reads (replicate (Suc (length [1 :: nat])) Read) xs = [1] @ [2]"
    by (rule pipe_delivers_all [OF _ p0(1) r]) simp_all
  with p0(1) r show ?thesis by blast
qed

text \<open>
  The wake-up protocol: in any reachable state \<open>Flush\<close> of a completed item returns \<open>false\<close>
  exactly if the reader was told that the pipe is empty and nobody has flushed since (\<open>c_\<close> is
  \<open>NULL\<close>), and a \<open>Read\<close> that finds nothing always leaves \<open>c_\<close> at \<open>NULL\<close>.
\<close>
lemma flush_false_iff_reader_asleep:
  assumes "0 < N" and "yp_new N = Inr p0" and "yp_run N ops p0 = Inr (outs, p)"
  shows "\<exists>p1 x p2. yp_write N v False p = Inr p1 \<and> (fst (yp_flush p1) \<longleftrightarrow> pipe_c p \<noteq> None)
    \<and> yp_read N p = Inr (x, p2) \<and> (x = None \<longrightarrow> pipe_c p2 = None)"
proof -
  obtain a where a: "pipe_rep N p a" "ap_wf a" using yp_reachable [OF assms] by auto
  obtain p1 where p1: "yp_write N v False p = Inr p1" "pipe_rep N p1 (ap_write v False a)"
    using yp_write_rep [OF a(1)] by blast
  have c: "pipe_c q \<noteq> None \<longleftrightarrow> \<not> asleep b" if "pipe_rep N q b" for q and b :: "'a apipe"
    using that by (auto simp: pipe_rep_def)
  have "fst (yp_flush p1) \<longleftrightarrow> \<not> asleep a"
    using yp_flush_rep [OF p1(2)] a(2) by (auto simp: ap_flush_cas_def ap_write_def ap_wf_def)
  moreover obtain p2 where p2: "yp_read N p = Inr (fst (ap_read a), p2)" "pipe_rep N p2 (snd (ap_read a))"
    using yp_read_rep [OF a(1)] by blast
  moreover have "fst (ap_read a) = None \<longrightarrow> asleep (snd (ap_read a))"
    by (auto simp: ap_read_def ap_check_read_def)
  ultimately show ?thesis using p1(1) c [OF a(1)] c [OF p2(2)] by auto
qed

lemma flush_false_iff_reader_asleep_witness:
  "\<exists>p0 outs p. yp_new 16 = Inr p0 \<and> yp_run 16 [CheckRead] p0 = Inr (outs, p)
    \<and> (\<exists>p1 x p2. yp_write 16 (1 :: nat) False p = Inr p1 \<and> (fst (yp_flush p1) \<longleftrightarrow> pipe_c p \<noteq> None)
      \<and> yp_read 16 p = Inr (x, p2) \<and> (x = None \<longrightarrow> pipe_c p2 = None))"
proof -
  obtain p0 :: "nat ypipe" where p0: "yp_new 16 = Inr p0" "pipe_rep 16 p0 ap_new"
    using yp_new_rep [of 16] by auto
  obtain outs p where r: "yp_run 16 [CheckRead] p0 = Inr (outs, p)"
    using yp_run_rep [OF p0(2)] by blast
  have "\<exists>p1 x p2. yp_write 16 (1 :: nat) False p = Inr p1 \<and> (fst (yp_flush p1) \<longleftrightarrow> pipe_c p \<noteq> None)
      \<and> yp_read 16 p = Inr (x, p2) \<and> (x = None \<longrightarrow> pipe_c p2 = None)"
    by (rule flush_false_iff_reader_asleep [OF _ p0(1) r]) simp
  with p0(1) r show ?thesis by blast
qed

end
