(* ===== verification/Sync.thy ===== *)
theory Sync
  imports Clock Ypipe
begin

text \<open>
  \<open>src/base/singleton.h\<close>, \<open>mutex.h\<close>, \<open>lock.h\<close>, \<open>lock.cc\<close>, \<open>condition.cc\<close> and the rest of \<open>atomic.h\<close>: the
  wrappers of pthread objects and of atomic integers. The pthread calls are modelled as POSIX
  describes them; a call that blocks is \<open>None\<close>.
\<close>

section \<open>Singleton\<close>

text \<open>
  A thread in \<open>Instance\<close>: before \<open>pthread_once\<close>; in \<open>init\<close>, before \<open>new T ()\<close>, before the store to
  \<open>value_\<close>, before \<open>doInit\<close>, before \<open>pthread_once\<close> notes the end; before the load of \<open>value_\<close>; done.
\<close>

datatype once_pc = Away | Once | New | Store addr | Do_Init | Finish | Load | Have "addr option"

datatype once_flag = Never | In_Progress | Done

record once_sys =
  ponce :: once_flag
  single :: "addr option"
  made :: "addr list"
  inited :: "addr list"
  callers :: "nat \<Rightarrow> once_pc"

definition once_init :: once_sys where
  "once_init = \<lparr>ponce = Never, single = None, made = [], inited = [], callers = (\<lambda>_. Away)\<rparr>"

text \<open>\<open>made\<close> and \<open>inited\<close>: the objects \<open>new T ()\<close> made and \<open>doInit\<close> was called on.\<close>

inductive once_step :: "once_sys \<Rightarrow> once_sys \<Rightarrow> bool" where
  Call: "callers s i \<in> {Away, Have v} \<Longrightarrow> once_step s (s\<lparr>callers := (callers s)(i := Once)\<rparr>)"
| First: "callers s i = Once \<Longrightarrow> ponce s = Never
    \<Longrightarrow> once_step s (s\<lparr>ponce := In_Progress, callers := (callers s)(i := New)\<rparr>)"
| Later: "callers s i = Once \<Longrightarrow> ponce s = Done \<Longrightarrow> once_step s (s\<lparr>callers := (callers s)(i := Load)\<rparr>)"
| Construct: "callers s i = New \<Longrightarrow> once_step s (s\<lparr>made := made s @ [a], callers := (callers s)(i := Store a)\<rparr>)"
| Store_Value: "callers s i = Store a \<Longrightarrow> once_step s (s\<lparr>single := Some a, callers := (callers s)(i := Do_Init)\<rparr>)"
| Init: "callers s i = Do_Init \<Longrightarrow> single s = Some a
    \<Longrightarrow> once_step s (s\<lparr>inited := inited s @ [a], callers := (callers s)(i := Finish)\<rparr>)"
| End: "callers s i = Finish \<Longrightarrow> once_step s (s\<lparr>ponce := Done, callers := (callers s)(i := Load)\<rparr>)"
| Return: "callers s i = Load \<Longrightarrow> once_step s (s\<lparr>callers := (callers s)(i := Have (single s))\<rparr>)"

inductive once_reach :: "once_sys \<Rightarrow> bool" where
  Start: "once_reach once_init"
| Step: "once_reach s \<Longrightarrow> once_step s t \<Longrightarrow> once_reach t"

text \<open>What a thread in \<open>init\<close> has done so far.\<close>

fun init_ok :: "once_sys \<Rightarrow> once_pc \<Rightarrow> bool" where
  "init_ok s New \<longleftrightarrow> made s = [] \<and> inited s = []"
| "init_ok s (Store a) \<longleftrightarrow> made s = [a] \<and> inited s = []"
| "init_ok s Do_Init \<longleftrightarrow> (\<exists>a. made s = [a] \<and> single s = Some a) \<and> inited s = []"
| "init_ok s Finish \<longleftrightarrow> (\<exists>a. made s = [a] \<and> single s = Some a \<and> inited s = [a])"
| "init_ok s pc \<longleftrightarrow> False"

definition initialiser :: "once_sys \<Rightarrow> nat \<Rightarrow> bool" where
  "initialiser s i \<longleftrightarrow> init_ok s (callers s i) \<and> (\<forall>j. j \<noteq> i \<longrightarrow> callers s j = Away \<or> callers s j = Once)"

definition done_ok :: "once_sys \<Rightarrow> addr \<Rightarrow> bool" where
  "done_ok s a \<longleftrightarrow> made s = [a] \<and> single s = Some a \<and> inited s = [a] \<and> (\<forall>i. callers s i \<in> {Away, Once, Load, Have (Some a)})"

definition once_inv :: "once_sys \<Rightarrow> bool" where
  "once_inv s \<longleftrightarrow>
     (case ponce s of
        Never \<Rightarrow> (\<forall>i. callers s i \<in> {Away, Once}) \<and> made s = [] \<and> inited s = []
      | In_Progress \<Rightarrow> (\<exists>i. initialiser s i)
      | Done \<Rightarrow> (\<exists>a. done_ok s a))"

lemma once_inv_init:
  assumes "once_inv s" and "callers s i = New \<or> callers s i = Do_Init \<or> callers s i = Finish \<or> (\<exists>a. callers s i = Store a)"
  shows "ponce s = In_Progress \<and> initialiser s i"
proof (cases "ponce s")
  case Never
  then show ?thesis using assms unfolding once_inv_def by (auto dest!: spec [of _ i])
next
  case In_Progress
  then obtain j where j: "initialiser s j" using assms(1) unfolding once_inv_def by auto
  have "i = j"
  proof (rule ccontr)
    assume "i \<noteq> j"
    then have "callers s i = Away \<or> callers s i = Once" using j unfolding initialiser_def by blast
    then show False using assms(2) by auto
  qed
  then show ?thesis using j In_Progress by simp
next
  case Done
  then show ?thesis using assms unfolding once_inv_def done_ok_def by (auto dest!: spec [of _ i])
qed

lemma once_inv_away:
  assumes "once_inv s" and "callers s i = Load \<or> callers s i = Have v"
  shows "ponce s = Done"
proof (cases "ponce s")
  case Never
  then show ?thesis using assms unfolding once_inv_def by (auto dest!: spec [of _ i])
next
  case In_Progress
  then obtain j where j: "initialiser s j" using assms(1) unfolding once_inv_def by auto
  then show ?thesis using assms(2) unfolding initialiser_def by (cases "i = j") auto
qed

text \<open>Changes outside of \<open>init\<close>.\<close>

lemma initialiser_other:
  "initialiser s j \<Longrightarrow> i \<noteq> j \<Longrightarrow> initialiser (s\<lparr>callers := (callers s)(i := Once)\<rparr>) j"
  unfolding initialiser_def by (cases "callers s j") auto

lemma once_inv_step:
  assumes inv: "once_inv s" and step: "once_step s t"
  shows "once_inv t"
  using step
proof (cases rule: once_step.cases)
  case (Call i v)
  show ?thesis
  proof (cases "ponce s")
    case In_Progress
    then obtain j where j: "initialiser s j" using inv unfolding once_inv_def by auto
    have "i \<noteq> j" using Call(2) j unfolding initialiser_def by auto
    from initialiser_other [OF j this] show ?thesis using In_Progress unfolding Call(1) once_inv_def by auto
  next
    case Done
    then obtain a where "done_ok s a" using inv unfolding once_inv_def by auto
    then have "done_ok t a" unfolding Call(1) done_ok_def by auto
    then show ?thesis using Done unfolding once_inv_def by (auto simp: Call(1))
  qed (use inv in \<open>auto simp: Call(1) once_inv_def\<close>)
next
  case (First i)
  have "initialiser (s\<lparr>ponce := In_Progress, callers := (callers s)(i := New)\<rparr>) i"
    using inv First(3) unfolding once_inv_def initialiser_def by auto
  then show ?thesis unfolding First(1) once_inv_def by auto
next
  case (Later i)
  then obtain a where "done_ok s a" using inv unfolding once_inv_def by auto
  then have "done_ok t a" unfolding Later(1) done_ok_def by auto
  then show ?thesis using Later(3) unfolding once_inv_def by (auto simp: Later(1))
next
  case (Construct i a)
  have "ponce s = In_Progress \<and> initialiser s i" by (rule once_inv_init [OF inv]) (simp add: Construct)
  then show ?thesis unfolding Construct(1) once_inv_def initialiser_def by (auto simp: Construct(2) intro!: exI [of _ i])
next
  case (Store_Value i a)
  have "ponce s = In_Progress \<and> initialiser s i" by (rule once_inv_init [OF inv]) (simp add: Store_Value)
  then show ?thesis unfolding Store_Value(1) once_inv_def initialiser_def by (auto simp: Store_Value(2) intro!: exI [of _ i])
next
  case (Init i a)
  have "ponce s = In_Progress \<and> initialiser s i" by (rule once_inv_init [OF inv]) (simp add: Init)
  then show ?thesis unfolding Init(1) once_inv_def initialiser_def by (auto simp: Init(2,3) intro!: exI [of _ i])
next
  case (End i)
  have "ponce s = In_Progress \<and> initialiser s i" by (rule once_inv_init [OF inv]) (simp add: End)
  then show ?thesis unfolding End(1) once_inv_def initialiser_def done_ok_def by (auto simp: End(2))
next
  case (Return i)
  have "ponce s = Done" by (rule once_inv_away [OF inv, of i "Some 0"]) (simp add: Return)
  then show ?thesis using inv unfolding Return(1) once_inv_def done_ok_def by auto
qed

lemma once_reach_inv: "once_reach s \<Longrightarrow> once_inv s"
proof (induction rule: once_reach.induct)
  case Start
  then show ?case by (simp add: once_init_def once_inv_def)
next
  case (Step s t)
  then show ?case by (blast intro: once_inv_step)
qed

text \<open>Nobody is stuck: a thread in the call can go on, or the one in \<open>init\<close> can.\<close>

lemma once_progress:
  assumes inv: "once_inv s" and i: "callers s i \<noteq> Away" "\<forall>v. callers s i \<noteq> Have v"
  shows "\<exists>t j. once_step s t \<and> callers s j \<noteq> Away \<and> (\<forall>v. callers s j \<noteq> Have v) \<and> callers t j \<noteq> callers s j"
proof -
  have go: "\<exists>t. once_step s t \<and> callers t j \<noteq> callers s j" if ok: "init_ok s (callers s j)" for j
  proof (cases "callers s j")
    case New
    from Construct [OF this, of 0] show ?thesis using New by (metis fun_upd_same once_pc.distinct once_sys.select_convs(5) once_sys.surjective once_sys.update_convs(3,5))
  next
    case (Store a)
    from Store_Value [OF this] show ?thesis using Store by (intro exI conjI) auto
  next
    case Do_Init
    then obtain a where "single s = Some a" using ok unfolding Do_Init by auto
    from Init [OF Do_Init this] show ?thesis using Do_Init by (intro exI conjI) auto
  next
    case Finish
    from End [OF this] show ?thesis using Finish by (intro exI conjI) auto
  qed (use ok in auto)
  show ?thesis
  proof (cases "callers s i = Load")
    case True
    show ?thesis by (rule exI, rule exI [of _ i], intro conjI, rule Return [OF True]) (use True in auto)
  next
    case False
    show ?thesis
    proof (cases "ponce s")
      case Never
      then have o: "callers s i = Once" using inv i(1) unfolding once_inv_def by auto
      show ?thesis by (rule exI, rule exI [of _ i], intro conjI, rule First [OF o Never]) (use o in auto)
    next
      case In_Progress
      then obtain j where j: "initialiser s j" using inv unfolding once_inv_def by auto
      then have o: "init_ok s (callers s j)" unfolding initialiser_def by blast
      then have "callers s j \<noteq> Away" "\<forall>v. callers s j \<noteq> Have v" by auto
      with go [OF o] show ?thesis by blast
    next
      case Done
      then have o: "callers s i = Once" using inv i False unfolding once_inv_def done_ok_def by (auto dest!: spec [of _ i])
      show ?thesis by (rule exI, rule exI [of _ i], intro conjI, rule Later [OF o Done]) (use o in auto)
    qed
  qed
qed

section \<open>Mutex\<close>

text \<open>A recursive mutex: its owner and how often it holds it. Codes are those of pthread.\<close>

definition EBUSY :: int where "EBUSY = 16"
definition EPERM :: int where "EPERM = 1"
definition EDEADLK :: int where "EDEADLK = 35"

record pmutex =
  owner :: "nat option"
  depth :: nat

definition mutex_new :: pmutex where
  "mutex_new = \<lparr>owner = None, depth = 0\<rparr>"

definition mutex_trylock :: "nat \<Rightarrow> pmutex \<Rightarrow> int \<times> pmutex" where
  "mutex_trylock i m =
     (if owner m = None then (0, \<lparr>owner = Some i, depth = 1\<rparr>)
      else if owner m = Some i then (0, m\<lparr>depth := depth m + 1\<rparr>) else (EBUSY, m))"

text \<open>\<open>pthread_mutex_lock\<close> waits where \<open>pthread_mutex_trylock\<close> gives \<open>EBUSY\<close>.\<close>

definition mutex_lock :: "nat \<Rightarrow> pmutex \<Rightarrow> pmutex option" where
  "mutex_lock i m = (case mutex_trylock i m of (rc, m) \<Rightarrow> if rc = EBUSY then None else Some m)"

definition TryLock :: "nat \<Rightarrow> pmutex \<Rightarrow> bool \<times> pmutex" where
  "TryLock i m = (case mutex_trylock i m of (rc, m) \<Rightarrow> (rc \<noteq> EBUSY, m))"

definition mutex_unlock :: "nat \<Rightarrow> pmutex \<Rightarrow> int \<times> pmutex" where
  "mutex_unlock i m =
     (if owner m \<noteq> Some i then (EPERM, m)
      else if depth m = 1 then (0, mutex_new) else (0, m\<lparr>depth := depth m - 1\<rparr>))"

text \<open>\<open>MutexGuard\<close> and \<open>Guard<Lock>\<close>: the constructor locks, the destructor unlocks.\<close>

definition guard_scope :: "('l \<Rightarrow> 'l option) \<Rightarrow> ('l \<Rightarrow> 'l) \<Rightarrow> ('l \<times> 's \<Rightarrow> ('l \<times> 's) option) \<Rightarrow> 'l \<times> 's \<Rightarrow> ('l \<times> 's) option" where
  "guard_scope lock unlock body = (\<lambda>(l, s).
     Option.bind (lock l) (\<lambda>l. Option.bind (body (l, s)) (\<lambda>(l, s). Some (unlock l, s))))"

definition mutex_guard :: "nat \<Rightarrow> (pmutex \<times> 's \<Rightarrow> (pmutex \<times> 's) option) \<Rightarrow> pmutex \<times> 's \<Rightarrow> (pmutex \<times> 's) option" where
  "mutex_guard i = guard_scope (mutex_lock i) (\<lambda>m. snd (mutex_unlock i m))"

definition mutex_ok :: "pmutex \<Rightarrow> bool" where
  "mutex_ok m \<longleftrightarrow> (owner m = None \<longleftrightarrow> depth m = 0)"

lemma mutex_lock_unlock:
  "mutex_ok m \<Longrightarrow> mutex_lock i m = Some m' \<Longrightarrow> mutex_ok m' \<and> owner m' = Some i \<and> mutex_unlock i m' = (0, m)"
  by (cases m) (auto simp: mutex_ok_def mutex_lock_def mutex_trylock_def mutex_unlock_def mutex_new_def EBUSY_def split: if_splits)

text \<open>A guarded body that gives the mutex back as it got it runs iff no other thread holds it, and leaves it as it was.\<close>

lemma mutex_guard_restores:
  assumes "mutex_ok m" and body: "\<And>l s. owner l = Some i \<Longrightarrow> body (l, s) = Some (l, f s)"
  shows "mutex_guard i body (m, s)
    = (if owner m = None \<or> owner m = Some i then Some (m, f s) else None)"
proof (cases "mutex_lock i m")
  case None
  then show ?thesis by (auto simp: mutex_guard_def guard_scope_def mutex_lock_def mutex_trylock_def EBUSY_def split: if_splits)
next
  case (Some m')
  from mutex_lock_unlock [OF assms(1) Some] have u: "owner m' = Some i" "mutex_unlock i m' = (0, m)" by simp_all
  have "owner m = None \<or> owner m = Some i"
    using Some by (auto simp: mutex_lock_def mutex_trylock_def EBUSY_def split: if_splits)
  then show ?thesis using Some u body [OF u(1), of s] by (simp add: mutex_guard_def guard_scope_def)
qed

section \<open>Reader-writer lock\<close>

record rwlock =
  writer :: "nat option"
  readers :: nat

definition rwlock_new :: rwlock where
  "rwlock_new = \<lparr>writer = None, readers = 0\<rparr>"

text \<open>\<open>EDEADLK\<close> for the thread that holds the lock for writing; \<open>Unlock\<close> releases the write lock if the caller has it,
  else a read lock. POSIX leaves open what it does when the caller has none.\<close>

definition LockRead :: "nat \<Rightarrow> rwlock \<Rightarrow> (bool \<times> rwlock) option" where
  "LockRead i l =
     (case writer l of
        None \<Rightarrow> Some (True, l\<lparr>readers := readers l + 1\<rparr>)
      | Some j \<Rightarrow> if j = i then Some (False, l) else None)"

definition LockWrite :: "nat \<Rightarrow> rwlock \<Rightarrow> (bool \<times> rwlock) option" where
  "LockWrite i l =
     (case writer l of
        None \<Rightarrow> if readers l = 0 then Some (True, l\<lparr>writer := Some i\<rparr>) else None
      | Some j \<Rightarrow> if j = i then Some (False, l) else None)"

definition RWUnLock :: "nat \<Rightarrow> rwlock \<Rightarrow> bool \<times> rwlock" where
  "RWUnLock i l = (if writer l = Some i then (True, l\<lparr>writer := None\<rparr>) else (True, l\<lparr>readers := readers l - 1\<rparr>))"

text \<open>The guards do not look at what the calls return.\<close>

definition read_guard :: "nat \<Rightarrow> (rwlock \<times> 's \<Rightarrow> (rwlock \<times> 's) option) \<Rightarrow> rwlock \<times> 's \<Rightarrow> (rwlock \<times> 's) option" where
  "read_guard i = guard_scope (\<lambda>l. map_option snd (LockRead i l)) (\<lambda>l. snd (RWUnLock i l))"

definition write_guard :: "nat \<Rightarrow> (rwlock \<times> 's \<Rightarrow> (rwlock \<times> 's) option) \<Rightarrow> rwlock \<times> 's \<Rightarrow> (rwlock \<times> 's) option" where
  "write_guard i = guard_scope (\<lambda>l. map_option snd (LockWrite i l)) (\<lambda>l. snd (RWUnLock i l))"

text \<open>A guard inside the scope of a write guard of the same thread ends the write lock of the outer one.\<close>

lemma nested_guard_drops_lock:
  "writer l = Some i \<Longrightarrow> (\<And>l s. body (l, s) = Some (l, f s)) \<Longrightarrow> read_guard i body (l, s) = Some (l\<lparr>writer := None\<rparr>, f s)"
  by (simp add: read_guard_def guard_scope_def LockRead_def RWUnLock_def)

lemma write_guard_restores:
  assumes "writer l = None" and "readers l = 0" and "\<And>l s. body (l, s) = Some (l, f s)"
  shows "write_guard i body (l, s) = Some (l, f s)"
  using assms by (cases l) (simp add: write_guard_def guard_scope_def LockWrite_def RWUnLock_def)

section \<open>Condition\<close>

text \<open>\<open>WaitUntil\<close>: \<open>pthread_cond_timedwait\<close> is the argument; it takes the time up to which to wait.\<close>

definition WaitUntil :: "(timespec \<Rightarrow> 's \<Rightarrow> int \<times> 's) \<Rightarrow> int \<times> int \<Rightarrow> int \<Rightarrow> 's \<Rightarrow> bool \<times> 's" where
  "WaitUntil timedwait tv timeout_ms s = (case timedwait (MakeTimespec tv timeout_ms) s of (rc, s) \<Rightarrow> (rc = 0, s))"

section \<open>Atomic integers and pointers\<close>

definition atomic_set :: "'a \<Rightarrow> 'a \<Rightarrow> 'a" where
  "atomic_set v old = v"

definition counter_add :: "u32 \<Rightarrow> u32 \<Rightarrow> u32 \<times> u32" where
  "counter_add increment v = (v, v + increment)"

definition counter_sub :: "u32 \<Rightarrow> u32 \<Rightarrow> bool \<times> u32" where
  "counter_sub decrement v = (v - decrement \<noteq> 0, v - decrement)"

fun counter_subs :: "u32 list \<Rightarrow> u32 \<Rightarrow> bool list \<times> u32" where
  "counter_subs [] v = ([], v)"
| "counter_subs (d # ds) v = (let (b, v) = counter_sub d v; (bs, v) = counter_subs ds v in (b # bs, v))"

text \<open>
  As many holders as the counter says, each giving up one in any order: exactly the last one is told
  that the counter is zero.
\<close>

lemma last_one_told: "n < 2 ^ 32 \<Longrightarrow> 0 < n \<Longrightarrow> counter_subs (replicate n 1) (of_nat n) = (replicate (n - 1) True @ [False], 0)"
proof (induction n)
  case (Suc n)
  have e: "(of_nat (Suc n) :: u32) - 1 = of_nat n" by simp
  show ?case
  proof (cases "n = 0")
    case True
    then show ?thesis by (simp add: counter_sub_def)
  next
    case False
    have "\<not> 2 ^ 32 dvd n" using False Suc.prems(1) dvd_imp_le [of "2 ^ 32" n] by auto
    then have "(of_nat n :: u32) \<noteq> 0" by (simp add: word_of_nat_eq_0_iff)
    then have c: "counter_sub 1 (of_nat (Suc n)) = (True, of_nat n)" unfolding counter_sub_def e by simp
    have "counter_subs (replicate n 1) (of_nat n) = (replicate (n - 1) True @ [False], 0)"
      using Suc.IH Suc.prems(1) False by simp
    moreover have "replicate n True = True # replicate (n - 1) True" using False by (cases n) simp_all
    ultimately show ?thesis using c by (simp del: of_nat_Suc)
  qed
qed simp

section \<open>Properties\<close>

text \<open>
  C20. A singleton is made once: in every interleaving of calls of \<open>Instance\<close> from any threads at most one
  object is constructed, and whoever gets a result gets that object, after its \<open>doInit\<close> ran exactly once.
  And no call is stuck: as long as one is under way, some thread in the call can take a step.
\<close>

theorem singleton_made_once:
  assumes "once_reach s"
  shows "length (made s) \<le> 1 \<and> (\<forall>i v. callers s i = Have v \<longrightarrow> (\<exists>a. v = Some a \<and> made s = [a] \<and> inited s = [a]))
    \<and> ((\<exists>i. callers s i \<noteq> Away \<and> (\<forall>v. callers s i \<noteq> Have v))
      \<longrightarrow> (\<exists>t j. once_step s t \<and> callers s j \<noteq> Away \<and> (\<forall>v. callers s j \<noteq> Have v) \<and> callers t j \<noteq> callers s j))"
proof (intro conjI allI impI)
  have inv: "once_inv s" by (rule once_reach_inv [OF assms])
  show "length (made s) \<le> 1"
  proof (cases "ponce s")
    case In_Progress
    then obtain j where "initialiser s j" using inv unfolding once_inv_def by auto
    then have "init_ok s (callers s j)" unfolding initialiser_def by blast
    then show ?thesis by (cases "callers s j") auto
  qed (use inv in \<open>auto simp: once_inv_def done_ok_def\<close>)
  show "\<exists>a. v = Some a \<and> made s = [a] \<and> inited s = [a]" if h: "callers s i = Have v" for i v
  proof -
    have "ponce s = Done" by (rule once_inv_away [OF inv, of i v]) (simp add: h)
    then obtain a where a: "done_ok s a" using inv unfolding once_inv_def by auto
    then have "v = Some a" using h unfolding done_ok_def by (auto dest!: spec [of _ i])
    then show ?thesis using a unfolding done_ok_def by simp
  qed
  show "\<exists>t j. once_step s t \<and> callers s j \<noteq> Away \<and> (\<forall>v. callers s j \<noteq> Have v) \<and> callers t j \<noteq> callers s j"
    if "\<exists>i. callers s i \<noteq> Away \<and> (\<forall>v. callers s i \<noteq> Have v)"
    using once_progress [OF inv] that by blast
qed

text \<open>Two threads call at once; the second one waits, and both get the object of the first.\<close>

definition once_run :: once_sys where
  "once_run = \<lparr>ponce = Done, single = Some 9, made = [9], inited = [9],
     callers = (\<lambda>_. Away)(0 := Have (Some 9), 1 := Have (Some 9))\<rparr>"

lemma once_run_reach: "once_reach once_run"
proof -
  let ?s = "\<lambda>f v m n c d. \<lparr>ponce = f, single = v, made = m, inited = n, callers = (\<lambda>_. Away)(0 := c, 1 := d)\<rparr>"
  have "once_reach (?s Never None [] [] Away Away)"
    using once_reach.Start by (simp add: once_init_def fun_upd_idem)
  then have "once_reach (?s Never None [] [] Once Away)"
    by (rule once_reach.Step) (use once_step.Call [of "?s Never None [] [] Away Away" 0 None] in \<open>simp add: fun_upd_twist\<close>)
  then have "once_reach (?s Never None [] [] Once Once)"
    by (rule once_reach.Step) (use once_step.Call [of "?s Never None [] [] Once Away" 1 None] in \<open>simp add: fun_upd_twist\<close>)
  then have "once_reach (?s In_Progress None [] [] New Once)"
    by (rule once_reach.Step) (use once_step.First [of "?s Never None [] [] Once Once" 0] in \<open>simp add: fun_upd_twist\<close>)
  then have "once_reach (?s In_Progress None [9] [] (Store 9) Once)"
    by (rule once_reach.Step) (use once_step.Construct [of "?s In_Progress None [] [] New Once" 0 9] in \<open>simp add: fun_upd_twist\<close>)
  then have "once_reach (?s In_Progress (Some 9) [9] [] Do_Init Once)"
    by (rule once_reach.Step) (use once_step.Store_Value [of "?s In_Progress None [9] [] (Store 9) Once" 0 9] in \<open>simp add: fun_upd_twist\<close>)
  then have "once_reach (?s In_Progress (Some 9) [9] [9] Finish Once)"
    by (rule once_reach.Step) (use once_step.Init [of "?s In_Progress (Some 9) [9] [] Do_Init Once" 0 9] in \<open>simp add: fun_upd_twist\<close>)
  then have "once_reach (?s Done (Some 9) [9] [9] Load Once)"
    by (rule once_reach.Step) (use once_step.End [of "?s In_Progress (Some 9) [9] [9] Finish Once" 0] in \<open>simp add: fun_upd_twist\<close>)
  then have "once_reach (?s Done (Some 9) [9] [9] Load Load)"
    by (rule once_reach.Step) (use once_step.Later [of "?s Done (Some 9) [9] [9] Load Once" 1] in \<open>simp add: fun_upd_twist\<close>)
  then have "once_reach (?s Done (Some 9) [9] [9] (Have (Some 9)) Load)"
    by (rule once_reach.Step) (use once_step.Return [of "?s Done (Some 9) [9] [9] Load Load" 0] in \<open>simp add: fun_upd_twist\<close>)
  then have "once_reach (?s Done (Some 9) [9] [9] (Have (Some 9)) (Have (Some 9)))"
    by (rule once_reach.Step) (use once_step.Return [of "?s Done (Some 9) [9] [9] (Have (Some 9)) Load" 1] in \<open>simp add: fun_upd_twist\<close>)
  then show ?thesis by (simp add: once_run_def)
qed

theorem singleton_made_once_witness:
  "once_reach once_run \<and> callers once_run 1 = Have (Some 9) \<and> inited once_run = [9]"
proof -
  have h: "callers once_run 1 = Have (Some 9)" by (simp add: once_run_def)
  from singleton_made_once [OF once_run_reach, THEN conjunct2, THEN conjunct1, rule_format, OF h]
  show ?thesis using once_run_reach h by auto
qed

end
