(* ===== verification/Murmur.thy ===== *)
theory Murmur
  imports Bytes
begin

text \<open>
  \<open>src/base/hash.cc\<close>: MurmurHash64A with the fixed seed of \<open>HashBytes\<close>, through which
  \<open>HashString\<close> (\<open>src/util/string.cc\<close>) turns the full name of a protobuf method into the
  method id that travels in every packet.
\<close>

definition kServerKitHashSeed :: u64 where
  "kServerKitHashSeed = 0xbeef"

definition murmur_m :: u64 where
  "murmur_m = 0xc6a4a7935bd1e995"

definition murmur_r :: nat where
  "murmur_r = 47"

text \<open>The three statements on \<open>k\<close> in the body of the loop, and the two on \<open>h\<close>.\<close>

definition murmur_k :: "u64 \<Rightarrow> u64" where
  "murmur_k k = (let k = k * murmur_m; k = k XOR drop_bit murmur_r k; k = k * murmur_m in k)"

definition murmur_step :: "u64 \<Rightarrow> u64 \<Rightarrow> u64" where
  "murmur_step h k = (let h = h XOR murmur_k k; h = h * murmur_m in h)"

text \<open>\<open>while (data != end)\<close>: one 64-bit load per iteration; the rest of the key is returned.\<close>

fun murmur_blocks :: "byte list \<Rightarrow> u64 \<Rightarrow> u64 \<times> byte list" where
  "murmur_blocks key h =
     (if 8 \<le> length key then murmur_blocks (drop 8 key) (murmur_step h (load64 key))
      else (h, key))"

declare murmur_blocks.simps [simp del]

text \<open>
  The \<open>switch (len & 7)\<close>: its cases fall through, and the multiplication belongs to \<open>case 1\<close>,
  which every non-empty tail reaches.
\<close>

definition tail_case :: "byte list \<Rightarrow> nat \<Rightarrow> nat \<Rightarrow> u64 \<Rightarrow> u64" where
  "tail_case t n s h = (if n \<le> length t then h XOR push_bit s (ucast (t ! (n - 1))) else h)"

definition murmur_tail :: "byte list \<Rightarrow> u64 \<Rightarrow> u64" where
  "murmur_tail t h =
     (let h = tail_case t 7 48 h; h = tail_case t 6 40 h; h = tail_case t 5 32 h;
          h = tail_case t 4 24 h; h = tail_case t 3 16 h; h = tail_case t 2 8 h;
          h = tail_case t 1 0 h
      in if 1 \<le> length t then h * murmur_m else h)"

definition murmur_final :: "u64 \<Rightarrow> u64" where
  "murmur_final h =
     (let h = h XOR drop_bit murmur_r h; h = h * murmur_m; h = h XOR drop_bit murmur_r h in h)"

text \<open>\<open>len\<close> is the length of the key; the product \<open>len * m\<close> is taken modulo \<open>2 ^ 64\<close>.\<close>

definition MurmurHash64A :: "byte list \<Rightarrow> u64 \<Rightarrow> u64" where
  "MurmurHash64A key seed =
     (let h = seed XOR (word_of_nat (length key) * murmur_m);
          (h, t) = murmur_blocks key h
      in murmur_final (murmur_tail t h))"

definition HashBytes :: "byte list \<Rightarrow> u64" where
  "HashBytes data = MurmurHash64A data kServerKitHashSeed"

definition HashString :: "byte list \<Rightarrow> u64" where
  "HashString str = HashBytes str"

section \<open>Each step loses nothing\<close>

text \<open>The multiplier is odd; this is its inverse modulo \<open>2 ^ 64\<close>.\<close>

definition murmur_inv :: u64 where
  "murmur_inv = 0x5f7a0ea7e59b19bd"

lemma murmur_inv: "murmur_m * murmur_inv = 1"
  by (simp add: murmur_m_def murmur_inv_def)

lemma mult_m_inject [simp]: "x * murmur_m = y * murmur_m \<longleftrightarrow> x = y"
proof
  assume "x * murmur_m = y * murmur_m"
  then have "x * (murmur_m * murmur_inv) = y * (murmur_m * murmur_inv)"
    by (simp add: mult.assoc [symmetric])
  then show "x = y" by (simp add: murmur_inv)
qed simp

lemma xor_shift_inject [simp]:
  "x XOR drop_bit murmur_r x = y XOR drop_bit murmur_r y \<longleftrightarrow> x = (y :: u64)"
proof
  have inv: "(z XOR drop_bit murmur_r z) XOR drop_bit murmur_r (z XOR drop_bit murmur_r z) = z" for z :: u64
  proof -
    have "drop_bit murmur_r (drop_bit murmur_r z) = 0"
      by (simp add: murmur_r_def drop_bit_word_beyond)
    then have "drop_bit murmur_r (z XOR drop_bit murmur_r z) = drop_bit murmur_r z"
      by (simp only: drop_bit_xor xor.right_neutral)
    then show ?thesis by (simp only: xor.assoc xor_self_eq xor.right_neutral)
  qed
  assume "x XOR drop_bit murmur_r x = y XOR drop_bit murmur_r y"
  then show "x = y" using inv [of x] inv [of y] by simp
qed simp

lemma xor_right_inject: "x XOR z = y XOR z \<longleftrightarrow> x = (y :: u64)"
proof
  have c: "(w XOR z) XOR z = w" for w :: u64
    by (simp only: xor.assoc xor_self_eq xor.right_neutral)
  assume "x XOR z = y XOR z"
  then have "(x XOR z) XOR z = (y XOR z) XOR z" by (simp only:)
  then show "x = y" by (simp only: c)
qed simp

lemma xor_left_inject: "z XOR x = z XOR y \<longleftrightarrow> x = (y :: u64)"
  by (simp only: xor.commute [of z] xor_right_inject)

lemma murmur_k_inject [simp]: "murmur_k x = murmur_k y \<longleftrightarrow> x = y"
  by (simp only: murmur_k_def Let_def mult_m_inject xor_shift_inject)

lemma murmur_step_inject_h [simp]: "murmur_step h k = murmur_step h' k \<longleftrightarrow> h = h'"
  by (simp only: murmur_step_def Let_def mult_m_inject xor_right_inject)

lemma murmur_step_inject_k [simp]: "murmur_step h k = murmur_step h k' \<longleftrightarrow> k = k'"
  by (simp only: murmur_step_def Let_def mult_m_inject xor_left_inject murmur_k_inject)

lemma murmur_final_inject [simp]: "murmur_final x = murmur_final y \<longleftrightarrow> x = y"
  by (simp only: murmur_final_def Let_def mult_m_inject xor_shift_inject)

section \<open>The tail\<close>

text \<open>The bytes the tail cases xor in, as one word.\<close>

fun tail_word :: "byte list \<Rightarrow> u64" where
  "tail_word [] = 0"
| "tail_word (b # bs) = ucast b XOR push_bit 8 (tail_word bs)"

lemma ucast_xor_push: "(ucast (b :: byte) :: u64) XOR push_bit 8 w = ucast b + push_bit 8 w"
  by (rule disjunctive_add_eq_xor [symmetric])
    (auto simp: bit_eq_iff bit_simps dest: bit_imp_le_length)

lemma tail_word_le_val: "tail_word t = word_of_nat (le_val t)"
proof (induction t)
  case (Cons b t)
  have "tail_word (b # t) = ucast b + push_bit 8 (tail_word t)"
    unfolding tail_word.simps by (rule ucast_xor_push)
  also have "\<dots> = word_of_nat (unat b) + 256 * word_of_nat (le_val t)"
    by (simp add: Cons push_bit_eq_mult of_nat_unat)
  finally show ?case by simp
qed simp

lemma tail_word_inject:
  assumes "length s = length t" and "length t < 8" and "tail_word s = tail_word t"
  shows "s = t"
proof -
  have "(256 :: nat) ^ length t \<le> 256 ^ 8" using assms(2) by (intro power_increasing) auto
  then have "le_val s < 2 ^ 64" "le_val t < 2 ^ 64"
    using le_val_less [of s] le_val_less [of t] assms(1) by auto
  then have "unat (tail_word s) = le_val s" "unat (tail_word t) = le_val t"
    by (simp_all only: tail_word_le_val unat_of_nat_u64)
  then have "le_val s = le_val t" using assms(3) by (simp only:)
  then show ?thesis using assms(1) by (intro le_val_inject)
qed

lemma murmur_tail_word:
  assumes "length t < 8"
  shows "murmur_tail t h = (if t = [] then h else (h XOR tail_word t) * murmur_m)"
proof -
  consider "t = []" | a where "t = [a]" | a b where "t = [a, b]" | a b c where "t = [a, b, c]"
    | a b c d where "t = [a, b, c, d]" | a b c d e where "t = [a, b, c, d, e]"
    | a b c d e f where "t = [a, b, c, d, e, f]"
    | a b c d e f g where "t = [a, b, c, d, e, f, g]"
  proof -
    have "length t = 0 \<or> length t = 1 \<or> length t = 2 \<or> length t = 3 \<or> length t = 4
      \<or> length t = 5 \<or> length t = 6 \<or> length t = 7"
      using assms by linarith
    then show ?thesis
      using that by (auto simp: length_Suc_conv eval_nat_numeral)
  qed
  then show ?thesis
    by cases (simp_all add: murmur_tail_def tail_case_def Let_def push_bit_xor
        xor.assoc xor.commute xor.left_commute)
qed

lemma murmur_tail_inject_h:
  "length t < 8 \<Longrightarrow> murmur_tail t h = murmur_tail t h' \<longleftrightarrow> h = h'"
  by (simp add: murmur_tail_word xor_right_inject)

lemma murmur_tail_inject_t:
  assumes "length s = length t" and "length t < 8" and "murmur_tail s h = murmur_tail t h"
  shows "s = t"
proof (cases "t = []")
  case False
  then have "s \<noteq> []" using assms(1) by auto
  then have "tail_word s = tail_word t"
    using assms False by (simp add: murmur_tail_word xor_left_inject)
  with assms(1,2) show ?thesis by (rule tail_word_inject)
qed (use assms in simp)

section \<open>The blocks\<close>

lemma murmur_blocks_rest: "snd (murmur_blocks k h) = drop (8 * (length k div 8)) k"
proof (induction k h rule: murmur_blocks.induct)
  case (1 key h)
  show ?case
  proof (cases "8 \<le> length key")
    case True
    then have "8 + 8 * ((length key - 8) div 8) = 8 * (length key div 8)"
      by (simp add: le_div_geq)
    then show ?thesis using True 1 by (simp add: murmur_blocks.simps [of key] add.commute)
  qed (simp add: murmur_blocks.simps [of key])
qed

lemma murmur_blocks_inject_h: "fst (murmur_blocks k h) = fst (murmur_blocks k h') \<longleftrightarrow> h = h'"
proof (induction k h arbitrary: h' rule: murmur_blocks.induct)
  case (1 key h)
  then show ?case
    by (cases "8 \<le> length key") (simp_all add: murmur_blocks.simps [of key])
qed

lemma murmur_blocks_append:
  "8 dvd length p \<Longrightarrow> murmur_blocks (p @ s) h = murmur_blocks s (fst (murmur_blocks p h))"
proof (induction p h rule: murmur_blocks.induct)
  case (1 key h)
  show ?case
  proof (cases "8 \<le> length key")
    case True
    then have "load64 (key @ s) = load64 key" by (simp add: load64_def)
    moreover have "8 dvd length (drop 8 key)" using 1(2) True by (simp add: dvd_diff_nat)
    ultimately show ?thesis
      using True 1(1) by (simp add: murmur_blocks.simps [of key] murmur_blocks.simps [of "key @ s"])
  next
    case False
    then have "key = []" using 1(2) by (cases key) (auto dest: dvd_imp_le)
    then show ?thesis by (simp add: murmur_blocks.simps [of "[]"])
  qed
qed

text \<open>Keys that lead to the same state before the same suffix collide, and only those.\<close>

lemma MurmurHash64A_blocks:
  assumes "8 dvd length p" and "length p = length q"
  shows "MurmurHash64A (p @ s) seed = MurmurHash64A (q @ s) seed
    \<longleftrightarrow> fst (murmur_blocks p (seed XOR (word_of_nat (length (p @ s)) * murmur_m)))
      = fst (murmur_blocks q (seed XOR (word_of_nat (length (p @ s)) * murmur_m)))"
proof -
  have "8 dvd length q" using assms by simp
  moreover have "length (drop (8 * (length s div 8)) s) < 8" by (simp add: minus_mult_div_eq_mod)
  ultimately show ?thesis
    using assms
    by (simp add: MurmurHash64A_def Let_def split_beta murmur_blocks_append murmur_blocks_rest
        murmur_tail_inject_h murmur_blocks_inject_h)
qed

section \<open>Properties\<close>

text \<open>
  Two keys that differ in one aligned 8-byte block, and agree before and after it, never
  collide.
\<close>
lemma murmur_block_injective:
  assumes "8 dvd length p" and "length b = 8" and "length b' = 8"
    and "MurmurHash64A (p @ b @ s) seed = MurmurHash64A (p @ b' @ s) seed"
  shows "b = b'"
proof -
  have eq: "fst (murmur_blocks (p @ b) h) = fst (murmur_blocks (p @ b') h)"
    if "h = seed XOR (word_of_nat (length ((p @ b) @ s)) * murmur_m)" for h
    using assms MurmurHash64A_blocks [of "p @ b" "p @ b'" s seed] that by (auto simp: dvd_add)
  have one: "murmur_blocks c h = (murmur_step h (load64 c), [])" if "length c = 8" for c h
    using that by (simp add: murmur_blocks.simps [of c] murmur_blocks.simps [of "[]"])
  have "load64 b = load64 b'"
    using eq [OF refl] assms(1-3) by (simp add: murmur_blocks_append one)
  then show ?thesis using assms(2,3) by (intro load64_inject)
qed

lemma murmur_block_injective_witness:
  "replicate 8 1 = (replicate 8 1 :: byte list)"
  by (rule murmur_block_injective [of "[]" _ _ "[]" 0]) simp_all

text \<open>
  Two keys of the same length that differ only in the last, incomplete block never collide;
  in particular no two names of the same length below eight bytes share a method id.
\<close>
lemma murmur_tail_injective:
  assumes "8 dvd length p" and "length t = length t'" and "length t < 8"
    and "MurmurHash64A (p @ t) seed = MurmurHash64A (p @ t') seed"
  shows "t = t'"
proof -
  have short: "murmur_blocks c h = (h, c)" if "length c < 8" for c h
    using that by (simp add: murmur_blocks.simps [of c])
  show ?thesis
    using assms
    by (auto simp: MurmurHash64A_def Let_def murmur_blocks_append short intro: murmur_tail_inject_t)
qed

lemma murmur_tail_injective_witness:
  "[1, 2, 3] = ([1, 2, 3] :: byte list)"
  by (rule murmur_tail_injective [of "[]" _ _ 0]) simp_all

end
