(* ===== verification/Object_Pool.thy ===== *)
theory Object_Pool
  imports Heap
begin

text \<open>
  \<open>src/base/object_pool.h\<close>: \<open>ObjectList\<close>, the free list of preallocated objects behind
  \<open>GetObject\<close> and \<open>FreeObject\<close>. The pool is \<open>thread_local\<close> in the code; a state of the model is
  the pool of the running thread together with the store its objects live in. The type
  parameter's default constructor and \<open>Reset()\<close> are arguments (\<open>fresh\<close>, \<open>reset\<close>).
\<close>

record 'a pool =
  store :: "'a heap"
  free_list :: "addr list"

definition kAllocObjectNumber :: nat where
  "kAllocObjectNumber = 100"

text \<open>\<open>ObjectList::allocate\<close>: the loop of \<open>new T()\<close> and \<open>push_back\<close>.\<close>

fun pool_allocate_n :: "nat \<Rightarrow> 'a \<Rightarrow> 'a pool \<Rightarrow> 'a pool" where
  "pool_allocate_n 0 fresh p = p"
| "pool_allocate_n (Suc n) fresh p =
     (let (a, h) = heap_alloc fresh (store p)
      in pool_allocate_n n fresh \<lparr>store = h, free_list = free_list p @ [a]\<rparr>)"

definition pool_allocate :: "'a \<Rightarrow> 'a pool \<Rightarrow> 'a pool" where
  "pool_allocate fresh p = pool_allocate_n kAllocObjectNumber fresh p"

definition pool_init :: "'a \<Rightarrow> 'a pool" where
  "pool_init fresh = pool_allocate fresh \<lparr>store = heap_empty, free_list = []\<rparr>"

text \<open>\<open>ObjectList::Get\<close>; the pointers of the list are never \<open>NULL\<close>, so the \<open>ASSERT\<close> holds.\<close>

definition pool_get :: "'a \<Rightarrow> 'a pool \<Rightarrow> addr \<times> 'a pool" where
  "pool_get fresh p =
     (let p = (if free_list p = [] then pool_allocate fresh p else p)
      in (hd (free_list p), p\<lparr>free_list := tl (free_list p)\<rparr>))"

text \<open>\<open>ObjectList::Free\<close>: \<open>ASSERT (obj != NULL)\<close>, \<open>obj->Reset ()\<close>, \<open>push_back\<close>.\<close>

definition pool_free :: "('a \<Rightarrow> 'a) \<Rightarrow> ptr \<Rightarrow> 'a pool \<Rightarrow> 'a pool res" where
  "pool_free reset obj p =
     (if obj = Null then Inl Assert_Failed
      else bindR (deref obj) (\<lambda>a. bindR (ptr_upd obj reset (store p))
        (\<lambda>h. Inr \<lparr>store = h, free_list = free_list p @ [a]\<rparr>)))"

text \<open>\<open>~ObjectList\<close>: every listed object is deleted.\<close>

fun pool_delete_all :: "addr list \<Rightarrow> 'a heap \<Rightarrow> 'a heap res" where
  "pool_delete_all [] h = Inr h"
| "pool_delete_all (a # as) h = bindR (heap_free a h) (\<lambda>h. pool_delete_all as h)"

definition pool_destroy :: "'a pool \<Rightarrow> 'a heap res" where
  "pool_destroy p = pool_delete_all (free_list p) (store p)"

section \<open>Well-formed pools\<close>

text \<open>The free list has no duplicates and holds allocated objects only.\<close>

definition pool_wf :: "'a pool \<Rightarrow> bool" where
  "pool_wf p \<longleftrightarrow> heap_wf (store p) \<and> distinct (free_list p)
     \<and> set (free_list p) \<subseteq> dom (cells (store p))"

text \<open>\<open>pool_in_use p\<close>: the objects handed out and not yet returned.\<close>

definition pool_in_use :: "'a pool \<Rightarrow> addr set" where
  "pool_in_use p = dom (cells (store p)) - set (free_list p)"

text \<open>
  \<open>pool_ext p q\<close>: the step from \<open>p\<close> to \<open>q\<close> left every object in use in \<open>p\<close> as it was.
\<close>

definition pool_ext :: "addr set \<Rightarrow> 'a pool \<Rightarrow> 'a pool \<Rightarrow> bool" where
  "pool_ext A p q \<longleftrightarrow> (\<forall>a \<in> pool_in_use p - A. a \<in> pool_in_use q
     \<and> cells (store q) a = cells (store p) a)"

lemma pool_allocate_n_props:
  "pool_wf p \<Longrightarrow> pool_wf (pool_allocate_n n fresh p)
     \<and> (\<exists>new. free_list (pool_allocate_n n fresh p) = free_list p @ new \<and> length new = n
          \<and> set new \<inter> dom (cells (store p)) = {}
          \<and> cells (store (pool_allocate_n n fresh p))
              = (\<lambda>a. if a \<in> set new then Some fresh else cells (store p) a))"
proof (induction n arbitrary: p)
  case 0
  then show ?case by simp
next
  case (Suc n)
  obtain a h where al: "heap_alloc fresh (store p) = (a, h)" by fastforce
  let ?q = "\<lparr>store = h, free_list = free_list p @ [a]\<rparr>"
  have fr: "cells (store p) a = None" and ce: "cells h = (cells (store p))(a \<mapsto> fresh)"
    using Suc.prems al heap_alloc_fresh heap_alloc_cells by (auto simp: pool_wf_def)
  have wq: "pool_wf ?q"
    using Suc.prems al fr ce heap_wf_alloc [of "store p" fresh a h]
    by (fastforce simp: pool_wf_def)
  from Suc.IH [OF wq] obtain new where
    new: "free_list (pool_allocate_n n fresh ?q) = free_list ?q @ new" "length new = n"
      "set new \<inter> dom (cells (store ?q)) = {}"
      "cells (store (pool_allocate_n n fresh ?q))
         = (\<lambda>a. if a \<in> set new then Some fresh else cells (store ?q) a)"
    and w: "pool_wf (pool_allocate_n n fresh ?q)"
    by blast
  show ?case
    using new w ce fr by (intro conjI exI [of _ "a # new"]) (auto simp: al fun_eq_iff)
qed

lemma pool_allocate_wf: "pool_wf p \<Longrightarrow> pool_wf (pool_allocate fresh p)"
  by (simp add: pool_allocate_def pool_allocate_n_props)

lemma pool_wf_init: "pool_wf (pool_init fresh)"
  unfolding pool_init_def by (rule pool_allocate_wf) (simp add: pool_wf_def)

lemma pool_allocate_nonempty: "pool_wf p \<Longrightarrow> free_list (pool_allocate fresh p) \<noteq> []"
  using pool_allocate_n_props [of p kAllocObjectNumber fresh]
  by (auto simp: pool_allocate_def kAllocObjectNumber_def)

lemma pool_allocate_ext:
  assumes "pool_wf p"
  shows "pool_ext {} p (pool_allocate fresh p)
    \<and> pool_in_use (pool_allocate fresh p) = pool_in_use p"
proof -
  obtain new where
    new: "free_list (pool_allocate fresh p) = free_list p @ new"
      "set new \<inter> dom (cells (store p)) = {}"
      "cells (store (pool_allocate fresh p))
         = (\<lambda>a. if a \<in> set new then Some fresh else cells (store p) a)"
    using pool_allocate_n_props [OF assms, of kAllocObjectNumber fresh]
    by (auto simp: pool_allocate_def)
  have iu: "pool_in_use (pool_allocate fresh p) = pool_in_use p"
    using new by (auto simp: pool_in_use_def dom_def)
  show ?thesis
    using new iu by (auto simp: pool_ext_def pool_in_use_def dom_def)
qed

text \<open>
  What \<open>Get\<close> promises: an object nobody holds, all objects in use untouched.
\<close>

lemma pool_get_props:
  assumes "pool_wf p" and "pool_get fresh p = (a, q)"
  shows "pool_wf q \<and> a \<notin> pool_in_use p \<and> pool_in_use q = insert a (pool_in_use p)
    \<and> pool_ext {} p q"
proof -
  define r where "r = (if free_list p = [] then pool_allocate fresh p else p)"
  have r: "pool_wf r" "free_list r \<noteq> []" "pool_in_use r = pool_in_use p" "pool_ext {} p r"
    using assms(1) pool_allocate_wf [OF assms(1)] pool_allocate_nonempty [OF assms(1)]
      pool_allocate_ext [OF assms(1)]
    by (auto simp: r_def pool_ext_def)
  have a: "a = hd (free_list r)" and q: "q = r\<lparr>free_list := tl (free_list r)\<rparr>"
    using assms(2) by (auto simp: pool_get_def r_def Let_def)
  obtain as where fl: "free_list r = a # as" using r(2) a by (cases "free_list r") auto
  have "pool_wf q" using r(1) fl q by (auto simp: pool_wf_def)
  moreover have "pool_in_use q = insert a (pool_in_use r)" and "a \<notin> pool_in_use r"
    using r(1) fl q by (auto simp: pool_in_use_def pool_wf_def)
  moreover have "pool_ext {} p q"
    using r fl q by (auto simp: pool_ext_def pool_in_use_def)
  ultimately show ?thesis using r(3) by simp
qed

lemma pool_free_props:
  assumes "pool_wf p" and "a \<in> pool_in_use p"
  shows "\<exists>q. pool_free reset (At a) p = Inr q \<and> pool_wf q
    \<and> pool_in_use q = pool_in_use p - {a} \<and> pool_ext {a} p q"
proof -
  obtain v where v: "cells (store p) a = Some v" and nf: "a \<notin> set (free_list p)"
    using assms(2) by (auto simp: pool_in_use_def)
  let ?q = "\<lparr>store = (store p)\<lparr>cells := (cells (store p))(a \<mapsto> reset v)\<rparr>,
    free_list = free_list p @ [a]\<rparr>"
  have "pool_free reset (At a) p = Inr ?q" using v by (simp add: pool_free_def)
  moreover have "pool_wf ?q"
    using assms(1) v nf heap_put_wf [of "store p" a v "reset v"] by (auto simp: pool_wf_def)
  moreover have "pool_in_use ?q = pool_in_use p - {a}"
    by (auto simp: pool_in_use_def)
  moreover have "pool_ext {a} p ?q"
    by (auto simp: pool_ext_def pool_in_use_def)
  ultimately show ?thesis by blast
qed

text \<open>Updating an object in use keeps the pool well formed.\<close>

lemma pool_upd_wf:
  assumes "pool_wf p" and "cells (store p) a = Some v"
  shows "pool_wf (p\<lparr>store := (store p)\<lparr>cells := (cells (store p))(a \<mapsto> w)\<rparr>\<rparr>)"
  using assms heap_put_wf [of "store p" a v w] by (auto simp: pool_wf_def)

lemma pool_ext_trans:
  "pool_ext A p q \<Longrightarrow> pool_ext A q r \<Longrightarrow> pool_ext A p r"
  by (auto simp: pool_ext_def)

lemma pool_ext_mono: "pool_ext A p q \<Longrightarrow> A \<subseteq> B \<Longrightarrow> pool_ext B p q"
  by (auto simp: pool_ext_def)

text \<open>
  \<open>moved A p B q\<close>: the owner of the objects \<open>A\<close> changed the pool from \<open>p\<close> to \<open>q\<close> and owns
  \<open>B\<close> afterwards; everything else that was in use is in use and unchanged, and \<open>B\<close> was his or
  free. Two owners of disjoint objects can so step independently.
\<close>

definition moved :: "addr set \<Rightarrow> 'a pool \<Rightarrow> addr set \<Rightarrow> 'a pool \<Rightarrow> bool" where
  "moved A p B q \<longleftrightarrow> pool_ext A p q \<and> B \<subseteq> A \<union> - pool_in_use p"

lemma moved_refl: "moved A p A p"
  by (simp add: moved_def pool_ext_def)

lemma moved_trans: "moved A p B q \<Longrightarrow> moved B q C r \<Longrightarrow> moved A p C r"
proof -
  assume a: "moved A p B q" and b: "moved B q C r"
  have "a \<in> pool_in_use r \<and> cells (store r) a = cells (store p) a"
    if "a \<in> pool_in_use p - A" for a
  proof -
    from a that have 1: "a \<in> pool_in_use q" "cells (store q) a = cells (store p) a" "a \<notin> B"
      by (auto simp: moved_def pool_ext_def)
    with b show ?thesis by (auto simp: moved_def pool_ext_def)
  qed
  moreover have "C \<subseteq> A \<union> - pool_in_use p"
    using a b by (auto simp: moved_def pool_ext_def subset_iff)
  ultimately show ?thesis by (simp add: moved_def pool_ext_def)
qed

lemma moved_disjoint:
  "moved A p B q \<Longrightarrow> D \<subseteq> pool_in_use p \<Longrightarrow> A \<inter> D = {} \<Longrightarrow> B \<inter> D = {} \<and> D \<subseteq> pool_in_use q"
  unfolding moved_def pool_ext_def by blast

lemma moved_cells:
  "moved A p B q \<Longrightarrow> a \<in> pool_in_use p \<Longrightarrow> a \<notin> A \<Longrightarrow> cells (store q) a = cells (store p) a"
  unfolding moved_def pool_ext_def by blast

lemma pool_ext_refl [simp]: "pool_ext A p p"
  by (simp add: pool_ext_def)

text \<open>A property of every object of the pool, in use or free.\<close>

definition pool_all :: "('a \<Rightarrow> bool) \<Rightarrow> 'a pool \<Rightarrow> bool" where
  "pool_all Q p \<longleftrightarrow> (\<forall>a v. cells (store p) a = Some v \<longrightarrow> Q v)"

lemma pool_allI: "(\<And>a v. cells (store p) a = Some v \<Longrightarrow> Q v) \<Longrightarrow> pool_all Q p"
  by (simp add: pool_all_def)

lemma pool_allD: "pool_all Q p \<Longrightarrow> cells (store p) a = Some v \<Longrightarrow> Q v"
  by (simp add: pool_all_def)

lemma pool_all_get:
  assumes "pool_wf p" and "pool_all Q p" and "Q fresh" and "pool_get fresh p = (a, q)"
  shows "pool_all Q q"
proof -
  have "pool_all Q (pool_allocate fresh p)"
    using assms(2,3) pool_allocate_n_props [OF assms(1), of kAllocObjectNumber fresh]
    by (auto simp: pool_all_def pool_allocate_def split: if_splits)
  then show ?thesis
    using assms(2,4) by (auto simp: pool_get_def Let_def pool_all_def split: if_splits)
qed

lemma pool_all_free:
  assumes "pool_all Q p" and "\<And>v. Q v \<Longrightarrow> Q (reset v)" and "pool_free reset obj p = Inr q"
  shows "pool_all Q q"
proof -
  from assms(3) obtain a v where obj: "obj = At a" and v: "cells (store p) a = Some v"
    and q: "q = \<lparr>store = (store p)\<lparr>cells := (cells (store p))(a \<mapsto> reset v)\<rparr>,
      free_list = free_list p @ [a]\<rparr>"
    by (cases obj) (auto simp: pool_free_def ptr_upd_def heap_put_def res_simps
        split: if_splits option.splits)
  show ?thesis unfolding q using assms(1,2) v by (auto simp: pool_all_def)
qed

lemma pool_wf_empty: "pool_wf \<lparr>store = heap_empty, free_list = []\<rparr>"
  by (simp add: pool_wf_def)

lemma cells_heap_empty [simp]: "cells heap_empty a = None"
  by (simp add: heap_empty_def)

lemma pool_all_init: "Q fresh \<Longrightarrow> pool_all Q (pool_init fresh)"
  using pool_allocate_n_props [OF pool_wf_empty, of kAllocObjectNumber fresh]
  by (auto simp: pool_init_def pool_allocate_def pool_all_def split: if_splits)

lemma pool_in_use_init: "pool_in_use (pool_init fresh) = {}"
  using pool_allocate_ext [OF pool_wf_empty, of fresh]
  by (auto simp: pool_init_def pool_in_use_def)

end
