(* ===== verification/Byte_Queue.thy ===== *)
theory Byte_Queue
  imports Prelude
begin

text \<open>
  The interface through which the rest of the program uses a byte buffer: bytes are appended at
  one end and taken from the other, and the number of waiting bytes can be asked. \<open>BufferList\<close>
  provides it, the two buffers of a \<open>Socket\<close> provide it, and \<open>PacketParser\<close> relies on it.
\<close>

section \<open>Histories of a queue\<close>

datatype queue_op = Put "byte list" | Take nat

text \<open>The operations of a history on an implementation, and what each \<open>Take\<close> returned.\<close>

fun queue_run :: "(byte list \<Rightarrow> 's \<Rightarrow> 's res) \<Rightarrow> (nat \<Rightarrow> 's \<Rightarrow> (byte list \<times> 's) res)
    \<Rightarrow> queue_op list \<Rightarrow> 's \<Rightarrow> (byte list list \<times> 's) res" where
  "queue_run wr rd [] s = Inr ([], s)"
| "queue_run wr rd (Put d # ops) s = bindR (wr d s) (queue_run wr rd ops)"
| "queue_run wr rd (Take n # ops) s =
     bindR (rd n s) (\<lambda>(bs, s). bindR (queue_run wr rd ops s) (\<lambda>(out, s). Inr (bs # out, s)))"

text \<open>The same history on the abstract queue, a list of bytes.\<close>

fun fifo_run :: "queue_op list \<Rightarrow> byte list \<Rightarrow> byte list list \<times> byte list" where
  "fifo_run [] q = ([], q)"
| "fifo_run (Put d # ops) q = fifo_run ops (q @ d)"
| "fifo_run (Take n # ops) q = (let (out, r) = fifo_run ops (drop n q) in (take n q # out, r))"

fun bytes_put :: "queue_op list \<Rightarrow> byte list" where
  "bytes_put [] = []"
| "bytes_put (Put d # ops) = d @ bytes_put ops"
| "bytes_put (Take n # ops) = bytes_put ops"

text \<open>First in, first out: what was taken, followed by what is left, is what was put.\<close>

lemma fifo_run_conserves:
  "fifo_run ops q = (out, r) \<Longrightarrow> concat out @ r = q @ bytes_put ops"
proof (induction ops q arbitrary: out r rule: fifo_run.induct)
  case (3 n ops q)
  obtain out' r' where r: "fifo_run ops (drop n q) = (out', r')" by fastforce
  then have "concat out' @ r' = drop n q @ bytes_put ops" by (rule 3)
  then have "take n q @ concat out' @ r' = q @ bytes_put ops"
    by (metis append_assoc append_take_drop_id)
  with 3 r show ?case by auto
qed auto

section \<open>The interface\<close>

text \<open>\<open>rep s bs\<close>: in state \<open>s\<close> the bytes \<open>bs\<close> are waiting.\<close>

locale byte_source =
  fixes rd :: "nat \<Rightarrow> 's \<Rightarrow> (byte list \<times> 's) res"
    and sz :: "'s \<Rightarrow> nat"
    and rep :: "'s \<Rightarrow> byte list \<Rightarrow> bool"
  assumes rd_rep: "rep s bs \<Longrightarrow> \<exists>s'. rd n s = Inr (take n bs, s') \<and> rep s' (drop n bs)"
    and sz_rep: "rep s bs \<Longrightarrow> sz s = length bs"
begin

lemma rd_exact:
  assumes "rep s (xs @ ys)"
  shows "\<exists>s'. rd (length xs) s = Inr (xs, s') \<and> rep s' ys"
  using rd_rep [OF assms, of "length xs"] by simp

lemma rd_all:
  assumes "rep s xs" and "n = length xs"
  shows "\<exists>s'. rd n s = Inr (xs, s') \<and> rep s' []"
  using rd_exact [of s xs "[]"] assms by simp

text \<open>The bytes waiting are a function of the state.\<close>

lemma rep_unique:
  assumes "rep s xs" and "rep s ys"
  shows "xs = ys"
proof -
  obtain s1 where 1: "rd (sz s) s = Inr (xs, s1)"
    using rd_all [OF assms(1) sz_rep [OF assms(1)]] by blast
  obtain s2 where 2: "rd (sz s) s = Inr (ys, s2)"
    using rd_all [OF assms(2) sz_rep [OF assms(2)]] by blast
  have "Inr (xs, s1) = (Inr (ys, s2) :: (byte list \<times> 's) res)" by (rule trans [OF 1 [symmetric] 2])
  then show ?thesis by blast
qed

end

locale byte_sink =
  fixes wr :: "byte list \<Rightarrow> 's \<Rightarrow> 's res"
    and rep :: "'s \<Rightarrow> byte list \<Rightarrow> bool"
  assumes wr_rep: "rep s bs \<Longrightarrow> length bs + length d < 2 ^ 64 \<Longrightarrow> \<exists>s'. wr d s = Inr s' \<and> rep s' (bs @ d)"

locale byte_queue = byte_source rd sz rep + byte_sink wr rep
  for rd :: "nat \<Rightarrow> 's \<Rightarrow> (byte list \<times> 's) res" and sz :: "'s \<Rightarrow> nat"
    and wr :: "byte list \<Rightarrow> 's \<Rightarrow> 's res" and rep :: "'s \<Rightarrow> byte list \<Rightarrow> bool"
begin

text \<open>Every history on the implementation returns what it returns on the abstract queue.\<close>

lemma queue_run_refines:
  "rep s q \<Longrightarrow> length q + length (bytes_put ops) < 2 ^ 64 \<Longrightarrow>
    \<exists>s'. queue_run wr rd ops s = Inr (fst (fifo_run ops q), s') \<and> rep s' (snd (fifo_run ops q))"
proof (induction ops arbitrary: s q rule: bytes_put.induct)
  case 1
  then show ?case by simp
next
  case (2 d ops)
  then obtain s1 where s1: "wr d s = Inr s1" "rep s1 (q @ d)"
    using wr_rep [of s q d] by auto
  then show ?case using 2 by simp
next
  case (3 n ops)
  obtain s1 where s1: "rd n s = Inr (take n q, s1)" "rep s1 (drop n q)"
    using rd_rep [OF 3(2), of n] by blast
  have "length (drop n q) + length (bytes_put ops) < 2 ^ 64" using 3(3) by simp
  from 3(1) [OF s1(2) this] obtain s2 where
    "queue_run wr rd ops s1 = Inr (fst (fifo_run ops (drop n q)), s2)"
    "rep s2 (snd (fifo_run ops (drop n q)))" by blast
  then show ?case using s1 by (simp add: split_beta)
qed

end

end
