(* ===== verification/Buffers.thy ===== *)
theory Buffers
  imports Object_Pool Byte_Queue
begin

text \<open>
  \<open>src/base/buffer.h\<close> and \<open>buffer.cc\<close>: \<open>Buffer\<close>, one block of 4096 bytes, and \<open>BufferList\<close>, the
  byte queue every socket reads from and writes to: a chain of pooled blocks linked by
  \<open>next_\<close>, consumed at \<open>read_\<close> and filled at \<open>write_\<close>. The model keeps the pointers, the
  indices and the wrapping size counters of the code; \<open>bl_rep\<close> says which byte sequence a list
  holds, and every operation is proved against that abstract queue.
\<close>

section \<open>Buffer\<close>

definition kBufferSize :: nat where
  "kBufferSize = 4096"

text \<open>\<open>cur_\<close> is kept as its distance from \<open>data_\<close>.\<close>

record buffer =
  data :: "byte list"
  cur :: nat
  next_buf :: ptr

text \<open>\<open>Reset\<close> fills the block with the character \<open>'0'\<close> (48); it does not touch \<open>next_\<close>.\<close>

definition buffer_reset :: "buffer \<Rightarrow> buffer" where
  "buffer_reset b = b\<lparr>data := replicate kBufferSize 48, cur := 0\<rparr>"

definition buffer_new :: buffer where
  "buffer_new = \<lparr>data = replicate kBufferSize 48, cur = 0, next_buf = Null\<rparr>"

definition buffer_length :: "buffer \<Rightarrow> nat" where
  "buffer_length b = cur b"

definition buffer_available :: "buffer \<Rightarrow> nat" where
  "buffer_available b = kBufferSize - cur b"

text \<open>\<open>AppendData\<close>: nothing happens unless the block has more room than \<open>len\<close>.\<close>

definition buffer_append_data :: "byte list \<Rightarrow> buffer \<Rightarrow> buffer" where
  "buffer_append_data bs b =
     (if length bs < buffer_available b
      then b\<lparr>data := memcpy_at (data b) (cur b) bs, cur := cur b + length bs\<rparr> else b)"

text \<open>The bytes appended so far.\<close>

definition buffer_contents :: "buffer \<Rightarrow> byte list" where
  "buffer_contents b = take (cur b) (data b)"

definition buffer_wf :: "buffer \<Rightarrow> bool" where
  "buffer_wf b \<longleftrightarrow> length (data b) = kBufferSize \<and> cur b \<le> kBufferSize"

section \<open>BufferList\<close>

record buffer_list =
  read_inx :: nat
  write_inx :: nat
  head_ptr :: ptr
  read_ptr :: ptr
  write_ptr :: ptr
  write_size :: nat
  read_size :: nat

type_synonym bpool = "buffer pool"

definition bl_new :: "bpool \<Rightarrow> buffer_list \<times> bpool" where
  "bl_new P = (let (a, P) = pool_get buffer_new P in
     (\<lparr>read_inx = 0, write_inx = 0, head_ptr = At a, read_ptr = At a, write_ptr = At a,
       write_size = 0, read_size = 0\<rparr>, P))"

definition bl_readable_size :: "buffer_list \<Rightarrow> nat" where
  "bl_readable_size l = sub64 (write_size l) (read_size l)"

definition bl_writeable_size :: "buffer_list \<Rightarrow> nat" where
  "bl_writeable_size l = sub64 kBufferSize (write_inx l)"

definition bl_empty :: "buffer_list \<Rightarrow> bool" where
  "bl_empty l \<longleftrightarrow> bl_readable_size l = 0"

definition bl_total_size :: "buffer_list \<Rightarrow> nat" where
  "bl_total_size l = write_size l"

definition bl_current_read_size :: "buffer_list \<Rightarrow> nat" where
  "bl_current_read_size l =
     (if read_ptr l = write_ptr l then sub64 (write_inx l) (read_inx l)
      else sub64 kBufferSize (read_inx l))"

text \<open>\<open>memcpy (to, ReadPoint (), n)\<close> and \<open>memcpy (WritePoint (), from, n)\<close>.\<close>

definition bl_copy_out :: "nat \<Rightarrow> buffer_list \<Rightarrow> bpool \<Rightarrow> byte list res" where
  "bl_copy_out n l P = bindR (ptr_get (read_ptr l) (store P)) (\<lambda>b.
     if read_inx l + n \<le> kBufferSize then Inr (take n (drop (read_inx l) (data b)))
     else Inl Out_Of_Bounds)"

definition bl_copy_in :: "byte list \<Rightarrow> buffer_list \<Rightarrow> bpool \<Rightarrow> bpool res" where
  "bl_copy_in bs l P =
     (if write_inx l + length bs \<le> kBufferSize
      then bindR (ptr_upd (write_ptr l) (\<lambda>b. b\<lparr>data := memcpy_at (data b) (write_inx l) bs\<rparr>) (store P))
        (\<lambda>h. Inr (P\<lparr>store := h\<rparr>))
      else Inl Out_Of_Bounds)"

definition bl_read_advance :: "nat \<Rightarrow> buffer_list \<Rightarrow> bpool \<Rightarrow> (buffer_list \<times> bpool) res" where
  "bl_read_advance n l P =
     (let l = l\<lparr>read_inx := add64 (read_inx l) n, read_size := add64 (read_size l) n\<rparr> in
      if read_inx l = kBufferSize then
        bindR (ptr_get (read_ptr l) (store P)) (\<lambda>b.
        bindR (pool_free buffer_reset (read_ptr l) P) (\<lambda>P.
        Inr (l\<lparr>read_ptr := next_buf b, head_ptr := next_buf b, read_inx := 0\<rparr>, P)))
      else Inr (l, P))"

definition bl_write_advance :: "nat \<Rightarrow> buffer_list \<Rightarrow> bpool \<Rightarrow> (buffer_list \<times> bpool) res" where
  "bl_write_advance n l P =
     (let l = l\<lparr>write_inx := add64 (write_inx l) n, write_size := add64 (write_size l) n\<rparr> in
      if write_inx l = kBufferSize then
        (let (a, P) = pool_get buffer_new P in
         bindR (ptr_upd (write_ptr l) (\<lambda>b. b\<lparr>next_buf := At a\<rparr>) (store P)) (\<lambda>h.
         Inr (l\<lparr>write_ptr := At a, write_inx := 0\<rparr>, P\<lparr>store := h\<rparr>)))
      else Inr (l, P))"

text \<open>
  The loop of \<open>BufferList::Read\<close>: \<open>n\<close> bytes are still wanted, \<open>acc\<close> were copied to \<open>to\<close>. The
  result carries the bytes written to \<open>to\<close>; their number is the value the code returns.
\<close>

partial_function (option) bl_read_loop ::
  "nat \<Rightarrow> byte list \<Rightarrow> buffer_list \<Rightarrow> bpool \<Rightarrow> (byte list \<times> buffer_list \<times> bpool) res option" where
  "bl_read_loop n acc l P =
     (if n > 0 then
        if bl_readable_size l = 0 then Some (Inr (acc, l, P))
        else if n > bl_current_read_size l then
          (case bindR (bl_copy_out (bl_current_read_size l) l P) (\<lambda>bs.
                bindR (bl_read_advance (bl_current_read_size l) l P) (\<lambda>(l, P). Inr (bs, l, P))) of
             Inl e \<Rightarrow> Some (Inl e)
           | Inr (bs, l', P') \<Rightarrow> bl_read_loop (n - bl_current_read_size l) (acc @ bs) l' P')
        else
          Some (bindR (bl_copy_out n l P) (\<lambda>bs.
                bindR (bl_read_advance n l P) (\<lambda>(l, P). Inr (acc @ bs, l, P))))
      else Some (Inr (acc, l, P)))"

definition bl_read :: "nat \<Rightarrow> buffer_list \<Rightarrow> bpool \<Rightarrow> (byte list \<times> buffer_list \<times> bpool) res" where
  "bl_read n l P = loopR (bl_read_loop n [] l P)"

text \<open>The loop of \<open>BufferList::Write\<close>: \<open>from\<close> is what is left, \<open>tot\<close> what was written.\<close>

partial_function (option) bl_write_loop ::
  "byte list \<Rightarrow> nat \<Rightarrow> buffer_list \<Rightarrow> bpool \<Rightarrow> (nat \<times> buffer_list \<times> bpool) res option" where
  "bl_write_loop from tot l P =
     (if length from > 0 then
        if length from > bl_writeable_size l then
          (case bindR (bl_copy_in (take (bl_writeable_size l) from) l P)
                  (bl_write_advance (bl_writeable_size l) l) of
             Inl e \<Rightarrow> Some (Inl e)
           | Inr (l', P') \<Rightarrow>
               bl_write_loop (drop (bl_writeable_size l) from) (tot + bl_writeable_size l) l' P')
        else
          Some (bindR (bl_copy_in from l P) (\<lambda>P.
                bindR (bl_write_advance (length from) l P) (\<lambda>(l, P). Inr (tot + length from, l, P))))
      else Some (Inr (tot, l, P)))"

definition bl_write :: "byte list \<Rightarrow> buffer_list \<Rightarrow> bpool \<Rightarrow> (nat \<times> buffer_list \<times> bpool) res" where
  "bl_write from l P = loopR (bl_write_loop from 0 l P)"

text \<open>\<open>~BufferList\<close>: the chain from \<open>head_\<close> is handed back to the pool up to a \<open>NULL\<close> link.\<close>

partial_function (option) bl_destroy_loop :: "ptr \<Rightarrow> bpool \<Rightarrow> bpool res option" where
  "bl_destroy_loop p P =
     (if p = Null then Some (Inr P)
      else (case bindR (ptr_get p (store P)) (\<lambda>b.
                 bindR (pool_free buffer_reset p P) (\<lambda>P. Inr (next_buf b, P))) of
              Inl e \<Rightarrow> Some (Inl e)
            | Inr (q, P') \<Rightarrow> bl_destroy_loop q P'))"

definition bl_destroy :: "buffer_list \<Rightarrow> bpool \<Rightarrow> bpool res" where
  "bl_destroy l P = loopR (bl_destroy_loop (head_ptr l) P)"

section \<open>What a list holds\<close>

definition block_data :: "buffer heap \<Rightarrow> addr \<Rightarrow> byte list" where
  "block_data h a = (case cells h a of None \<Rightarrow> [] | Some b \<Rightarrow> data b)"

definition block_linked :: "buffer heap \<Rightarrow> addr \<Rightarrow> addr \<Rightarrow> bool" where
  "block_linked h a b \<longleftrightarrow> (\<exists>v. cells h a = Some v \<and> next_buf v = At b)"

definition bpool_wf :: "bpool \<Rightarrow> bool" where
  "bpool_wf P \<longleftrightarrow> pool_wf P \<and> pool_all buffer_wf P"

text \<open>The bytes between the read and the write position of the chain \<open>xs @ [z]\<close>.\<close>

definition bl_bytes :: "bpool \<Rightarrow> buffer_list \<Rightarrow> addr list \<Rightarrow> addr \<Rightarrow> byte list" where
  "bl_bytes P l xs z = drop (read_inx l)
     (concat (map (block_data (store P)) xs) @ take (write_inx l) (block_data (store P) z))"

text \<open>
  \<open>bl_rep P l xs z bs\<close>: in the pool \<open>P\<close>, the list \<open>l\<close> owns the linked blocks \<open>xs @ [z]\<close> and
  holds the bytes \<open>bs\<close>.
\<close>

definition bl_rep :: "bpool \<Rightarrow> buffer_list \<Rightarrow> addr list \<Rightarrow> addr \<Rightarrow> byte list \<Rightarrow> bool" where
  "bl_rep P l xs z bs \<longleftrightarrow>
     bpool_wf P \<and> distinct (xs @ [z]) \<and> set (xs @ [z]) \<subseteq> pool_in_use P
     \<and> successively (block_linked (store P)) (xs @ [z])
     \<and> read_ptr l = At (hd (xs @ [z])) \<and> head_ptr l = read_ptr l \<and> write_ptr l = At z
     \<and> read_inx l < kBufferSize \<and> write_inx l < kBufferSize
     \<and> (xs = [] \<longrightarrow> read_inx l \<le> write_inx l)
     \<and> bs = bl_bytes P l xs z \<and> length bs < 2 ^ 64 \<and> bl_readable_size l = length bs"

lemma in_use_cells: "a \<in> pool_in_use P \<Longrightarrow> \<exists>v. cells (store P) a = Some v"
  by (auto simp: pool_in_use_def)

lemma length_block_data:
  "bpool_wf P \<Longrightarrow> a \<in> pool_in_use P \<Longrightarrow> length (block_data (store P) a) = kBufferSize"
  using in_use_cells [of a P]
  by (auto simp: block_data_def bpool_wf_def buffer_wf_def dest: pool_allD)

lemma length_blocks:
  "bpool_wf P \<Longrightarrow> set xs \<subseteq> pool_in_use P
     \<Longrightarrow> length (concat (map (block_data (store P)) xs)) = kBufferSize * length xs"
  by (induction xs) (auto simp: length_block_data)

lemma blocks_linked_cong:
  "(\<And>x. x \<in> set xs \<Longrightarrow> cells h' x = cells h x)
     \<Longrightarrow> successively (block_linked h') (xs @ [z]) = successively (block_linked h) (xs @ [z])"
proof (induction xs)
  case (Cons x xs)
  then show ?case by (cases xs) (auto simp: block_linked_def)
qed simp

lemma block_data_cong: "cells h' a = cells h a \<Longrightarrow> block_data h' a = block_data h a"
  by (simp add: block_data_def)

lemma blocks_data_cong:
  "(\<And>x. x \<in> set xs \<Longrightarrow> cells h' x = cells h x)
     \<Longrightarrow> concat (map (block_data h') xs) = concat (map (block_data h) xs)"
  by (induction xs) (auto simp: block_data_def)

lemma buffer_wf_new [simp]: "buffer_wf buffer_new"
  by (simp add: buffer_wf_def buffer_new_def)

lemma buffer_wf_reset [simp]: "buffer_wf (buffer_reset b)"
  by (simp add: buffer_wf_def buffer_reset_def)

lemma bpool_wf_init: "bpool_wf (pool_init buffer_new)"
  by (simp add: bpool_wf_def pool_wf_init pool_all_init)

text \<open>A step of another owner does not touch the list.\<close>

lemma bl_rep_frame:
  assumes "bl_rep P l xs z bs" and "moved A P B Q" and "A \<inter> set (xs @ [z]) = {}" and "bpool_wf Q"
  shows "bl_rep Q l xs z bs"
proof -
  have c: "cells (store Q) x = cells (store P) x" if "x \<in> set (xs @ [z])" for x
    using assms that by (intro moved_cells) (auto simp: bl_rep_def)
  have "set (xs @ [z]) \<subseteq> pool_in_use Q"
    using moved_disjoint [OF assms(2)] assms(1,3) by (auto simp: bl_rep_def)
  moreover have "successively (block_linked (store Q)) (xs @ [z])"
    using blocks_linked_cong [of xs "store Q" "store P" z] c assms(1) by (auto simp: bl_rep_def)
  moreover have "bl_bytes Q l xs z = bl_bytes P l xs z"
    using blocks_data_cong [of xs "store Q" "store P"] block_data_cong [of "store Q" z "store P"] c
    by (simp add: bl_bytes_def)
  ultimately show ?thesis using assms(1,4) unfolding bl_rep_def by argo
qed

section \<open>Reading\<close>

lemma bl_rep_length:
  assumes "bl_rep P l xs z bs"
  shows "length bs = kBufferSize * length xs + write_inx l - read_inx l"
proof -
  have w: "bpool_wf P" and u: "set xs \<subseteq> pool_in_use P" "z \<in> pool_in_use P"
    and wi: "write_inx l < kBufferSize" and bs: "bs = bl_bytes P l xs z"
    using assms by (auto simp: bl_rep_def)
  show ?thesis
    unfolding bs bl_bytes_def
    using length_blocks [OF w u(1)] length_block_data [OF w u(2)] wi by simp
qed

lemma bl_rep_same_block: "bl_rep P l xs z bs \<Longrightarrow> read_ptr l = write_ptr l \<longleftrightarrow> xs = []"
  by (cases xs) (auto simp: bl_rep_def)

lemma bl_rep_current:
  assumes "bl_rep P l xs z bs"
  shows "bl_current_read_size l
    = (if xs = [] then length bs else kBufferSize - read_inx l)"
    and "bl_current_read_size l \<le> length bs"
    and "bs \<noteq> [] \<Longrightarrow> 0 < bl_current_read_size l"
    and "read_inx l + bl_current_read_size l \<le> kBufferSize"
proof -
  note lb = bl_rep_length [OF assms]
  have r: "read_inx l < kBufferSize" "write_inx l < kBufferSize" "xs = [] \<longrightarrow> read_inx l \<le> write_inx l"
    using assms by (auto simp: bl_rep_def)
  show c: "bl_current_read_size l = (if xs = [] then length bs else kBufferSize - read_inx l)"
    using r bl_rep_same_block [OF assms] lb
    by (auto simp: bl_current_read_size_def kBufferSize_def)
  show "bl_current_read_size l \<le> length bs"
    unfolding c using lb by (cases xs) auto
  show "bs \<noteq> [] \<Longrightarrow> 0 < bl_current_read_size l"
    unfolding c using r by auto
  show "read_inx l + bl_current_read_size l \<le> kBufferSize"
    unfolding c using r lb by auto
qed

lemma bl_copy_out_rep:
  assumes rep: "bl_rep P l xs z bs" and n: "n \<le> bl_current_read_size l"
  shows "bl_copy_out n l P = Inr (take n bs)"
proof -
  let ?a = "hd (xs @ [z])"
  have w: "bpool_wf P" and u: "set (xs @ [z]) \<subseteq> pool_in_use P" and p: "read_ptr l = At ?a"
    and bs: "bs = bl_bytes P l xs z"
    using rep by (auto simp: bl_rep_def)
  have "?a \<in> pool_in_use P" using u by (cases xs) auto
  then obtain b where b: "cells (store P) ?a = Some b" and lb: "length (data b) = kBufferSize"
    using in_use_cells length_block_data [OF w] by (fastforce simp: block_data_def)
  have le: "read_inx l + n \<le> kBufferSize"
    using n bl_rep_current(4) [OF rep] by simp
  have "take n bs = take n (drop (read_inx l) (data b))"
  proof (cases xs)
    case Nil
    then have "n \<le> length bs" and "length bs = write_inx l - read_inx l"
      using n bl_rep_current(2) [OF rep] bl_rep_length [OF rep] by auto
    with Nil b show ?thesis
      by (simp add: bs bl_bytes_def block_data_def drop_take min_absorb1)
  next
    case (Cons x ys)
    with b le lb show ?thesis
      by (simp add: bs bl_bytes_def block_data_def)
  qed
  then show ?thesis
    using b le p by (simp add: bl_copy_out_def)
qed

lemma bl_readable_rep: "bl_rep P l xs z bs \<Longrightarrow> bl_readable_size l = length bs"
  by (simp add: bl_rep_def)

text \<open>Advancing inside the block only moves the index.\<close>

lemma bl_read_advance_inside:
  assumes rep: "bl_rep P l xs z bs" and n: "n \<le> bl_current_read_size l"
    and ne: "read_inx l + n \<noteq> kBufferSize"
  shows "\<exists>l'. bl_read_advance n l P = Inr (l', P) \<and> bl_rep P l' xs z (drop n bs)"
proof -
  let ?l = "l\<lparr>read_inx := read_inx l + n, read_size := add64 (read_size l) n\<rparr>"
  have le: "read_inx l + n < kBufferSize" and nb: "n \<le> length bs"
    using n ne bl_rep_current [OF rep] by auto
  have a: "add64 (read_inx l) n = read_inx l + n"
    using le by (simp add: kBufferSize_def)
  have "drop n bs = bl_bytes P ?l xs z"
    using rep by (simp add: bl_rep_def bl_bytes_def add.commute del: drop_append)
  moreover have "bl_readable_size ?l = length (drop n bs)"
    using bl_readable_rep [OF rep] nb by (simp add: bl_readable_size_def sub64_add_right)
  moreover have "xs = [] \<longrightarrow> read_inx l + n \<le> write_inx l" and "length (drop n bs) < 2 ^ 64"
    using rep nb bl_rep_length [OF rep] by (auto simp: bl_rep_def)
  ultimately have "bl_rep P ?l xs z (drop n bs)"
    using rep le unfolding bl_rep_def by simp
  moreover have "bl_read_advance n l P = Inr (?l, P)"
    using le by (simp add: bl_read_advance_def a)
  ultimately show ?thesis by blast
qed

text \<open>Reaching the end of the block hands it back to the pool.\<close>

lemma bl_read_advance_pop:
  assumes rep: "bl_rep P l xs z bs" and n: "n \<le> bl_current_read_size l"
    and eq: "read_inx l + n = kBufferSize"
  shows "\<exists>l' P'. bl_read_advance n l P = Inr (l', P') \<and> bl_rep P' l' (tl xs) z (drop n bs)
    \<and> moved (set (xs @ [z])) P (set (tl xs @ [z])) P'"
proof -
  have nb: "n \<le> length bs" and r: "read_inx l < kBufferSize" "write_inx l < kBufferSize"
    using n rep bl_rep_current [OF rep] by (auto simp: bl_rep_def)
  obtain x ys where xs: "xs = x # ys"
    using bl_rep_length [OF rep] eq nb r by (cases xs) auto
  have w: "bpool_wf P" and u: "set (xs @ [z]) \<subseteq> pool_in_use P" and bs: "bs = bl_bytes P l xs z"
    and li: "successively (block_linked (store P)) (xs @ [z])" and di: "distinct (xs @ [z])"
    and hp: "read_ptr l = At x" "head_ptr l = read_ptr l" "write_ptr l = At z"
    using rep by (auto simp: bl_rep_def xs)
  obtain b where b: "cells (store P) x = Some b" and nx: "next_buf b = At (hd (ys @ [z]))"
    using li by (cases ys) (auto simp: xs block_linked_def)
  obtain P' where fr: "pool_free buffer_reset (At x) P = Inr P'" and wP: "pool_wf P'"
    and iu: "pool_in_use P' = pool_in_use P - {x}" and ex: "pool_ext {x} P P'"
    using pool_free_props [of P x buffer_reset] w u by (auto simp: bpool_wf_def xs)
  have wf': "bpool_wf P'"
    using w wP pool_all_free [where Q = buffer_wf, OF _ _ fr] by (simp add: bpool_wf_def)
  have c: "cells (store P') y = cells (store P) y" if "y \<in> set (ys @ [z])" for y
    using ex u di that by (auto simp: pool_ext_def xs)
  let ?l = "l\<lparr>read_inx := 0, read_size := add64 (read_size l) n, read_ptr := next_buf b,
    head_ptr := next_buf b\<rparr>"
  have lx: "length (block_data (store P) x) = kBufferSize"
    using length_block_data [OF w] u by (simp add: xs)
  have bytes: "drop n bs = bl_bytes P' ?l ys z"
    using lx eq blocks_data_cong [of ys "store P'" "store P"] c
      block_data_cong [of "store P'" z "store P"]
    by (simp add: bs bl_bytes_def xs add.commute)
  have len: "bl_readable_size ?l = length (drop n bs)" "length (drop n bs) < 2 ^ 64"
    using bl_readable_rep [OF rep] rep nb
    by (auto simp: bl_readable_size_def sub64_add_right bl_rep_def)
  have "successively (block_linked (store P')) (ys @ [z])"
    using blocks_linked_cong [of ys "store P'" "store P" z] c li by (auto simp: xs successively_Cons)
  then have "bl_rep P' ?l ys z (drop n bs)"
    unfolding bl_rep_def using wf' di u iu r nx hp bytes len by (auto simp: xs)
  moreover have "bl_read_advance n l P = Inr (?l, P')"
    using eq b fr hp by (simp add: bl_read_advance_def kBufferSize_def)
  moreover have "moved (set (xs @ [z])) P (set (ys @ [z])) P'"
    using ex pool_ext_mono [of "{x}" P P' "set (xs @ [z])"] by (auto simp: moved_def xs)
  ultimately show ?thesis by (auto simp: xs)
qed

lemma bl_read_advance_rep:
  assumes "bl_rep P l xs z bs" and "n \<le> bl_current_read_size l"
  shows "\<exists>l' P' xs'. bl_read_advance n l P = Inr (l', P') \<and> bl_rep P' l' xs' z (drop n bs)
    \<and> moved (set (xs @ [z])) P (set (xs' @ [z])) P'"
  using bl_read_advance_inside [OF assms] bl_read_advance_pop [OF assms] moved_refl by blast

text \<open>
  The whole loop: it ends, it copies the oldest \<open>min n (length bs)\<close> bytes and leaves the rest.
\<close>

lemma bl_read_loop_rep:
  "bl_rep P l xs z bs \<Longrightarrow>
    \<exists>l' P' xs'. bl_read_loop n acc l P = Some (Inr (acc @ take n bs, l', P'))
      \<and> bl_rep P' l' xs' z (drop n bs) \<and> moved (set (xs @ [z])) P (set (xs' @ [z])) P'"
proof (induction n arbitrary: acc l P xs bs rule: less_induct)
  case (less n)
  note rep = less.prems
  let ?c = "bl_current_read_size l"
  consider (none) "n = 0 \<or> bs = []" | (whole) "n > 0" "bs \<noteq> []" "n > ?c" | (part) "n > 0" "bs \<noteq> []" "n \<le> ?c"
    by linarith
  then show ?case
  proof cases
    case none
    then show ?thesis
      using rep moved_refl bl_readable_rep [OF rep]
      by (subst bl_read_loop.simps) auto
  next
    case whole
    have c: "0 < ?c" "?c \<le> length bs" using bl_rep_current [OF rep] whole by auto
    obtain l1 P1 xs1 where adv: "bl_read_advance ?c l P = Inr (l1, P1)"
      and rep1: "bl_rep P1 l1 xs1 z (drop ?c bs)"
      and mv1: "moved (set (xs @ [z])) P (set (xs1 @ [z])) P1"
      using bl_read_advance_rep [OF rep, of ?c] by auto
    have step: "bl_read_loop n acc l P = bl_read_loop (n - ?c) (acc @ take ?c bs) l1 P1"
      using whole bl_readable_rep [OF rep] bl_copy_out_rep [OF rep, of ?c] adv
      by (subst bl_read_loop.simps) simp
    obtain l2 P2 xs2 where "bl_read_loop (n - ?c) (acc @ take ?c bs) l1 P1
          = Some (Inr ((acc @ take ?c bs) @ take (n - ?c) (drop ?c bs), l2, P2))"
      and "bl_rep P2 l2 xs2 z (drop (n - ?c) (drop ?c bs))"
      and "moved (set (xs1 @ [z])) P1 (set (xs2 @ [z])) P2"
      using less.IH [OF _ rep1, of "n - ?c" "acc @ take ?c bs"] whole c by auto
    then show ?thesis
      using step whole moved_trans [OF mv1] by (auto simp: take_drop_id2)
  next
    case part
    obtain l1 P1 xs1 where "bl_read_advance n l P = Inr (l1, P1)"
      and "bl_rep P1 l1 xs1 z (drop n bs)" and "moved (set (xs @ [z])) P (set (xs1 @ [z])) P1"
      using bl_read_advance_rep [OF rep part(3)] by auto
    then show ?thesis
      using part bl_readable_rep [OF rep] bl_copy_out_rep [OF rep part(3)]
      by (subst bl_read_loop.simps) (simp, blast)
  qed
qed

lemma bl_read_rep:
  assumes "bl_rep P l xs z bs"
  shows "\<exists>l' P' xs'. bl_read n l P = Inr (take n bs, l', P') \<and> bl_rep P' l' xs' z (drop n bs)
    \<and> moved (set (xs @ [z])) P (set (xs' @ [z])) P'"
  using bl_read_loop_rep [OF assms, of n "[]"] by (auto simp: bl_read_def)

section \<open>Writing\<close>

lemma bl_writeable_rep:
  "bl_rep P l xs z bs \<Longrightarrow> bl_writeable_size l = kBufferSize - write_inx l
     \<and> 0 < bl_writeable_size l \<and> write_inx l < kBufferSize"
  by (simp add: bl_rep_def bl_writeable_size_def kBufferSize_def)

lemma bl_copy_in_rep:
  assumes rep: "bl_rep P l xs z bs" and d: "write_inx l + length d \<le> kBufferSize"
  shows "\<exists>P1. bl_copy_in d l P = Inr P1 \<and> bpool_wf P1 \<and> pool_in_use P1 = pool_in_use P
    \<and> (\<forall>x. x \<noteq> z \<longrightarrow> cells (store P1) x = cells (store P) x)
    \<and> bs @ d = drop (read_inx l) (concat (map (block_data (store P1)) xs)
          @ take (write_inx l + length d) (block_data (store P1) z))"
proof -
  have w: "bpool_wf P" and u: "z \<in> pool_in_use P" "set xs \<subseteq> pool_in_use P" and zp: "write_ptr l = At z"
    and bs: "bs = bl_bytes P l xs z" and zx: "z \<notin> set xs"
    and r: "read_inx l < kBufferSize" "xs = [] \<longrightarrow> read_inx l \<le> write_inx l" "write_inx l < kBufferSize"
    using rep by (auto simp: bl_rep_def)
  obtain v where v: "cells (store P) z = Some v" using in_use_cells u by blast
  have vw: "buffer_wf v" using w v by (auto simp: bpool_wf_def dest: pool_allD)
  let ?v = "v\<lparr>data := memcpy_at (data v) (write_inx l) d\<rparr>"
  let ?P = "P\<lparr>store := (store P)\<lparr>cells := (cells (store P))(z \<mapsto> ?v)\<rparr>\<rparr>"
  have "buffer_wf ?v" using vw d by (simp add: buffer_wf_def)
  then have "bpool_wf ?P"
    using w v pool_upd_wf [of P z v ?v] by (auto simp: bpool_wf_def pool_all_def)
  moreover have "pool_in_use ?P = pool_in_use P"
    using v by (auto simp: pool_in_use_def)
  moreover have "concat (map (block_data (store ?P)) xs) = concat (map (block_data (store P)) xs)"
    using zx by (intro blocks_data_cong) auto
  moreover have "read_inx l \<le> length (concat (map (block_data (store P)) xs)
      @ take (write_inx l) (block_data (store P) z))"
    using r length_blocks [OF w u(2)] length_block_data [OF w u(1)] by (cases xs) auto
  ultimately show ?thesis
    using v zp d vw
    by (intro exI [of _ ?P]) (simp add: bl_copy_in_def bs bl_bytes_def block_data_def buffer_wf_def)
qed

lemma bl_fill_inside:
  assumes rep: "bl_rep P l xs z bs" and d: "write_inx l + length d < kBufferSize"
    and sz: "length bs + length d < 2 ^ 64"
  shows "\<exists>P1 l'. bl_copy_in d l P = Inr P1 \<and> bl_write_advance (length d) l P1 = Inr (l', P1)
    \<and> bl_rep P1 l' xs z (bs @ d) \<and> moved (set (xs @ [z])) P (set (xs @ [z])) P1"
proof -
  obtain P1 where P1: "bl_copy_in d l P = Inr P1" "bpool_wf P1" "pool_in_use P1 = pool_in_use P"
    "\<forall>x. x \<noteq> z \<longrightarrow> cells (store P1) x = cells (store P) x"
    "bs @ d = drop (read_inx l) (concat (map (block_data (store P1)) xs)
          @ take (write_inx l + length d) (block_data (store P1) z))"
    using bl_copy_in_rep [OF rep, of d] d by auto
  let ?l = "l\<lparr>write_inx := write_inx l + length d, write_size := add64 (write_size l) (length d)\<rparr>"
  have bytes: "bs @ d = bl_bytes P1 ?l xs z" using P1(5) by (simp add: bl_bytes_def)
  have len: "bl_readable_size ?l = length (bs @ d)" "length (bs @ d) < 2 ^ 64"
    using bl_readable_rep [OF rep] sz by (auto simp: bl_readable_size_def sub64_add_left)
  have r: "distinct (xs @ [z])" "set (xs @ [z]) \<subseteq> pool_in_use P"
    "read_ptr l = At (hd (xs @ [z]))" "head_ptr l = read_ptr l" "write_ptr l = At z"
    "read_inx l < kBufferSize" "xs = [] \<longrightarrow> read_inx l \<le> write_inx l"
    "successively (block_linked (store P)) (xs @ [z])"
    using rep by (auto simp: bl_rep_def)
  have "cells (store P1) x = cells (store P) x" if "x \<in> set xs" for x
    using P1(4) r(1) that by auto
  then have "successively (block_linked (store P1)) (xs @ [z])"
    using r(8) blocks_linked_cong [of xs "store P1" "store P" z] by blast
  then have "bl_rep P1 ?l xs z (bs @ d)"
    unfolding bl_rep_def using bytes len r P1(2,3) d by auto
  moreover have "bl_write_advance (length d) l P1 = Inr (?l, P1)"
    using d by (simp add: bl_write_advance_def kBufferSize_def)
  moreover have "moved (set (xs @ [z])) P (set (xs @ [z])) P1"
    using P1(3,4) by (auto simp: moved_def pool_ext_def)
  ultimately show ?thesis using P1(1) by blast
qed

lemma bl_fill_block:
  assumes rep: "bl_rep P l xs z bs" and d: "write_inx l + length d = kBufferSize"
    and sz: "length bs + length d < 2 ^ 64"
  shows "\<exists>P1 l' P' a. bl_copy_in d l P = Inr P1 \<and> bl_write_advance (length d) l P1 = Inr (l', P')
    \<and> bl_rep P' l' (xs @ [z]) a (bs @ d) \<and> moved (set (xs @ [z])) P (set ((xs @ [z]) @ [a])) P'"
proof -
  obtain P1 where P1: "bl_copy_in d l P = Inr P1" "bpool_wf P1" "pool_in_use P1 = pool_in_use P"
    "\<forall>x. x \<noteq> z \<longrightarrow> cells (store P1) x = cells (store P) x"
    "bs @ d = drop (read_inx l) (concat (map (block_data (store P1)) xs)
          @ take (write_inx l + length d) (block_data (store P1) z))"
    using bl_copy_in_rep [OF rep, of d] d by auto
  obtain a P2 where g: "pool_get buffer_new P1 = (a, P2)" by fastforce
  have P2: "pool_wf P2" "a \<notin> pool_in_use P1" "pool_in_use P2 = insert a (pool_in_use P1)"
    "pool_ext {} P1 P2" "pool_all buffer_wf P2"
    using pool_get_props [OF _ g] pool_all_get [where Q = buffer_wf, OF _ _ _ g] P1(2)
    by (auto simp: bpool_wf_def)
  have r: "distinct (xs @ [z])" "set (xs @ [z]) \<subseteq> pool_in_use P" "z \<in> pool_in_use P"
    "read_ptr l = At (hd (xs @ [z]))" "head_ptr l = read_ptr l" "write_ptr l = At z"
    "read_inx l < kBufferSize" "successively (block_linked (store P)) (xs @ [z])"
    using rep by (auto simp: bl_rep_def)
  have c2: "cells (store P2) x = cells (store P1) x" if "x \<in> pool_in_use P" for x
    using P2(4) P1(3) that by (auto simp: pool_ext_def)
  obtain v where v: "cells (store P2) z = Some v" and vw: "buffer_wf v"
    using in_use_cells [of z P2] P2 P1(3) r(3) by (auto dest: pool_allD)
  let ?P = "P2\<lparr>store := (store P2)\<lparr>cells := (cells (store P2))(z \<mapsto> v\<lparr>next_buf := At a\<rparr>)\<rparr>\<rparr>"
  let ?l = "l\<lparr>write_inx := 0, write_ptr := At a, write_size := add64 (write_size l) (length d)\<rparr>"
  have iu: "pool_in_use ?P = insert a (pool_in_use P)"
    using P2(3) P1(3) v by (auto simp: pool_in_use_def)
  have wf: "bpool_wf ?P"
    using P2(1,5) v vw pool_upd_wf [of P2 z v "v\<lparr>next_buf := At a\<rparr>"]
    by (auto simp: bpool_wf_def pool_all_def buffer_wf_def)
  have cz: "block_data (store ?P) z = block_data (store P1) z"
    using v c2 [OF r(3)] by (auto simp: block_data_def)
  have cx: "cells (store ?P) x = cells (store P1) x" if "x \<in> set xs" for x
    using c2 [of x] r(1,2) that by auto
  have lz: "length (block_data (store P1) z) = kBufferSize"
    using length_block_data [OF P1(2)] P1(3) r(3) by simp
  have bytes: "bs @ d = bl_bytes ?P ?l (xs @ [z]) a"
    using P1(5) d lz cz blocks_data_cong [of xs "store ?P" "store P1"] cx
    by (simp add: bl_bytes_def)
  have len: "bl_readable_size ?l = length (bs @ d)" "length (bs @ d) < 2 ^ 64"
    using bl_readable_rep [OF rep] sz by (auto simp: bl_readable_size_def sub64_add_left)
  have "cells (store ?P) x = cells (store P) x" if "x \<in> set xs" for x
    using cx [OF that] P1(4) r(1) that by auto
  then have "successively (block_linked (store ?P)) (xs @ [z])"
    using r(8) blocks_linked_cong [of xs "store ?P" "store P" z] by blast
  moreover have "block_linked (store ?P) z a" by (simp add: block_linked_def)
  ultimately have "successively (block_linked (store ?P)) ((xs @ [z]) @ [a])"
    by (simp add: successively_append_iff)
  then have "bl_rep ?P ?l (xs @ [z]) a (bs @ d)"
    unfolding bl_rep_def using wf iu bytes len r P2(2) P1(3)
    by (auto simp: kBufferSize_def hd_append)
  moreover have "bl_write_advance (length d) l P1 = Inr (?l, ?P)"
    using d g v r(6) by (simp add: bl_write_advance_def kBufferSize_def)
  moreover have "moved (set (xs @ [z])) P (set ((xs @ [z]) @ [a])) ?P"
    using iu c2 P1(3,4) P2(2) by (auto simp: moved_def pool_ext_def)
  ultimately show ?thesis using P1(1) by blast
qed

lemma bl_fill_rep:
  assumes "bl_rep P l xs z bs" and "length d \<le> bl_writeable_size l" and "length bs + length d < 2 ^ 64"
  shows "\<exists>P1 l' P' xs' z'. bl_copy_in d l P = Inr P1 \<and> bl_write_advance (length d) l P1 = Inr (l', P')
    \<and> bl_rep P' l' xs' z' (bs @ d) \<and> moved (set (xs @ [z])) P (set (xs' @ [z'])) P'"
proof -
  have "write_inx l + length d \<le> kBufferSize"
    using assms(2) bl_writeable_rep [OF assms(1)] by linarith
  then consider "write_inx l + length d < kBufferSize" | "write_inx l + length d = kBufferSize"
    by linarith
  then show ?thesis
    using bl_fill_inside [OF assms(1) _ assms(3)] bl_fill_block [OF assms(1) _ assms(3)]
    by cases blast+
qed

lemma bl_write_loop_rep:
  "bl_rep P l xs z bs \<Longrightarrow> length bs + length from < 2 ^ 64 \<Longrightarrow>
    \<exists>l' P' xs' z'. bl_write_loop from tot l P = Some (Inr (tot + length from, l', P'))
      \<and> bl_rep P' l' xs' z' (bs @ from) \<and> moved (set (xs @ [z])) P (set (xs' @ [z'])) P'"
proof (induction "length from" arbitrary: "from" tot l P xs z bs rule: less_induct)
  case less
  note rep = less.prems(1) and sz = less.prems(2)
  let ?w = "bl_writeable_size l"
  have w: "0 < ?w" using bl_writeable_rep [OF rep] by simp
  consider (none) "from = []" | (whole) "length from > ?w" | (part) "from \<noteq> []" "length from \<le> ?w"
    by fastforce
  then show ?case
  proof cases
    case none
    then show ?thesis using rep moved_refl by (subst bl_write_loop.simps) auto
  next
    case whole
    let ?d = "take ?w from"
    have ld: "length ?d = ?w" using whole by simp
    obtain P1 l2 P2 xs2 z2 where ci: "bl_copy_in ?d l P = Inr P1"
      and wa: "bl_write_advance ?w l P1 = Inr (l2, P2)" and rep2: "bl_rep P2 l2 xs2 z2 (bs @ ?d)"
      and mv: "moved (set (xs @ [z])) P (set (xs2 @ [z2])) P2"
      using bl_fill_rep [OF rep, of ?d] ld sz whole by auto
    have step: "bl_write_loop from tot l P = bl_write_loop (drop ?w from) (tot + ?w) l2 P2"
      using whole w ci wa by (subst bl_write_loop.simps) auto
    have lt: "length (drop ?w from) < length from"
      and sz2: "length (bs @ ?d) + length (drop ?w from) < 2 ^ 64"
      using whole w sz by auto
    obtain l3 P3 xs3 z3 where "bl_write_loop (drop ?w from) (tot + ?w) l2 P2
          = Some (Inr (tot + ?w + length (drop ?w from), l3, P3))"
      and "bl_rep P3 l3 xs3 z3 ((bs @ ?d) @ drop ?w from)"
      and "moved (set (xs2 @ [z2])) P2 (set (xs3 @ [z3])) P3"
      using less.hyps [OF lt rep2 sz2, of "tot + ?w"] by blast
    then show ?thesis
      using step whole moved_trans [OF mv] by auto
  next
    case part
    obtain P1 l2 P2 xs2 z2 where "bl_copy_in from l P = Inr P1"
      and "bl_write_advance (length from) l P1 = Inr (l2, P2)" and "bl_rep P2 l2 xs2 z2 (bs @ from)"
      and "moved (set (xs @ [z])) P (set (xs2 @ [z2])) P2"
      using bl_fill_rep [OF rep part(2) sz] by auto
    then show ?thesis
      using part by (subst bl_write_loop.simps) auto
  qed
qed

lemma bl_write_rep:
  assumes "bl_rep P l xs z bs" and "length bs + length from < 2 ^ 64"
  shows "\<exists>l' P' xs' z'. bl_write from l P = Inr (length from, l', P') \<and> bl_rep P' l' xs' z' (bs @ from)
    \<and> moved (set (xs @ [z])) P (set (xs' @ [z'])) P'"
  using bl_write_loop_rep [OF assms, of 0]
  by (elim exE conjE) (simp add: bl_write_def, blast)

section \<open>Construction and destruction\<close>

lemma bl_new_rep:
  assumes "bpool_wf P" and "bl_new P = (l, Q)"
  shows "\<exists>a. a \<notin> pool_in_use P \<and> bl_rep Q l [] a [] \<and> moved {} P {a} Q"
proof -
  obtain a where g: "pool_get buffer_new P = (a, Q)"
    and l: "l = \<lparr>read_inx = 0, write_inx = 0, head_ptr = At a, read_ptr = At a, write_ptr = At a,
       write_size = 0, read_size = 0\<rparr>"
    using assms(2) by (auto simp: bl_new_def split: prod.splits)
  have "pool_wf Q" "a \<notin> pool_in_use P" "pool_in_use Q = insert a (pool_in_use P)"
    "pool_ext {} P Q" "pool_all buffer_wf Q"
    using assms(1) pool_get_props [OF _ g] pool_all_get [where Q = buffer_wf, OF _ _ _ g]
    by (auto simp: bpool_wf_def)
  then show ?thesis
    by (auto simp: bl_rep_def bl_bytes_def bpool_wf_def l kBufferSize_def bl_readable_size_def
        moved_def)
qed

text \<open>
  The destructor follows the links from \<open>head_\<close> until a \<open>NULL\<close>. It frees exactly the list's
  blocks provided the last one ends the chain, that is, its \<open>next_\<close> is \<open>NULL\<close>.
\<close>

definition block_ends :: "buffer heap \<Rightarrow> addr \<Rightarrow> bool" where
  "block_ends h a \<longleftrightarrow> (\<exists>v. cells h a = Some v \<and> next_buf v = Null)"

lemma bl_destroy_loop_rep:
  "bpool_wf P \<Longrightarrow> distinct (xs @ [z]) \<Longrightarrow> set (xs @ [z]) \<subseteq> pool_in_use P
    \<Longrightarrow> successively (block_linked (store P)) (xs @ [z]) \<Longrightarrow> block_ends (store P) z
    \<Longrightarrow> \<exists>Q. bl_destroy_loop (At (hd (xs @ [z]))) P = Some (Inr Q) \<and> bpool_wf Q
        \<and> pool_in_use Q = pool_in_use P - set (xs @ [z]) \<and> pool_ext (set (xs @ [z])) P Q"
proof (induction xs arbitrary: P)
  case Nil
  then obtain v where v: "cells (store P) z = Some v" "next_buf v = Null"
    by (auto simp: block_ends_def)
  obtain Q where Q: "pool_free buffer_reset (At z) P = Inr Q" "pool_wf Q"
    "pool_in_use Q = pool_in_use P - {z}" "pool_ext {z} P Q"
    using pool_free_props [of P z buffer_reset] Nil by (auto simp: bpool_wf_def)
  have "bpool_wf Q"
    using Q Nil pool_all_free [where Q = buffer_wf, OF _ _ Q(1)] by (simp add: bpool_wf_def)
  moreover have "bl_destroy_loop (At z) P = Some (Inr Q)"
    using v Q by (subst bl_destroy_loop.simps) (simp add: bl_destroy_loop.simps [of Null])
  ultimately show ?case using Q by auto
next
  case (Cons x xs)
  then obtain v where v: "cells (store P) x = Some v" "next_buf v = At (hd (xs @ [z]))"
    by (cases xs) (auto simp: block_linked_def)
  obtain Q where Q: "pool_free buffer_reset (At x) P = Inr Q" "pool_wf Q"
    "pool_in_use Q = pool_in_use P - {x}" "pool_ext {x} P Q"
    using pool_free_props [of P x buffer_reset] Cons.prems by (auto simp: bpool_wf_def)
  have wQ: "bpool_wf Q"
    using Q Cons.prems pool_all_free [where Q = buffer_wf, OF _ _ Q(1)] by (simp add: bpool_wf_def)
  have c: "cells (store Q) y = cells (store P) y" if "y \<in> set (xs @ [z])" for y
    using Q(4) Cons.prems(2,3) that by (auto simp: pool_ext_def)
  have li: "successively (block_linked (store Q)) (xs @ [z])"
    using Cons.prems(4) blocks_linked_cong [of xs "store Q" "store P" z] c
    by (auto simp: successively_Cons)
  have "block_ends (store Q) z" using Cons.prems(5) c [of z] by (simp add: block_ends_def)
  then obtain R where R: "bl_destroy_loop (At (hd (xs @ [z]))) Q = Some (Inr R)" "bpool_wf R"
    "pool_in_use R = pool_in_use Q - set (xs @ [z])" "pool_ext (set (xs @ [z])) Q R"
    using Cons.IH [OF wQ _ _ li] Cons.prems(2,3) Q(3) by auto
  have "bl_destroy_loop (At x) P = Some (Inr R)"
    using v Q R by (subst bl_destroy_loop.simps) simp
  moreover have "pool_ext (set ((x # xs) @ [z])) P R"
    using Q(3,4) R(4) by (auto simp: pool_ext_def)
  ultimately show ?case using R Q(3) by auto
qed

lemma bl_destroy_rep:
  assumes "bl_rep P l xs z bs" and "block_ends (store P) z"
  shows "\<exists>Q. bl_destroy l P = Inr Q \<and> bpool_wf Q
    \<and> pool_in_use Q = pool_in_use P - set (xs @ [z]) \<and> pool_ext (set (xs @ [z])) P Q"
  using assms bl_destroy_loop_rep [of P xs z] by (fastforce simp: bl_destroy_def bl_rep_def)

section \<open>BufferList is a byte queue\<close>

type_synonym bl_state = "buffer_list \<times> bpool"

definition bl_holds :: "bl_state \<Rightarrow> byte list \<Rightarrow> bool" where
  "bl_holds s bs \<longleftrightarrow> (\<exists>xs z. bl_rep (snd s) (fst s) xs z bs)"

definition bl_rd :: "nat \<Rightarrow> bl_state \<Rightarrow> (byte list \<times> bl_state) res" where
  "bl_rd n s = bindR (bl_read n (fst s) (snd s)) (\<lambda>(bs, l, P). Inr (bs, (l, P)))"

definition bl_wr :: "byte list \<Rightarrow> bl_state \<Rightarrow> bl_state res" where
  "bl_wr d s = bindR (bl_write d (fst s) (snd s)) (\<lambda>(n, l, P). Inr (l, P))"

interpretation bl: byte_queue bl_rd "bl_readable_size \<circ> fst" bl_wr bl_holds
proof unfold_locales
  fix s :: bl_state and bs n
  assume "bl_holds s bs"
  then obtain xs z where "bl_rep (snd s) (fst s) xs z bs" by (auto simp: bl_holds_def)
  from bl_read_rep [OF this, of n]
  show "\<exists>s'. bl_rd n s = Inr (take n bs, s') \<and> bl_holds s' (drop n bs)"
    by (simp add: bl_rd_def bl_holds_def) (elim exE conjE, simp, blast)
next
  fix s :: bl_state and bs
  assume "bl_holds s bs"
  then show "(bl_readable_size \<circ> fst) s = length bs"
    by (auto simp: bl_holds_def dest: bl_readable_rep)
next
  fix s :: bl_state and bs d :: "byte list"
  assume "bl_holds s bs" and sz: "length bs + length d < 2 ^ 64"
  then obtain xs z where "bl_rep (snd s) (fst s) xs z bs" by (auto simp: bl_holds_def)
  from bl_write_rep [OF this sz]
  show "\<exists>s'. bl_wr d s = Inr s' \<and> bl_holds s' (bs @ d)"
    by (simp add: bl_wr_def bl_holds_def) (elim exE conjE, simp, blast)
qed

text \<open>
  The same with the blocks a list owns: what an operation does to them, and that operations of
  other owners leave the list alone.
\<close>

definition bl_owned :: "addr set \<Rightarrow> bl_state \<Rightarrow> byte list \<Rightarrow> bool" where
  "bl_owned A s bs \<longleftrightarrow> (\<exists>xs z. bl_rep (snd s) (fst s) xs z bs \<and> A = set (xs @ [z]))"

lemma bl_ownedI: "bl_rep P l xs z bs \<Longrightarrow> bl_owned (set (xs @ [z])) (l, P) bs"
  unfolding bl_owned_def fst_conv snd_conv by blast

lemma bl_holds_owned: "bl_holds s bs \<longleftrightarrow> (\<exists>A. bl_owned A s bs)"
  by (auto simp: bl_holds_def bl_owned_def)

lemma bl_owned_use: "bl_owned A s bs \<Longrightarrow> A \<subseteq> pool_in_use (snd s) \<and> bpool_wf (snd s)"
  by (auto simp: bl_owned_def bl_rep_def)

lemma bl_owned_size: "bl_owned A (l, P) bs \<Longrightarrow> bl_readable_size l = length bs"
  by (auto simp: bl_owned_def dest: bl_readable_rep)

lemma bl_owned_read:
  assumes "bl_owned A (l, P) bs"
  shows "\<exists>l' P' A'. bl_read n l P = Inr (take n bs, l', P') \<and> bl_owned A' (l', P') (drop n bs) \<and> moved A P A' P'"
proof -
  obtain xs z where rep: "bl_rep P l xs z bs" and A: "A = set (xs @ [z])"
    using assms unfolding bl_owned_def by auto
  show ?thesis using bl_read_rep [OF rep, of n] bl_ownedI unfolding A by blast
qed

lemma bl_owned_write:
  assumes "bl_owned A (l, P) bs" and "length bs + length d < 2 ^ 64"
  shows "\<exists>l' P' A'. bl_write d l P = Inr (length d, l', P') \<and> bl_owned A' (l', P') (bs @ d) \<and> moved A P A' P'"
proof -
  obtain xs z where rep: "bl_rep P l xs z bs" and A: "A = set (xs @ [z])"
    using assms(1) unfolding bl_owned_def by auto
  show ?thesis using bl_write_rep [OF rep assms(2)] bl_ownedI unfolding A by blast
qed

lemma bl_owned_new:
  assumes "bpool_wf P" and "bl_new P = (l, Q)"
  shows "\<exists>A. bl_owned A (l, Q) [] \<and> moved {} P A Q"
proof -
  obtain a where "bl_rep Q l [] a []" "moved {} P {a} Q" using bl_new_rep [OF assms] by blast
  then show ?thesis using bl_ownedI [of Q l "[]" a "[]"] by auto
qed

lemma bl_owned_frame:
  assumes "bl_owned A (l, P) bs" and "moved B P B' Q" and "A \<inter> B = {}" and "bpool_wf Q"
  shows "bl_owned A (l, Q) bs" and "A \<inter> B' = {}"
proof -
  obtain xs z where rep: "bl_rep P l xs z bs" and A: "A = set (xs @ [z])"
    using assms(1) unfolding bl_owned_def by auto
  have d: "B \<inter> set (xs @ [z]) = {}" using assms(3) A by blast
  show "bl_owned A (l, Q) bs" unfolding A by (rule bl_ownedI [OF bl_rep_frame [OF rep assms(2) d assms(4)]])
  have "A \<subseteq> pool_in_use P" using bl_owned_use [OF assms(1)] by simp
  then show "A \<inter> B' = {}" using moved_disjoint [OF assms(2), of A] assms(3) by blast
qed

text \<open>Two lists in one pool.\<close>

definition two_lists :: "bpool \<Rightarrow> buffer_list \<Rightarrow> buffer_list \<Rightarrow> byte list \<Rightarrow> byte list \<Rightarrow> bool" where
  "two_lists P r w rs ws \<longleftrightarrow> (\<exists>A B. bl_owned A (r, P) rs \<and> bl_owned B (w, P) ws \<and> A \<inter> B = {})"

lemma two_lists_sym: "two_lists P r w rs ws \<longleftrightarrow> two_lists P w r ws rs"
  unfolding two_lists_def by blast

lemma two_lists_first:
  assumes "two_lists P r w rs ws"
    and "\<And>A. bl_owned A (r, P) rs \<Longrightarrow> \<exists>A'. bl_owned A' (r', Q) rs' \<and> moved A P A' Q"
  shows "two_lists Q r' w rs' ws"
proof -
  obtain A B where ab: "bl_owned A (r, P) rs" "bl_owned B (w, P) ws" "A \<inter> B = {}"
    using assms(1) unfolding two_lists_def by blast
  obtain A' where A': "bl_owned A' (r', Q) rs'" "moved A P A' Q" using assms(2) [OF ab(1)] by blast
  have "B \<inter> A = {}" "bpool_wf Q" using ab(3) bl_owned_use [OF A'(1)] by auto
  from bl_owned_frame [OF ab(2) A'(2) this] A'(1) show ?thesis unfolding two_lists_def by blast
qed

lemma two_lists_new:
  assumes "bpool_wf P" and "bl_new P = (r, Q)" and "bl_new Q = (w, R)"
  shows "two_lists R r w [] []"
proof -
  obtain A where A: "bl_owned A (r, Q) []" using bl_owned_new [OF assms(1,2)] by blast
  have wQ: "bpool_wf Q" using bl_owned_use [OF A] by simp
  obtain B where B: "bl_owned B (w, R) []" "moved {} Q B R" using bl_owned_new [OF wQ assms(3)] by blast
  have "bpool_wf R" using bl_owned_use [OF B(1)] by simp
  from bl_owned_frame [OF A B(2) _ this] B(1) show ?thesis unfolding two_lists_def by blast
qed

lemma bl_holds_new: "bpool_wf P \<Longrightarrow> bl_holds (bl_new P) []"
  using bl_new_rep [of P "fst (bl_new P)" "snd (bl_new P)"] by (auto simp: bl_holds_def)

section \<open>Properties\<close>

text \<open>
  C11. A BufferList is a FIFO byte queue: any sequence of \<open>Write\<close>s and \<open>Read\<close>s on a newly built
  list, whatever the sizes and however they straddle the 4096-byte blocks, ends without a memory
  fault, every \<open>Read\<close> returns what the abstract queue returns, and the bytes read followed by
  the bytes left are the bytes written, as long as fewer than \<open>2 ^ 64\<close> bytes are written.
\<close>
theorem buffer_list_is_fifo:
  assumes "bpool_wf P" and "length (bytes_put ops) < 2 ^ 64"
  shows "\<exists>out s rest. queue_run bl_wr bl_rd ops (bl_new P) = Inr (out, s)
    \<and> fifo_run ops [] = (out, rest) \<and> bl_holds s rest \<and> concat out @ rest = bytes_put ops"
proof -
  obtain s where "queue_run bl_wr bl_rd ops (bl_new P) = Inr (fst (fifo_run ops []), s)"
    "bl_holds s (snd (fifo_run ops []))"
    using bl.queue_run_refines [OF bl_holds_new [OF assms(1)], of ops] assms(2) by auto
  moreover have "concat (fst (fifo_run ops [])) @ snd (fifo_run ops []) = bytes_put ops"
    using fifo_run_conserves [of ops "[]"] by (cases "fifo_run ops []") simp
  ultimately show ?thesis by (metis prod.collapse)
qed

theorem buffer_list_is_fifo_witness:
  "\<exists>out s rest. queue_run bl_wr bl_rd [Put [1, 2, 3], Take 2] (bl_new (pool_init buffer_new)) = Inr (out, s)
    \<and> fifo_run [Put [1, 2, 3], Take 2] [] = (out, rest) \<and> bl_holds s rest
    \<and> concat out @ rest = bytes_put [Put [1, 2, 3], Take 2]"
  by (rule buffer_list_is_fifo [OF bpool_wf_init]) simp

text \<open>
  \<open>ReadAdvance\<close> over the end of a block hands the block to the pool with its link intact:
  \<open>Reset\<close> does not clear \<open>next_\<close>, so the free list then holds a block that still points at
  the list's next block.
\<close>
lemma recycled_block_keeps_link:
  assumes "bl_rep P l (x # xs) z bs" and "n \<le> bl_current_read_size l"
    and "read_inx l + n = kBufferSize"
  shows "\<exists>l' P' v. bl_read_advance n l P = Inr (l', P') \<and> free_list P' = free_list P @ [x]
    \<and> cells (store P') x = Some v \<and> next_buf v = At (hd (xs @ [z])) \<and> read_ptr l' = At (hd (xs @ [z]))"
proof -
  obtain b where b: "cells (store P) x = Some b" and nx: "next_buf b = At (hd (xs @ [z]))"
    using assms(1) by (cases xs) (auto simp: bl_rep_def block_linked_def)
  have "read_ptr l = At x" using assms(1) by (simp add: bl_rep_def)
  then show ?thesis
    using assms(3) b nx
    by (simp add: bl_read_advance_def pool_free_def buffer_reset_def kBufferSize_def)
qed

text \<open>
  A concrete pool for the witnesses: block 0 links to block 1; block 0 is free or in use as
  \<open>free\<close> says.
\<close>

definition two_blocks :: "addr list \<Rightarrow> bpool" where
  "two_blocks free = \<lparr>store = \<lparr>cells = [0 \<mapsto> buffer_new\<lparr>next_buf := At 1\<rparr>, 1 \<mapsto> buffer_new],
     avail = [], brk = 2\<rparr>, free_list = free\<rparr>"

lemma two_blocks_wf: "free \<in> {[], [0]} \<Longrightarrow> bpool_wf (two_blocks free)"
  by (auto simp: two_blocks_def bpool_wf_def pool_wf_def heap_wf_def pool_all_def buffer_wf_def
      buffer_new_def split: if_splits)

definition list_0_1 :: buffer_list where
  "list_0_1 = \<lparr>read_inx = 4095, write_inx = 0, head_ptr = At 0, read_ptr = At 0, write_ptr = At 1,
     write_size = 4096, read_size = 4095\<rparr>"

definition list_1 :: buffer_list where
  "list_1 = \<lparr>read_inx = 0, write_inx = 0, head_ptr = At 1, read_ptr = At 1, write_ptr = At 1,
     write_size = 4096, read_size = 4096\<rparr>"

lemma list_0_1_rep: "bl_rep (two_blocks []) list_0_1 [0] 1 [48]"
  using two_blocks_wf [of "[]"]
  by (simp add: bl_rep_def list_0_1_def two_blocks_def pool_in_use_def block_linked_def
      kBufferSize_def bl_bytes_def block_data_def buffer_new_def bl_readable_size_def)

lemma list_1_rep: "bl_rep (two_blocks [0]) list_1 [] 1 []"
  using two_blocks_wf [of "[0]"]
  by (simp add: bl_rep_def list_1_def two_blocks_def pool_in_use_def
      kBufferSize_def bl_bytes_def block_data_def buffer_new_def bl_readable_size_def)

lemma recycled_block_keeps_link_witness:
  "\<exists>l' P' v. bl_read_advance 1 list_0_1 (two_blocks []) = Inr (l', P')
    \<and> free_list P' = free_list (two_blocks []) @ [0]
    \<and> cells (store P') 0 = Some v \<and> next_buf v = At (hd ([] @ [1])) \<and> read_ptr l' = At (hd ([] @ [1]))"
  using recycled_block_keeps_link [OF list_0_1_rep, of 1] bl_rep_current(1) [OF list_0_1_rep]
  by (simp add: list_0_1_def kBufferSize_def)

text \<open>
  C30. A list built on a recycled block whose stale link points at a block of another list frees
  that block when it is destroyed: the destructor follows the link, and the block the other
  list still writes to goes back to the pool with its bytes erased.
\<close>
theorem stale_link_frees_other_list:
  assumes "bl_rep P la xs z bs" and "free_list P = x # fs" and "cells (store P) x = Some v"
    and "next_buf v = At z" and "block_ends (store P) z" and "bl_new P = (lb, Q)"
  shows "\<exists>R. bl_destroy lb Q = Inr R \<and> write_ptr la = At z \<and> z \<notin> pool_in_use R
    \<and> block_data (store R) z = replicate kBufferSize 48"
proof -
  obtain b where b: "cells (store P) z = Some b" "next_buf b = Null"
    using assms(5) by (auto simp: block_ends_def)
  have zx: "z \<noteq> x" using b assms(3,4) by auto
  have lb: "head_ptr lb = At x" and Q: "Q = P\<lparr>free_list := fs\<rparr>"
    using assms(2,6) by (auto simp: bl_new_def pool_get_def)
  have "write_ptr la = At z" using assms(1) by (simp add: bl_rep_def)
  moreover have "\<exists>R. bl_destroy lb Q = Inr R \<and> z \<notin> pool_in_use R
    \<and> block_data (store R) z = replicate kBufferSize 48"
    using b assms(3,4) zx
    by (simp add: bl_destroy_def lb Q bl_destroy_loop.simps pool_free_def buffer_reset_def
        pool_in_use_def block_data_def)
  ultimately show ?thesis by blast
qed

theorem stale_link_frees_other_list_witness:
  "\<exists>R. bl_destroy (fst (bl_new (two_blocks [0]))) (snd (bl_new (two_blocks [0]))) = Inr R
    \<and> write_ptr list_1 = At 1 \<and> 1 \<notin> pool_in_use R \<and> block_data (store R) 1 = replicate kBufferSize 48"
  by (rule stale_link_frees_other_list [OF list_1_rep, of 0 "[]" "buffer_new\<lparr>next_buf := At 1\<rparr>"])
    (simp_all add: two_blocks_def block_ends_def buffer_new_def)

end
