(* ===== verification/Packet_Parser.thy ===== *)
theory Packet_Parser
  imports Murmur Buffers
begin

text \<open>
  \<open>src/rpc/packet.h\<close>, \<open>packet_parser.h\<close> and \<open>packet_parser.cc\<close>: the RPC packet and the state
  machine that reads packets from a socket. The socket enters through the operations the parser
  calls on it, \<open>Read\<close> (\<open>rd\<close>), \<open>ReadBufferSize\<close> (\<open>sz\<close>) and \<open>Write\<close> (\<open>wr\<close>): they are arguments of
  the definitions, and the lemmas hold for every implementation of the locale \<open>byte_queue\<close>.
\<close>

section \<open>Packets\<close>

definition kMetaSize :: nat where
  "kMetaSize = 21"

definition kPacketMagicNum :: byte where
  "kPacketMagicNum = 0x2B"

text \<open>\<open>recv_done_\<close> is \<open>None\<close> while it is uninitialised.\<close>

record packet =
  magic :: byte
  guid :: u64
  method_id :: u64
  pkt_size :: u32
  content :: "byte list"
  recv_done :: "bool option"

definition packet_empty :: packet where
  "packet_empty = \<lparr>magic = 0, guid = 0, method_id = 0, pkt_size = 0, content = [], recv_done = Some False\<rparr>"

text \<open>
  \<open>Packet (id, method, req)\<close>: \<open>body\<close> is what \<open>SerializeToString\<close> produced, \<open>name\<close> the full name
  of the method if there is one. The length is truncated to 32 bits.
\<close>

definition packet_new :: "u64 \<Rightarrow> byte list option \<Rightarrow> byte list \<Rightarrow> packet" where
  "packet_new call_id name body =
     \<lparr>magic = kPacketMagicNum, guid = call_id,
      method_id = (case name of None \<Rightarrow> 0 | Some n \<Rightarrow> HashString n),
      pkt_size = word_of_nat (length body), content = body, recv_done = None\<rparr>"

section \<open>Sending\<close>

definition send_packet :: "(byte list \<Rightarrow> 's \<Rightarrow> 's res) \<Rightarrow> packet \<Rightarrow> 's \<Rightarrow> 's res" where
  "send_packet wr p s =
     bindR (wr [magic p] s) (\<lambda>s.
     bindR (wr (store64 (guid p)) s) (\<lambda>s.
     bindR (wr (store64 (method_id p)) s) (\<lambda>s.
     bindR (wr (store32 (pkt_size p)) s) (\<lambda>s.
     wr (content p) s))))"

section \<open>Receiving\<close>

datatype recv_state = RECV_HEADER_STATE | RECV_PACKET_STATE | RECV_DONE

record parser =
  pstate :: recv_state
  packet :: packet

definition parser_new :: parser where
  "parser_new = \<lparr>pstate = RECV_HEADER_STATE, packet = packet_empty\<rparr>"

text \<open>
  \<open>socket_->Read (&field, sizeof (field))\<close> for each of the four header fields: what was read
  overwrites the bytes of the field.
\<close>

definition read_header :: "(nat \<Rightarrow> 's \<Rightarrow> (byte list \<times> 's) res) \<Rightarrow> packet \<Rightarrow> 's \<Rightarrow> (packet \<times> 's) res" where
  "read_header rd p s =
     bindR (rd 1 s) (\<lambda>(bs, s). let p = p\<lparr>magic := hd (overlay bs [magic p])\<rparr> in
     bindR (rd 8 s) (\<lambda>(bs, s). let p = p\<lparr>guid := load64 (overlay bs (store64 (guid p)))\<rparr> in
     bindR (rd 8 s) (\<lambda>(bs, s). let p = p\<lparr>method_id := load64 (overlay bs (store64 (method_id p)))\<rparr> in
     bindR (rd 4 s) (\<lambda>(bs, s). let p = p\<lparr>pkt_size := load32 (overlay bs (store32 (pkt_size p)))\<rparr> in
     Inr (p, s)))))"

text \<open>\<open>string::resize\<close>: cut, or filled up with zero bytes.\<close>

definition resize :: "nat \<Rightarrow> byte list \<Rightarrow> byte list" where
  "resize n bs = take n bs @ replicate (n - length bs) 0"

text \<open>The \<open>while (!done)\<close> loop over the states; every return is a branch.\<close>

function recv_loop :: "(nat \<Rightarrow> 's \<Rightarrow> (byte list \<times> 's) res) \<Rightarrow> ('s \<Rightarrow> nat) \<Rightarrow> parser \<Rightarrow> 's
    \<Rightarrow> (bool \<times> parser \<times> 's) res" where
  "recv_loop rd sz r s =
     (case pstate r of
        RECV_HEADER_STATE \<Rightarrow>
          if sz s < kMetaSize then Inr (False, r, s)
          else bindR (read_header rd ((packet r)\<lparr>recv_done := Some False\<rparr>) s) (\<lambda>(p, s).
            if magic p \<noteq> kPacketMagicNum then Inr (False, r\<lparr>packet := p\<rparr>, s)
            else recv_loop rd sz (r\<lparr>packet := p, pstate := RECV_PACKET_STATE\<rparr>) s)
      | RECV_PACKET_STATE \<Rightarrow>
          let read_size = unat (pkt_size (packet r)) in
          if sz s < read_size then Inr (False, r, s)
          else bindR (rd read_size s) (\<lambda>(bs, s).
            let p = (packet r)\<lparr>content := overlay bs (resize read_size (content (packet r)))\<rparr> in
            recv_loop rd sz (r\<lparr>packet := p, pstate := RECV_DONE\<rparr>) s)
      | RECV_DONE \<Rightarrow>
          Inr (True, r\<lparr>pstate := RECV_HEADER_STATE, packet := (packet r)\<lparr>recv_done := Some True\<rparr>\<rparr>, s))"
  by pat_completeness auto
termination
  by (relation "measure (\<lambda>(rd, sz, r, s). case pstate r of
      RECV_HEADER_STATE \<Rightarrow> 2 | RECV_PACKET_STATE \<Rightarrow> 1 | RECV_DONE \<Rightarrow> 0)") auto

declare recv_loop.simps [simp del]

text \<open>\<open>RecvPacket\<close> asserts that it was not left in \<open>RECV_DONE\<close>.\<close>

definition recv_packet :: "(nat \<Rightarrow> 's \<Rightarrow> (byte list \<times> 's) res) \<Rightarrow> ('s \<Rightarrow> nat) \<Rightarrow> parser \<Rightarrow> 's
    \<Rightarrow> (bool \<times> parser \<times> 's) res" where
  "recv_packet rd sz r s =
     (if pstate r = RECV_DONE then Inl Assert_Failed else recv_loop rd sz r s)"

text \<open>
  \<open>while (parser_->RecvPacket ())\<close>, as \<open>RpcSession::OnRead\<close> and \<open>RpcChannel::OnRead\<close> run it: the
  packets in the order in which they reach the body of the loop.
\<close>

partial_function (option) recv_all :: "(nat \<Rightarrow> 's \<Rightarrow> (byte list \<times> 's) res) \<Rightarrow> ('s \<Rightarrow> nat)
    \<Rightarrow> packet list \<Rightarrow> parser \<Rightarrow> 's \<Rightarrow> (packet list \<times> parser \<times> 's) res option" where
  "recv_all rd sz acc r s =
     (case recv_packet rd sz r s of
        Inl e \<Rightarrow> Some (Inl e)
      | Inr (ok, r', s') \<Rightarrow>
          if ok then recv_all rd sz (acc @ [packet r']) r' s' else Some (Inr (acc, r', s')))"

text \<open>Bytes arrive in chunks; after each chunk the loop above runs once.\<close>

fun recv_chunks :: "(byte list \<Rightarrow> 's \<Rightarrow> 's res) \<Rightarrow> (nat \<Rightarrow> 's \<Rightarrow> (byte list \<times> 's) res) \<Rightarrow> ('s \<Rightarrow> nat)
    \<Rightarrow> byte list list \<Rightarrow> parser \<Rightarrow> 's \<Rightarrow> (packet list \<times> parser \<times> 's) res" where
  "recv_chunks wr rd sz [] r s = Inr ([], r, s)"
| "recv_chunks wr rd sz (c # cs) r s =
     bindR (wr c s) (\<lambda>s. bindR (loopR (recv_all rd sz [] r s)) (\<lambda>(ps, r, s).
       bindR (recv_chunks wr rd sz cs r s) (\<lambda>(qs, r, s). Inr (ps @ qs, r, s))))"

section \<open>The wire format\<close>

definition header :: "packet \<Rightarrow> byte list" where
  "header p = magic p # store64 (guid p) @ store64 (method_id p) @ store32 (pkt_size p)"

definition encode :: "packet \<Rightarrow> byte list" where
  "encode p = header p @ content p"

definition packet_ok :: "packet \<Rightarrow> bool" where
  "packet_ok p \<longleftrightarrow> magic p = kPacketMagicNum \<and> unat (pkt_size p) = length (content p)"

definition received :: "packet \<Rightarrow> packet" where
  "received p = p\<lparr>recv_done := Some True\<rparr>"

lemma length_header [simp]: "length (header p) = kMetaSize"
  by (simp add: header_def kMetaSize_def)

lemma length_encode [simp]: "length (encode p) = kMetaSize + length (content p)"
  by (simp add: encode_def)

lemma packet_new_ok: "length body < 2 ^ 32 \<Longrightarrow> packet_ok (packet_new call_id name body)"
  by (simp add: packet_ok_def packet_new_def)

text \<open>What the parser holds once it has read the header of \<open>p\<close>.\<close>

definition header_of :: "packet \<Rightarrow> packet \<Rightarrow> bool" where
  "header_of q p \<longleftrightarrow> magic q = magic p \<and> guid q = guid p \<and> method_id q = method_id p
     \<and> pkt_size q = pkt_size p"

lemma header_of_content:
  "header_of q p \<Longrightarrow> q\<lparr>content := content p, recv_done := Some True\<rparr> = received p"
  by (simp add: header_of_def received_def)

text \<open>
  \<open>pending r bs fut ps\<close>: the parser \<open>r\<close>, with the bytes \<open>bs\<close> waiting and \<open>fut\<close> still to arrive,
  is in the middle of the packets \<open>ps\<close>. \<open>stalled r bs\<close>: it cannot go on with \<open>bs\<close>.
\<close>

fun pending :: "parser \<Rightarrow> byte list \<Rightarrow> byte list \<Rightarrow> packet list \<Rightarrow> bool" where
  "pending r bs fut [] \<longleftrightarrow> pstate r = RECV_HEADER_STATE \<and> bs = [] \<and> fut = []"
| "pending r bs fut (p # ps) \<longleftrightarrow> (\<forall>q \<in> set (p # ps). packet_ok q) \<and>
     (case pstate r of
        RECV_HEADER_STATE \<Rightarrow> bs @ fut = encode p @ concat (map encode ps)
      | RECV_PACKET_STATE \<Rightarrow> header_of (packet r) p
          \<and> bs @ fut = content p @ concat (map encode ps)
      | RECV_DONE \<Rightarrow> False)"

definition stalled :: "parser \<Rightarrow> byte list \<Rightarrow> bool" where
  "stalled r bs \<longleftrightarrow> (case pstate r of
     RECV_HEADER_STATE \<Rightarrow> length bs < kMetaSize
   | RECV_PACKET_STATE \<Rightarrow> length bs < unat (pkt_size (packet r))
   | RECV_DONE \<Rightarrow> False)"

lemma pending_headerI:
  "\<forall>q \<in> set ps. packet_ok q \<Longrightarrow> pstate r = RECV_HEADER_STATE \<Longrightarrow> bs @ fut = concat (map encode ps)
    \<Longrightarrow> pending r bs fut ps"
  by (cases ps) auto

lemma pending_append: "pending r (bs @ cs) fut ps \<longleftrightarrow> pending r bs (cs @ fut) ps"
  by (cases ps) (auto split: recv_state.splits)

text \<open>Nothing is left unread when every byte has arrived.\<close>

lemma pending_stalled_done:
  assumes "pending r bs [] ps" and "stalled r bs"
  shows "ps = [] \<and> bs = [] \<and> pstate r = RECV_HEADER_STATE"
  using assms
  by (cases ps) (auto simp: stalled_def packet_ok_def header_of_def split: recv_state.splits)

text \<open>Enough bytes wait for the next header, resp. the rest of the packet.\<close>

lemma prefix_split:
  "bs @ fut = xs @ ys \<Longrightarrow> length xs \<le> length bs \<Longrightarrow> \<exists>zs. bs = xs @ zs \<and> zs @ fut = ys"
  by (auto simp: append_eq_append_conv2)

section \<open>Sending appends the encoding\<close>

context byte_sink begin

lemma send_packet_rep:
  assumes "rep s bs" and "length bs + length (encode p) < 2 ^ 64"
  shows "\<exists>s'. send_packet wr p s = Inr s' \<and> rep s' (bs @ encode p)"
proof -
  note len = assms(2) [unfolded length_encode kMetaSize_def]
  obtain s1 where 1: "wr [magic p] s = Inr s1" "rep s1 (bs @ [magic p])"
    using wr_rep [OF assms(1), of "[magic p]"] len by auto
  obtain s2 where 2: "wr (store64 (guid p)) s1 = Inr s2" "rep s2 ((bs @ [magic p]) @ store64 (guid p))"
    using wr_rep [OF 1(2), of "store64 (guid p)"] len by auto
  obtain s3 where 3: "wr (store64 (method_id p)) s2 = Inr s3"
    "rep s3 (((bs @ [magic p]) @ store64 (guid p)) @ store64 (method_id p))"
    using wr_rep [OF 2(2), of "store64 (method_id p)"] len by auto
  obtain s4 where 4: "wr (store32 (pkt_size p)) s3 = Inr s4"
    "rep s4 ((((bs @ [magic p]) @ store64 (guid p)) @ store64 (method_id p)) @ store32 (pkt_size p))"
    using wr_rep [OF 3(2), of "store32 (pkt_size p)"] len by auto
  obtain s5 where 5: "wr (content p) s4 = Inr s5"
    "rep s5 (((((bs @ [magic p]) @ store64 (guid p)) @ store64 (method_id p)) @ store32 (pkt_size p)) @ content p)"
    using wr_rep [OF 4(2), of "content p"] len by auto
  show ?thesis
    using 1 2 3 4 5 by (simp add: send_packet_def encode_def header_def)
qed

end

text \<open>A client that sends several packets.\<close>

fun send_packets :: "(byte list \<Rightarrow> 's \<Rightarrow> 's res) \<Rightarrow> packet list \<Rightarrow> 's \<Rightarrow> 's res" where
  "send_packets wr [] s = Inr s"
| "send_packets wr (p # ps) s = bindR (send_packet wr p s) (send_packets wr ps)"

context byte_sink begin

lemma send_packets_rep:
  "rep s bs \<Longrightarrow> length bs + length (concat (map encode ps)) < 2 ^ 64
    \<Longrightarrow> \<exists>s'. send_packets wr ps s = Inr s' \<and> rep s' (bs @ concat (map encode ps))"
proof (induction ps arbitrary: s bs)
  case (Cons p ps)
  then obtain s1 where "send_packet wr p s = Inr s1" "rep s1 (bs @ encode p)"
    using send_packet_rep [of s bs p] by auto
  then show ?case using Cons.IH [of s1 "bs @ encode p"] Cons.prems(2) by simp
qed simp

end

section \<open>Receiving\<close>

context byte_source begin

lemma read_header_rep:
  assumes "rep s (header p @ ys)"
  shows "\<exists>q s'. read_header rd q0 s = Inr (q, s') \<and> header_of q p
    \<and> recv_done q = recv_done q0 \<and> rep s' ys"
proof -
  obtain s1 where 1: "rd 1 s = Inr ([magic p], s1)"
    "rep s1 (store64 (guid p) @ store64 (method_id p) @ store32 (pkt_size p) @ ys)"
    using rd_exact [of s "[magic p]"] assms by (auto simp: header_def)
  obtain s2 where 2: "rd 8 s1 = Inr (store64 (guid p), s2)"
    "rep s2 (store64 (method_id p) @ store32 (pkt_size p) @ ys)"
    using rd_exact [OF 1(2)] by auto
  obtain s3 where 3: "rd 8 s2 = Inr (store64 (method_id p), s3)" "rep s3 (store32 (pkt_size p) @ ys)"
    using rd_exact [OF 2(2)] by auto
  obtain s4 where 4: "rd 4 s3 = Inr (store32 (pkt_size p), s4)" "rep s4 ys"
    using rd_exact [OF 3(2)] by auto
  show ?thesis
    using 1 2 3 4 by (auto simp: read_header_def header_of_def overlay_def)
qed

lemma recv_packet_state:
  assumes "rep s bs" and "pstate r = RECV_PACKET_STATE" and "pending r bs fut (p # ps)"
  shows "(\<exists>r' s' bs'. recv_loop rd sz r s = Inr (True, r', s') \<and> packet r' = received p
      \<and> rep s' bs' \<and> pending r' bs' fut ps \<and> length bs' \<le> length bs)
    \<or> (recv_loop rd sz r s = Inr (False, r, s) \<and> stalled r bs)"
proof (cases "length bs < unat (pkt_size (packet r))")
  case True
  then show ?thesis
    using assms(1,2) by (simp add: recv_loop.simps [of rd sz r] sz_rep stalled_def Let_def)
next
  case False
  have p: "unat (pkt_size (packet r)) = length (content p)" "header_of (packet r) p"
    and b: "bs @ fut = content p @ concat (map encode ps)" and ok: "\<forall>q \<in> set ps. packet_ok q"
    using assms(2,3) by (auto simp: packet_ok_def header_of_def)
  obtain zs where zs: "bs = content p @ zs" "zs @ fut = concat (map encode ps)"
    using prefix_split [OF b] False p(1) by auto
  obtain s1 where s1: "rd (length (content p)) s = Inr (content p, s1)" "rep s1 zs"
    using rd_exact [of s "content p" zs] assms(1) zs by auto
  define r' where "r' = r\<lparr>pstate := RECV_HEADER_STATE, packet := received p\<rparr>"
  have "recv_loop rd sz r s = Inr (True, r', s1)"
    using False assms(1,2) p s1 header_of_content [OF p(2)]
    by (simp add: recv_loop.simps [of rd sz r] recv_loop.simps sz_rep Let_def r'_def overlay_def
        resize_def)
  moreover have "pending r' zs fut ps"
    using zs ok by (intro pending_headerI) (auto simp: r'_def)
  moreover have "length zs \<le> length bs" "packet r' = received p" using zs by (simp_all add: r'_def)
  ultimately show ?thesis using s1(2) by blast
qed

lemma recv_loop_pending:
  assumes "rep s bs" and "pending r bs fut ps"
  shows "(\<exists>p ps' r' s' bs'. ps = p # ps' \<and> recv_loop rd sz r s = Inr (True, r', s')
      \<and> packet r' = received p \<and> rep s' bs' \<and> pending r' bs' fut ps' \<and> length bs' \<le> length bs)
    \<or> (\<exists>r' s' bs'. recv_loop rd sz r s = Inr (False, r', s') \<and> rep s' bs'
      \<and> pending r' bs' fut ps \<and> stalled r' bs' \<and> length bs' \<le> length bs)"
proof (cases ps)
  case Nil
  then show ?thesis
    using assms by (simp add: recv_loop.simps [of rd sz r] sz_rep kMetaSize_def stalled_def)
next
  case (Cons p ps')
  show ?thesis
  proof (cases "pstate r")
    case RECV_HEADER_STATE
    have b: "bs @ fut = header p @ content p @ concat (map encode ps')"
      and ok: "\<forall>q \<in> set ps. packet_ok q"
      using assms(2) Cons RECV_HEADER_STATE by (auto simp: encode_def)
    show ?thesis
    proof (cases "length bs < kMetaSize")
      case True
      then show ?thesis
        using assms RECV_HEADER_STATE
        by (simp add: recv_loop.simps [of rd sz r] sz_rep stalled_def) blast
    next
      case False
      then obtain zs where zs: "bs = header p @ zs" "zs @ fut = content p @ concat (map encode ps')"
        using prefix_split [OF b] by auto
      obtain q s1 where q: "read_header rd ((packet r)\<lparr>recv_done := Some False\<rparr>) s = Inr (q, s1)"
        "header_of q p" "rep s1 zs"
        using read_header_rep [of s p zs] assms(1) zs by blast
      define r1 where "r1 = r\<lparr>packet := q, pstate := RECV_PACKET_STATE\<rparr>"
      have "magic q = kPacketMagicNum" using q(2) ok Cons by (simp add: header_of_def packet_ok_def)
      then have step: "recv_loop rd sz r s = recv_loop rd sz r1 s1"
        using False assms(1) RECV_HEADER_STATE q(1)
        by (simp add: recv_loop.simps [of rd sz r] sz_rep r1_def)
      have pe: "pending r1 zs fut (p # ps')"
        using zs q(2) ok Cons by (simp add: r1_def)
      have "pstate r1 = RECV_PACKET_STATE" by (simp add: r1_def)
      from recv_packet_state [OF q(3) this pe] consider
        (full) r' s' bs' where "recv_loop rd sz r1 s1 = Inr (True, r', s')" "packet r' = received p"
          "rep s' bs'" "pending r' bs' fut ps'" "length bs' \<le> length zs"
      | (part) "recv_loop rd sz r1 s1 = Inr (False, r1, s1)" "stalled r1 zs" by blast
      then show ?thesis
      proof cases
        case full
        have "length bs' \<le> length bs" using full(5) zs by simp
        then show ?thesis using full Cons step by metis
      next
        case part
        have "length zs \<le> length bs" using zs by simp
        then show ?thesis using part Cons step q(3) pe by metis
      qed
    qed
  next
    case RECV_PACKET_STATE
    from recv_packet_state [OF assms(1) this, of fut p ps'] show ?thesis
      using assms Cons by blast
  next
    case RECV_DONE
    then show ?thesis using assms(2) Cons by simp
  qed
qed

lemma pending_not_done: "pending r bs fut ps \<Longrightarrow> pstate r \<noteq> RECV_DONE"
  by (cases ps) auto

lemma recv_all_pending:
  "rep s bs \<Longrightarrow> pending r bs fut ps \<Longrightarrow>
    \<exists>dn rest r' s' bs'. ps = dn @ rest \<and> recv_all rd sz acc r s = Some (Inr (acc @ map received dn, r', s'))
      \<and> rep s' bs' \<and> pending r' bs' fut rest \<and> stalled r' bs' \<and> length bs' \<le> length bs"
proof (induction ps arbitrary: acc r s bs)
  case Nil
  from recv_loop_pending [OF Nil] pending_not_done [OF Nil(2)] show ?case
    by (subst recv_all.simps) (auto simp: recv_packet_def)
next
  case (Cons p ps)
  from recv_loop_pending [OF Cons.prems] consider
    (full) r' s' bs' where "recv_loop rd sz r s = Inr (True, r', s')" "packet r' = received p"
      "rep s' bs'" "pending r' bs' fut ps" "length bs' \<le> length bs"
  | (part) r' s' bs' where "recv_loop rd sz r s = Inr (False, r', s')" "rep s' bs'"
      "pending r' bs' fut (p # ps)" "stalled r' bs'" "length bs' \<le> length bs"
    by blast
  then show ?case
  proof cases
    case full
    from Cons.IH [OF full(3,4), of "acc @ [received p]"] obtain dn rest r2 s2 bs2 where
      "ps = dn @ rest" "recv_all rd sz (acc @ [received p]) r' s'
         = Some (Inr ((acc @ [received p]) @ map received dn, r2, s2))"
      "rep s2 bs2" "pending r2 bs2 fut rest" "stalled r2 bs2" "length bs2 \<le> length bs'" by blast
    then show ?thesis
      using full pending_not_done [OF Cons.prems(2)]
      by (subst recv_all.simps, intro exI [of _ "p # dn"] exI [of _ rest])
        (auto simp: recv_packet_def)
  next
    case part
    then show ?thesis
      using pending_not_done [OF Cons.prems(2)]
      by (subst recv_all.simps, intro exI [of _ "[]"] exI [of _ "p # ps"])
        (auto simp: recv_packet_def)
  qed
qed

end

text \<open>However the byte stream is cut, the packets come out once each and in order.\<close>

context byte_queue begin

lemma recv_chunks_pending:
  "rep s bs \<Longrightarrow> stalled r bs \<Longrightarrow> pending r bs (concat cs) ps
    \<Longrightarrow> length bs + length (concat cs) < 2 ^ 64
    \<Longrightarrow> \<exists>r' s'. recv_chunks wr rd sz cs r s = Inr (map received ps, r', s') \<and> rep s' []
      \<and> pstate r' = RECV_HEADER_STATE"
proof (induction cs arbitrary: s bs r ps)
  case Nil
  then show ?case using pending_stalled_done [of r bs ps] by auto
next
  case (Cons c cs)
  obtain s1 where s1: "wr c s = Inr s1" "rep s1 (bs @ c)"
    using wr_rep [OF Cons.prems(1), of c] Cons.prems(4) by auto
  have pe: "pending r (bs @ c) (concat cs) ps" using Cons.prems(3) by (simp add: pending_append)
  obtain dn rest r2 s2 bs2 where
    2: "ps = dn @ rest" "recv_all rd sz [] r s1 = Some (Inr (map received dn, r2, s2))"
      "rep s2 bs2" "pending r2 bs2 (concat cs) rest" "stalled r2 bs2" "length bs2 \<le> length (bs @ c)"
    using recv_all_pending [OF s1(2) pe, of "[]"] by auto
  have l: "length bs2 + length (concat cs) < 2 ^ 64"
    using 2(6) Cons.prems(4) by simp
  from Cons.IH [OF 2(3,5,4) l] show ?case using s1(1) 2(1,2) by auto
qed

end

section \<open>A bad magic number\<close>

lemma header_surj:
  assumes "length h = kMetaSize"
  shows "\<exists>p. header p = h \<and> magic p = hd h"
proof -
  let ?p = "\<lparr>magic = hd h, guid = load64 (take 8 (drop 1 h)),
    method_id = load64 (take 8 (drop 9 h)), pkt_size = load32 (drop 17 h), content = [],
    recv_done = None\<rparr>"
  have "header ?p = hd h # take 8 (drop 1 h) @ take 8 (drop 9 h) @ drop 17 h"
    using assms by (simp add: header_def store_load64 store_load32 kMetaSize_def)
  also have "\<dots> = hd h # drop 1 h"
    using append_take_drop_id [of 8 "drop 9 h"] append_take_drop_id [of 8 "drop 1 h"] by simp
  also have "\<dots> = h" using assms by (cases h) (auto simp: kMetaSize_def)
  finally show ?thesis by (intro exI [of _ ?p]) simp
qed

context byte_source begin

lemma bad_magic_rep:
  assumes "rep s (h @ ys)" and "length h = kMetaSize" and "hd h \<noteq> kPacketMagicNum"
    and "pstate r = RECV_HEADER_STATE"
  shows "\<exists>r' s'. recv_packet rd sz r s = Inr (False, r', s') \<and> pstate r' = RECV_HEADER_STATE \<and> rep s' ys"
proof -
  obtain p where p: "header p = h" "magic p = hd h" using header_surj [OF assms(2)] by blast
  then obtain q s' where "read_header rd ((packet r)\<lparr>recv_done := Some False\<rparr>) s = Inr (q, s')"
    "header_of q p" "rep s' ys"
    using read_header_rep [of s p ys] assms(1) by blast
  then show ?thesis
    using assms p sz_rep [OF assms(1)]
    by (simp add: recv_packet_def recv_loop.simps [of rd sz r] header_of_def)
qed

end

section \<open>Properties\<close>

text \<open>The read buffer of the receiving socket, as the parser sees it.\<close>

abbreviation bl_sz :: "bl_state \<Rightarrow> nat" where
  "bl_sz \<equiv> bl_readable_size \<circ> fst"

text \<open>
  C5. Packets survive the stream: packets sent one after the other through a write buffer put
  their encodings there, and however the network cuts those bytes into chunks, a parser that
  runs once per chunk on a fresh read buffer delivers exactly the packets sent, in order, and
  leaves no byte behind.
\<close>
theorem packets_survive_fragmentation:
  assumes "bpool_wf P" and "\<forall>p \<in> set ps. packet_ok p" and "length (concat (map encode ps)) < 2 ^ 64"
  shows "\<exists>s. send_packets bl_wr ps (bl_new P) = Inr s
    \<and> (\<forall>cs Q. bl_holds s (concat cs) \<longrightarrow> bpool_wf Q \<longrightarrow>
        (\<exists>r t. recv_chunks bl_wr bl_rd bl_sz cs parser_new (bl_new Q) = Inr (map received ps, r, t)
          \<and> bl_holds t [] \<and> pstate r = RECV_HEADER_STATE))"
proof -
  obtain s where s: "send_packets bl_wr ps (bl_new P) = Inr s" "bl_holds s (concat (map encode ps))"
    using bl.send_packets_rep [OF bl_holds_new [OF assms(1)], of ps] assms(3) by auto
  have "\<exists>r t. recv_chunks bl_wr bl_rd bl_sz cs parser_new (bl_new Q) = Inr (map received ps, r, t)
      \<and> bl_holds t [] \<and> pstate r = RECV_HEADER_STATE"
    if h: "bl_holds s (concat cs)" "bpool_wf Q" for cs Q
  proof -
    have c: "concat cs = concat (map encode ps)" by (rule bl.rep_unique [OF h(1) s(2)])
    have "pending parser_new [] (concat cs) ps"
      using assms(2) c by (intro pending_headerI) (auto simp: parser_new_def)
    moreover have "stalled parser_new []" by (simp add: stalled_def parser_new_def kMetaSize_def)
    ultimately show ?thesis
      using bl.recv_chunks_pending [OF bl_holds_new [OF h(2)], of parser_new cs ps] assms(3) c by auto
  qed
  with s(1) show ?thesis by blast
qed

theorem packets_survive_fragmentation_witness:
  "\<exists>s. send_packets bl_wr [packet_new 7 None [1, 2]] (bl_new (pool_init buffer_new)) = Inr s
    \<and> (\<forall>cs Q. bl_holds s (concat cs) \<longrightarrow> bpool_wf Q \<longrightarrow>
        (\<exists>r t. recv_chunks bl_wr bl_rd bl_sz cs parser_new (bl_new Q)
            = Inr (map received [packet_new 7 None [1, 2]], r, t)
          \<and> bl_holds t [] \<and> pstate r = RECV_HEADER_STATE))"
  by (rule packets_survive_fragmentation [OF bpool_wf_init])
    (simp_all add: packet_new_ok, simp add: packet_new_def kMetaSize_def)

text \<open>
  C29. A packet with the wrong magic number is not skipped: the parser drops the 21 bytes of its
  header, reports no packet and stays in the header state, so the next call reads the content
  of the rejected packet as if it were a header.
\<close>
theorem bad_magic_drops_only_header:
  assumes "bl_holds s (h @ ys)" and "length h = kMetaSize" and "hd h \<noteq> kPacketMagicNum"
    and "pstate r = RECV_HEADER_STATE"
  shows "\<exists>r' s'. recv_packet bl_rd bl_sz r s = Inr (False, r', s')
    \<and> pstate r' = RECV_HEADER_STATE \<and> bl_holds s' ys"
  by (rule bl.bad_magic_rep [OF assms])

text \<open>A read buffer that holds 21 zero bytes and the bytes \<open>ys\<close>.\<close>

definition buffered :: "byte list \<Rightarrow> bl_state" where
  "buffered bs = (case bl_wr bs (bl_new (pool_init buffer_new)) of Inr s \<Rightarrow> s | Inl e \<Rightarrow> undefined)"

lemma buffered_holds: "length bs < 2 ^ 64 \<Longrightarrow> bl_holds (buffered bs) bs"
  using bl.wr_rep [OF bl_holds_new [OF bpool_wf_init], of bs] by (auto simp: buffered_def)

theorem bad_magic_drops_only_header_witness:
  "\<exists>r' s'. recv_packet bl_rd bl_sz parser_new (buffered (replicate 21 0 @ [1, 2])) = Inr (False, r', s')
    \<and> pstate r' = RECV_HEADER_STATE \<and> bl_holds s' [1, 2]"
  by (rule bad_magic_drops_only_header [OF buffered_holds])
    (simp_all add: kMetaSize_def kPacketMagicNum_def parser_new_def)

end
