(* ===== verification/Net.thy ===== *)
theory Net
  imports Buffers Errcode Strings
begin

text \<open>
  \<open>src/base/net.cc\<close>: the wrappers around the socket calls. The kernel is not part of the program: a
  \<open>kernel\<close> is a record of the calls the program makes, over a state \<open>'k\<close> of which nothing is
  assumed here. A call either fails with an error number, which goes to \<open>errno\<close>, or returns a value
  and leaves \<open>errno\<close> alone, as POSIX has it. Logging is taken to leave \<open>errno\<close> alone too.
\<close>

section \<open>The kernel\<close>

type_synonym ('k, 'a) call = "'k \<Rightarrow> (int + 'a) \<times> 'k"

text \<open>
  \<open>k_read fd n\<close> returns the bytes stored, at most \<open>n\<close>; \<open>k_write fd seen n\<close> is offered \<open>n\<close> bytes at an
  address behind which the bytes \<open>seen\<close> lie in the same object, and returns how many it took.
\<close>

record 'k kernel =
  k_socket :: "('k, int) call"
  k_reuseaddr :: "int \<Rightarrow> ('k, unit) call"
  k_getfl :: "int \<Rightarrow> ('k, int) call"
  k_setfl :: "int \<Rightarrow> int \<Rightarrow> ('k, unit) call"
  k_aton :: "string \<Rightarrow> u32 option"
  k_bind :: "int \<Rightarrow> u16 \<Rightarrow> u32 \<Rightarrow> ('k, unit) call"
  k_listen :: "int \<Rightarrow> int \<Rightarrow> ('k, unit) call"
  k_accept :: "int \<Rightarrow> ('k, int) call"
  k_connect :: "int \<Rightarrow> u16 \<Rightarrow> string \<Rightarrow> ('k, unit) call"
  k_read :: "int \<Rightarrow> nat \<Rightarrow> ('k, byte list) call"
  k_write :: "int \<Rightarrow> byte list \<Rightarrow> nat \<Rightarrow> ('k, nat) call"
  k_getpeername :: "int \<Rightarrow> ('k, string \<times> u16) call"
  k_close :: "int \<Rightarrow> ('k, unit) call"
  k_eventfd :: "('k, int) call"

text \<open>\<open>errno\<close> of the running thread and the state of the kernel.\<close>

type_synonym 'k env = "int \<times> 'k"

definition syscall :: "('k, 'a) call \<Rightarrow> 'k env \<Rightarrow> 'a option \<times> 'k env" where
  "syscall f s = (case f (snd s) of (Inl e, k) \<Rightarrow> (None, e, k) | (Inr v, k) \<Rightarrow> (Some v, fst s, k))"

definition kO_NONBLOCK :: int where
  "kO_NONBLOCK = 2048"

section \<open>Listening and accepting\<close>

text \<open>Results are the value returned, what \<open>*err\<close> holds, and the environment.\<close>

definition createListenSocket :: "'k kernel \<Rightarrow> int \<Rightarrow> 'k env \<Rightarrow> int \<times> int \<times> 'k env" where
  "createListenSocket K err s =
     (case syscall (k_socket K) s of
        (None, s) \<Rightarrow> (-1, fst s, s)
      | (Some fd, s) \<Rightarrow>
          (case syscall (k_reuseaddr K fd) s of
             (None, s) \<Rightarrow> (-1, fst s, s)
           | (Some _, s) \<Rightarrow> (fd, err, s)))"

definition setNonBlocking :: "'k kernel \<Rightarrow> int \<Rightarrow> 'k env \<Rightarrow> int \<times> 'k env" where
  "setNonBlocking K fd s =
     (case syscall (k_getfl K fd) s of
        (None, s) \<Rightarrow> (fst s, s)
      | (Some flags, s) \<Rightarrow>
          (case syscall (k_setfl K fd (flags OR kO_NONBLOCK)) s of
             (None, s) \<Rightarrow> (fst s, s)
           | (Some _, s) \<Rightarrow> (kOK, s)))"

text \<open>\<open>Close\<close> and the \<open>error:\<close> label of \<open>Listen\<close>.\<close>

definition net_close :: "'k kernel \<Rightarrow> int \<Rightarrow> 'k env \<Rightarrow> 'k env" where
  "net_close K fd s = snd (syscall (k_close K fd) s)"

definition Listen :: "'k kernel \<Rightarrow> endpoint \<Rightarrow> int \<Rightarrow> 'k env \<Rightarrow> int \<times> int \<times> 'k env" where
  "Listen K ep backlog s =
     (let err = kOK; (fd, err, s) = createListenSocket K err s in
      if err \<noteq> kOK then (kError, err, s)
      else
        let (ret, s) = setNonBlocking K fd s in
        if ret \<noteq> kOK then (kError, err, net_close K fd s)
        else
          case k_aton K (ep_addr ep) of
            None \<Rightarrow> (kError, fst s, net_close K fd s)
          | Some a \<Rightarrow>
              (case syscall (k_bind K fd (ep_port ep) a) s of
                 (None, s) \<Rightarrow> (kError, fst s, net_close K fd s)
               | (Some _, s) \<Rightarrow>
                   (case syscall (k_listen K fd backlog) s of
                      (None, s) \<Rightarrow> (kError, fst s, net_close K fd s)
                    | (Some _, s) \<Rightarrow> (fd, err, s))))"

partial_function (option) Accept :: "'k kernel \<Rightarrow> int \<Rightarrow> 'k env \<Rightarrow> (int \<times> int \<times> 'k env) option" where
  "Accept K listen_fd s =
     (case syscall (k_accept K listen_fd) s of
        (None, s) \<Rightarrow>
          if fst s = EAGAIN \<or> fst s = EWOULDBLOCK then Some (kOK, fst s, s)
          else if fst s = EINTR then Accept K listen_fd s
          else Some (kError, fst s, s)
      | (Some fd, s) \<Rightarrow>
          let (ret, s) = setNonBlocking K fd s in
          if ret \<noteq> kOK then Some (kError, kOK, s) else Some (fd, kOK, s))"

section \<open>Connecting\<close>

text \<open>The \<open>do ... while\<close> loop: \<open>errno\<close> is cleared before each attempt.\<close>

partial_function (option) connect_loop :: "'k kernel \<Rightarrow> endpoint \<Rightarrow> int \<Rightarrow> 'k env \<Rightarrow> (unit option \<times> 'k env) option" where
  "connect_loop K ep fd s =
     (case syscall (k_connect K fd (ep_port ep) (ep_addr ep)) (0, snd s) of
        (r, s) \<Rightarrow> if r = None \<and> fst s = EINTR then connect_loop K ep fd s else Some (r, s))"

definition ConnectAsync :: "'k kernel \<Rightarrow> endpoint \<Rightarrow> int \<Rightarrow> 'k env \<Rightarrow> (int \<times> 'k env) option" where
  "ConnectAsync K ep fd s =
     map_option (\<lambda>(r, s).
       if r = None then (if fst s = EINPROGRESS then (kOK, s) else (fst s, s)) else (kOK, s))
     (connect_loop K ep fd s)"

definition TcpSocket :: "'k kernel \<Rightarrow> 'k env \<Rightarrow> int \<times> 'k env" where
  "TcpSocket K s =
     (let (r, s) = syscall (k_socket K) s; fd = (case r of None \<Rightarrow> -1 | Some fd \<Rightarrow> fd)
      in (fd, snd (setNonBlocking K fd s)))"

definition MakeFdPair :: "'k kernel \<Rightarrow> 'k env \<Rightarrow> int \<times> int \<times> int \<times> 'k env" where
  "MakeFdPair K s =
     (case syscall (k_eventfd K) s of
        (None, s) \<Rightarrow> (kError, -1, -1, s)
      | (Some fd, s) \<Rightarrow> (kOK, fd, fd, s))"

definition GetEndpointByFd :: "'k kernel \<Rightarrow> int \<Rightarrow> endpoint \<Rightarrow> 'k env \<Rightarrow> (endpoint \<times> 'k env) res" where
  "GetEndpointByFd K fd ep s =
     (case syscall (k_getpeername K fd) s of
        (None, s) \<Rightarrow> Inr (ep, s)
      | (Some (a, p), s) \<Rightarrow> bindR (endpoint_init a p ep) (\<lambda>ep. Inr (ep, s)))"

section \<open>Receiving and sending\<close>

text \<open>The loop of \<open>Recv\<close>; \<open>ret\<close> is the sum so far. The result is the value returned and \<open>*err\<close>.\<close>

partial_function (option) recv_bytes ::
  "'k kernel \<Rightarrow> int \<Rightarrow> int \<Rightarrow> bl_state \<Rightarrow> 'k env \<Rightarrow> (int \<times> int \<times> bl_state \<times> 'k env) res option" where
  "recv_bytes K fd ret b s =
     (case syscall (k_read K fd (bl_writeable_size (fst b))) s of
        (Some bs, s) \<Rightarrow>
          if bs \<noteq> [] then
            (case bindR (bl_copy_in bs (fst b) (snd b)) (bl_write_advance (length bs) (fst b)) of
               Inl f \<Rightarrow> Some (Inl f)
             | Inr b \<Rightarrow> recv_bytes K fd (wrap32 (ret + int (length bs))) b s)
          else Some (Inr (kError, fst s, b, s))
      | (None, s) \<Rightarrow>
          if IsIOTryAgain (fst s) then Some (Inr (ret, fst s, b, s))
          else if fst s = EINTR then recv_bytes K fd ret b s
          else Some (Inr (kError, fst s, b, s)))"

definition Recv :: "'k kernel \<Rightarrow> int \<Rightarrow> bl_state \<Rightarrow> 'k env \<Rightarrow> (int \<times> int \<times> bl_state \<times> 'k env) res" where
  "Recv K fd b s = loopR (recv_bytes K fd 0 b s)"

text \<open>What lies behind \<open>ReadPoint ()\<close> in its block.\<close>

definition bl_read_point :: "bl_state \<Rightarrow> byte list res" where
  "bl_read_point b = bindR (ptr_get (read_ptr (fst b)) (store (snd b))) (\<lambda>v. Inr (drop (read_inx (fst b)) (data v)))"

text \<open>
  The loop of \<open>Send\<close>. The kernel is offered all readable bytes at \<open>ReadPoint ()\<close>; taking more than
  the block holds is an access out of its bounds.
\<close>

partial_function (option) send_bytes ::
  "'k kernel \<Rightarrow> int \<Rightarrow> int \<Rightarrow> bl_state \<Rightarrow> 'k env \<Rightarrow> (int \<times> int \<times> bl_state \<times> 'k env) res option" where
  "send_bytes K fd ret b s =
     (if bl_readable_size (fst b) = 0 then Some (Inr (ret, 0, b, s))
      else
        case bl_read_point b of
          Inl f \<Rightarrow> Some (Inl f)
        | Inr seen \<Rightarrow>
            (case syscall (k_write K fd seen (bl_readable_size (fst b))) s of
               (Some m, s) \<Rightarrow>
                 if m > 0 then
                   (case bindR (guardR (m \<le> length seen) Out_Of_Bounds) (\<lambda>_. bl_read_advance m (fst b) (snd b)) of
                      Inl f \<Rightarrow> Some (Inl f)
                    | Inr b \<Rightarrow> send_bytes K fd (wrap32 (ret + int m)) b s)
                 else Some (Inr (kError, fst s, b, s))
             | (None, s) \<Rightarrow>
                 if fst s = EINTR then send_bytes K fd ret b s
                 else if IsIOTryAgain (fst s) then Some (Inr (ret, fst s, b, s))
                 else Some (Inr (kError, fst s, b, s))))"

definition Send :: "'k kernel \<Rightarrow> int \<Rightarrow> bl_state \<Rightarrow> 'k env \<Rightarrow> (int \<times> int \<times> bl_state \<times> 'k env) res" where
  "Send K fd b s = loopR (send_bytes K fd 0 b s)"

section \<open>A connected stream socket\<close>

text \<open>
  What TCP promises of \<open>read\<close> on \<open>fd\<close>: the bytes \<open>pending\<close> arrive in order, in pieces of any size;
  when none is left the call fails with \<open>EAGAIN\<close>, or returns no byte if the peer has closed; calls
  may be interrupted, but not for ever (\<open>rank\<close>).
\<close>

definition stream_read :: "'k kernel \<Rightarrow> int \<Rightarrow> ('k \<Rightarrow> byte list) \<Rightarrow> ('k \<Rightarrow> nat) \<Rightarrow> bool \<Rightarrow> bool" where
  "stream_read K fd pending rank closed \<longleftrightarrow> (\<forall>n k. n > 0 \<longrightarrow>
     (case k_read K fd n k of
        (Inr bs, k') \<Rightarrow> pending k = bs @ pending k' \<and> length bs \<le> n
          \<and> (if bs = [] then closed \<and> pending k = [] else rank k' < rank k)
      | (Inl e, k') \<Rightarrow> pending k' = pending k
          \<and> (e = EINTR \<and> rank k' < rank k \<or> e = EAGAIN \<and> pending k = [] \<and> \<not> closed)))"

text \<open>And of \<open>write\<close>: some of the bytes offered are taken, from the front, or the call fails; it is not interrupted for ever.\<close>

definition stream_write :: "'k kernel \<Rightarrow> int \<Rightarrow> ('k \<Rightarrow> byte list) \<Rightarrow> ('k \<Rightarrow> nat) \<Rightarrow> bool" where
  "stream_write K fd taken rank \<longleftrightarrow> (\<forall>seen n k. 0 < n \<and> n \<le> length seen \<longrightarrow>
     (case k_write K fd seen n k of
        (Inr m, k') \<Rightarrow> 0 < m \<and> m \<le> n \<and> taken k' = taken k @ take m seen
      | (Inl e, k') \<Rightarrow> taken k' = taken k \<and> (e = EINTR \<and> rank k' < rank k \<or> e = EAGAIN)))"

definition interrupts :: "'k kernel \<Rightarrow> int \<Rightarrow> bool" where
  "interrupts K fd \<longleftrightarrow> (\<exists>n k k'. k_read K fd n k = (Inl EINTR, k'))"

lemma recv_bytes_stream:
  assumes st: "stream_read K fd pending rank closed"
  shows "bl_owned A b bs \<Longrightarrow> length bs + length (pending k) < 2 ^ 64
    \<Longrightarrow> \<exists>b' e' k' A'. recv_bytes K fd (wrap32 r) b (e, k)
        = Some (Inr (if closed then kError else wrap32 (r + int (length (pending k))), e', b', (e', k')))
      \<and> bl_owned A' b' (bs @ pending k) \<and> moved A (snd b) A' (snd b')
      \<and> pending k' = []
      \<and> (if closed then e' = e \<or> interrupts K fd else e' = EAGAIN)"
proof (induction "rank k" arbitrary: A b bs k e r rule: less_induct)
  case less
  obtain xs z where rep: "bl_rep (snd b) (fst b) xs z bs" and A: "A = set (xs @ [z])"
    using less.prems(1) unfolding bl_owned_def by blast
  let ?n = "bl_writeable_size (fst b)"
  have n: "0 < ?n" using bl_writeable_rep [OF rep] by simp
  note st' = st [unfolded stream_read_def, rule_format, OF n, of k]
  obtain res k1 where rd: "k_read K fd ?n k = (res, k1)" by fastforce
  show ?case
  proof (cases res)
    case (Inl e1)
    then have p: "pending k1 = pending k" and c: "e1 = EINTR \<and> rank k1 < rank k \<or> e1 = EAGAIN \<and> pending k = [] \<and> \<not> closed"
      using st' rd by auto
    from c show ?thesis
    proof
      assume i: "e1 = EINTR \<and> rank k1 < rank k"
      then have run: "recv_bytes K fd (wrap32 r) b (e, k) = recv_bytes K fd (wrap32 r) b (EINTR, k1)"
        using rd Inl by (subst recv_bytes.simps) (simp add: syscall_def)
      have int: "interrupts K fd" using rd Inl i unfolding interrupts_def by blast
      have "length bs + length (pending k1) < 2 ^ 64" using less.prems(2) p by simp
      from less.hyps [OF conjunct2 [OF i] less.prems(1) this, of r EINTR] obtain b' e' k' A' where
        q: "recv_bytes K fd (wrap32 r) b (EINTR, k1)
          = Some (Inr (if closed then kError else wrap32 (r + int (length (pending k1))), e', b', (e', k')))"
        "bl_owned A' b' (bs @ pending k1)" "moved A (snd b) A' (snd b')" "pending k' = []"
        "if closed then e' = EINTR \<or> interrupts K fd else e' = EAGAIN" by blast
      have "if closed then e' = e \<or> interrupts K fd else e' = EAGAIN" using q(5) int by simp
      then show ?thesis using q(1-4) unfolding run p by blast
    next
      assume "e1 = EAGAIN \<and> pending k = [] \<and> \<not> closed"
      then have ag: "e1 = EAGAIN" "pending k = []" "\<not> closed" by auto
      then have "recv_bytes K fd (wrap32 r) b (e, k) = Some (Inr (wrap32 r, EAGAIN, b, (EAGAIN, k1)))"
        using rd Inl by (subst recv_bytes.simps) (simp add: syscall_def)
      then show ?thesis using ag less.prems(1) p moved_refl by (intro exI [of _ b] exI [of _ A]) auto
    qed
  next
    case (Inr ds)
    then have p: "pending k = ds @ pending k1" and l: "length ds \<le> ?n"
      and c: "if ds = [] then closed \<and> pending k = [] else rank k1 < rank k"
      using st' rd by auto
    show ?thesis
    proof (cases "ds = []")
      case True
      then have "recv_bytes K fd (wrap32 r) b (e, k) = Some (Inr (kError, e, b, (e, k1)))"
        using rd Inr by (subst recv_bytes.simps) (simp add: syscall_def)
      moreover have "closed" "pending k = []" "pending k1 = []" using c p True by auto
      ultimately show ?thesis using less.prems(1) moved_refl by (intro exI [of _ b] exI [of _ e] exI [of _ k1] exI [of _ A]) simp
    next
      case False
      then have rk: "rank k1 < rank k" using c by simp
      have "length bs + length ds < 2 ^ 64" using less.prems(2) p by simp
      from bl_fill_rep [OF rep l this] obtain P1 l' P' xs' z' where
        f: "bl_copy_in ds (fst b) (snd b) = Inr P1" "bl_write_advance (length ds) (fst b) P1 = Inr (l', P')"
        "bl_rep P' l' xs' z' (bs @ ds)" "moved A (snd b) (set (xs' @ [z'])) P'" unfolding A by blast
      note h = bl_ownedI [OF f(3)]
      have run: "recv_bytes K fd (wrap32 r) b (e, k) = recv_bytes K fd (wrap32 (r + int (length ds))) (l', P') (e, k1)"
        using rd Inr False f(1,2) by (subst recv_bytes.simps) (simp add: syscall_def wrap32_add)
      have "length (bs @ ds) + length (pending k1) < 2 ^ 64" using less.prems(2) p by simp
      from less.hyps [OF rk h this, of "r + int (length ds)" e] obtain b' e' k' A' where
        r: "recv_bytes K fd (wrap32 (r + int (length ds))) (l', P') (e, k1)
          = Some (Inr (if closed then kError else wrap32 (r + int (length ds) + int (length (pending k1))), e', b', (e', k')))"
        "bl_owned A' b' ((bs @ ds) @ pending k1)" "moved (set (xs' @ [z'])) P' A' (snd b')"
        "pending k' = []" "if closed then e' = e \<or> interrupts K fd else e' = EAGAIN"
        unfolding snd_conv by blast
      have "recv_bytes K fd (wrap32 r) b (e, k)
        = Some (Inr (if closed then kError else wrap32 (r + int (length (pending k))), e', b', (e', k')))"
        using r(1) unfolding run p by (simp only: length_append of_nat_add add.assoc)
      moreover have "bl_owned A' b' (bs @ pending k)" using r(2) p by simp
      ultimately show ?thesis using r(4,5) moved_trans [OF f(4) r(3)] by blast
    qed
  qed
qed

text \<open>A list whose bytes all lie in one block.\<close>

definition one_block :: "addr set \<Rightarrow> bl_state \<Rightarrow> byte list \<Rightarrow> bool" where
  "one_block A b bs \<longleftrightarrow> bl_owned A b bs \<and> length bs = bl_current_read_size (fst b)"

lemma bl_read_point_rep:
  assumes rep: "bl_rep P l xs z bs"
  shows "\<exists>seen. bl_read_point (l, P) = Inr seen \<and> length seen = kBufferSize - read_inx l
    \<and> (\<forall>n \<le> bl_current_read_size l. take n seen = take n bs)"
proof -
  have "bl_copy_out (bl_current_read_size l) l P = Inr (take (bl_current_read_size l) bs)"
    by (rule bl_copy_out_rep [OF rep]) simp
  then obtain v where v: "ptr_get (read_ptr l) (store P) = Inr v"
    by (auto simp: bl_copy_out_def res_simps)
  have "read_ptr l = At (hd (xs @ [z]))" and u: "hd (xs @ [z]) \<in> pool_in_use P" and w: "bpool_wf P"
    using rep by (cases xs; auto simp: bl_rep_def)+
  then have "length (data v) = kBufferSize"
    using v length_block_data [OF w u] by (auto simp: ptr_get_def heap_get_def block_data_def split: option.splits)
  moreover have "take n (drop (read_inx l) (data v)) = take n bs" if "n \<le> bl_current_read_size l" for n
    using bl_copy_out_rep [OF rep that] v by (auto simp: bl_copy_out_def split: if_splits)
  ultimately show ?thesis using v by (simp add: bl_read_point_def)
qed

lemma one_block_advance:
  assumes b: "one_block A b bs" and m: "m \<le> length bs"
  shows "\<exists>b' A'. bl_read_advance m (fst b) (snd b) = Inr b' \<and> one_block A' b' (drop m bs) \<and> moved A (snd b) A' (snd b')"
proof -
  obtain xs z where rep: "bl_rep (snd b) (fst b) xs z bs" and A: "A = set (xs @ [z])"
    using b unfolding one_block_def bl_owned_def by blast
  have c: "length bs = bl_current_read_size (fst b)" using b by (simp add: one_block_def)
  obtain l' P' xs' where r: "bl_read_advance m (fst b) (snd b) = Inr (l', P')" "bl_rep P' l' xs' z (drop m bs)"
    "moved A (snd b) (set (xs' @ [z])) P'"
    using bl_read_advance_rep [OF rep, of m] m c unfolding A by auto
  have "length (drop m bs) = bl_current_read_size l'"
  proof (cases "read_inx (fst b) + m = kBufferSize")
    case True
    then have "length bs \<le> m" using bl_rep_current(4) [OF rep] c by linarith
    then show ?thesis using bl_rep_current(2) [OF r(2)] by simp
  next
    case False
    have le: "read_inx (fst b) + m < kBufferSize" using False bl_rep_current(4) [OF rep] c m by linarith
    then have a: "add64 (read_inx (fst b)) m = read_inx (fst b) + m" by (simp add: kBufferSize_def)
    have l': "l' = (fst b)\<lparr>read_inx := read_inx (fst b) + m, read_size := add64 (read_size (fst b)) m\<rparr>"
      using r(1) le by (simp add: bl_read_advance_def a)
    have wi: "write_inx (fst b) < kBufferSize" and ri: "read_inx (fst b) < kBufferSize"
      and o: "xs = [] \<longrightarrow> read_inx (fst b) \<le> write_inx (fst b)"
      using rep by (auto simp: bl_rep_def)
    have "xs = [] \<Longrightarrow> length bs = write_inx (fst b) - read_inx (fst b)" using bl_rep_length [OF rep] by simp
    moreover have "xs \<noteq> [] \<Longrightarrow> length bs = kBufferSize - read_inx (fst b)"
      using bl_rep_current(1) [OF rep] c by simp
    ultimately show ?thesis
      using m wi ri o le bl_rep_same_block [OF rep]
      by (auto simp: l' bl_current_read_size_def kBufferSize_def split: if_splits)
  qed
  then have "one_block (set (xs' @ [z])) (l', P') (drop m bs)" using bl_ownedI [OF r(2)] by (simp add: one_block_def)
  then show ?thesis using r(1,3) by (intro exI [of _ "(l', P')"]) auto
qed

lemma send_bytes_stream:
  assumes st: "stream_write K fd taken rank"
  shows "one_block A b bs \<Longrightarrow> length bs < 2 ^ 64
    \<Longrightarrow> \<exists>n err b' e' k' A'. send_bytes K fd (wrap32 r) b (e, k)
        = Some (Inr (wrap32 (r + int n), err, b', (e', k')))
      \<and> n \<le> length bs \<and> taken k' = taken k @ take n bs \<and> one_block A' b' (drop n bs)
      \<and> moved A (snd b) A' (snd b')
      \<and> (err = 0 \<and> n = length bs \<or> err = EAGAIN \<and> n < length bs)"
proof (induction "(length bs, rank k)" arbitrary: A b bs k e r rule: wf_induct_rule [OF wf_lex_prod [OF wf_less_than wf_less_than]])
  case less: 1
  obtain xs z where rep: "bl_rep (snd b) (fst b) xs z bs"
    using less.prems(1) unfolding one_block_def bl_owned_def by blast
  have sz: "bl_readable_size (fst b) = length bs" using bl_readable_rep [OF rep] .
  show ?case
  proof (cases "bs = []")
    case True
    then have "send_bytes K fd (wrap32 r) b (e, k) = Some (Inr (wrap32 (r + int 0), 0, b, (e, k)))"
      using sz by (subst send_bytes.simps) simp
    moreover have "taken k = taken k @ take 0 bs" "one_block A b (drop 0 bs)" "(0 :: nat) = length bs"
      using less.prems(1) True by simp_all
    ultimately show ?thesis using moved_refl [of A "snd b"] le0 [of "length bs"] by blast
  next
    case False
    then have n: "0 < length bs" by simp
    obtain seen where seen: "bl_read_point b = Inr seen" "length seen = kBufferSize - read_inx (fst b)"
      "\<And>n. n \<le> length bs \<Longrightarrow> take n seen = take n bs"
      using bl_read_point_rep [OF rep] less.prems(1) by (auto simp: one_block_def)
    have fit: "length bs \<le> length seen"
      using bl_rep_current(4) [OF rep] less.prems(1) seen(2) by (auto simp: one_block_def)
    note st' = st [unfolded stream_write_def, rule_format, OF conjI [OF n fit], where k = k]
    obtain res k1 where wr: "k_write K fd seen (length bs) k = (res, k1)" by fastforce
    show ?thesis
    proof (cases res)
      case (Inl e1)
      then have t: "taken k1 = taken k" and c: "e1 = EINTR \<and> rank k1 < rank k \<or> e1 = EAGAIN"
        using st' wr by auto
      from c show ?thesis
      proof
        assume i: "e1 = EINTR \<and> rank k1 < rank k"
        have run: "send_bytes K fd (wrap32 r) b (e, k) = send_bytes K fd (wrap32 r) b (EINTR, k1)"
          using wr Inl seen(1) sz n i by (subst send_bytes.simps) (simp add: syscall_def)
        have "((length bs, rank k1), (length bs, rank k)) \<in> less_than <*lex*> less_than" using i by simp
        from less.hyps [OF this less.prems, of r EINTR] show ?thesis unfolding run t .
      next
        assume "e1 = EAGAIN"
        then have "send_bytes K fd (wrap32 r) b (e, k) = Some (Inr (wrap32 (r + int 0), EAGAIN, b, (EAGAIN, k1)))"
          using wr Inl seen(1) sz n by (subst send_bytes.simps) (simp add: syscall_def)
        moreover have "taken k1 = taken k @ take 0 bs" "one_block A b (drop 0 bs)"
          using less.prems(1) t by simp_all
        ultimately show ?thesis using moved_refl [of A "snd b"] le0 [of "length bs"] n by blast
      qed
    next
      case (Inr m)
      then have m: "0 < m" "m \<le> length bs" and t: "taken k1 = taken k @ take m bs"
        using st' wr seen(3) by auto
      obtain b1 A1 where b1: "bl_read_advance m (fst b) (snd b) = Inr b1" "one_block A1 b1 (drop m bs)"
        "moved A (snd b) A1 (snd b1)" using one_block_advance [OF less.prems(1) m(2)] by blast
      have run: "send_bytes K fd (wrap32 r) b (e, k) = send_bytes K fd (wrap32 (r + int m)) b1 (e, k1)"
        using wr Inr seen(1) sz n m fit b1(1) by (subst send_bytes.simps) (simp add: syscall_def wrap32_add)
      have rk: "((length (drop m bs), rank k1), (length bs, rank k)) \<in> less_than <*lex*> less_than" using m n by simp
      have l: "length (drop m bs) < 2 ^ 64" using less.prems(2) by simp
      obtain n err b' e' k' A' where r: "send_bytes K fd (wrap32 (r + int m)) b1 (e, k1)
          = Some (Inr (wrap32 (r + int m + int n), err, b', (e', k')))"
        "n \<le> length (drop m bs)" "taken k' = taken k1 @ take n (drop m bs)" "one_block A' b' (drop n (drop m bs))"
        "moved A1 (snd b1) A' (snd b')" "err = 0 \<and> n = length (drop m bs) \<or> err = EAGAIN \<and> n < length (drop m bs)"
        using less.hyps [OF rk b1(2) l, of "r + int m" e] by blast
      have "send_bytes K fd (wrap32 r) b (e, k) = Some (Inr (wrap32 (r + int (m + n)), err, b', (e', k')))"
        using r(1) run by (simp add: add.assoc)
      moreover have "taken k' = taken k @ take (m + n) bs" by (simp add: r(3) t take_add)
      moreover have "one_block A' b' (drop (m + n) bs)" using r(4) by (simp add: add.commute)
      moreover have "m + n \<le> length bs" "err = 0 \<and> m + n = length bs \<or> err = EAGAIN \<and> m + n < length bs"
        using r(2,6) m(2) by auto
      ultimately show ?thesis using moved_trans [OF b1(3) r(5)] by blast
    qed
  qed
qed

text \<open>What a function of the kernel keeps when \<open>read\<close>, resp. \<open>write\<close>, does; and the end of the list \<open>Send\<close> reads from.\<close>

lemma recv_bytes_keeps:
  assumes run: "recv_bytes K fd ret b s = Some y"
  shows "(\<forall>n k. f (snd (k_read K fd n k)) = f k) \<longrightarrow> (\<forall>n e b' s'. y = Inr (n, e, b', s') \<longrightarrow> f (snd s') = f (snd s))"
proof (rule recv_bytes.raw_induct [where P = "\<lambda>K fd ret b s y.
    (\<forall>n k. f (snd (k_read K fd n k)) = f k) \<longrightarrow> (\<forall>n e b' s'. y = Inr (n, e, b', s') \<longrightarrow> f (snd s') = f (snd s))", OF _ run])
  fix g :: "'a kernel \<Rightarrow> int \<Rightarrow> int \<Rightarrow> bl_state \<Rightarrow> 'a env \<Rightarrow> (int \<times> int \<times> bl_state \<times> 'a env) res option" and K fd ret b s y
  assume IH: "\<And>K fd ret b s y. g K fd ret b s = Some y \<Longrightarrow>
      (\<forall>n k. f (snd (k_read K fd n k)) = f k) \<longrightarrow> (\<forall>n e b' s'. y = Inr (n, e, b', s') \<longrightarrow> f (snd s') = f (snd s))"
    and body: "(case syscall (k_read K fd (bl_writeable_size (fst b))) s of
        (Some bs, s) \<Rightarrow>
          if bs \<noteq> [] then
            (case bindR (bl_copy_in bs (fst b) (snd b)) (bl_write_advance (length bs) (fst b)) of
               Inl f \<Rightarrow> Some (Inl f)
             | Inr b \<Rightarrow> g K fd (wrap32 (ret + int (length bs))) b s)
          else Some (Inr (kError, fst s, b, s))
      | (None, s) \<Rightarrow>
          if IsIOTryAgain (fst s) then Some (Inr (ret, fst s, b, s))
          else if fst s = EINTR then g K fd ret b s
          else Some (Inr (kError, fst s, b, s))) = Some y"
  show "(\<forall>n k. f (snd (k_read K fd n k)) = f k) \<longrightarrow> (\<forall>n e b' s'. y = Inr (n, e, b', s') \<longrightarrow> f (snd s') = f (snd s))"
  proof (intro impI allI)
    fix n e b' s'
    assume keep: "\<forall>n k. f (snd (k_read K fd n k)) = f k" and y: "y = Inr (n, e, b', s')"
    obtain r s1 where sc: "syscall (k_read K fd (bl_writeable_size (fst b))) s = (r, s1)" by (metis surj_pair)
    then have k1: "f (snd s1) = f (snd s)"
      using keep [rule_format, of "bl_writeable_size (fst b)" "snd s"] by (auto simp: syscall_def split: prod.splits sum.splits)
    have go: "f (snd s') = f (snd s1)" if "g K fd ret2 b2 s1 = Some (Inr (n, e, b', s'))" for ret2 b2
      using IH [OF that] keep by blast
    show "f (snd s') = f (snd s)"
    proof (cases r)
      case None
      then show ?thesis using body go [of ret b] k1 unfolding y by (auto simp: sc split: if_splits)
    next
      case (Some bs)
      show ?thesis
      proof (cases "bs = []")
        case False
        then obtain b2 where "g K fd (wrap32 (ret + int (length bs))) b2 s1 = Some (Inr (n, e, b', s'))"
          using body Some unfolding y by (auto simp: sc split: sum.splits)
        from go [OF this] k1 show ?thesis by simp
      qed (use body Some k1 y sc in auto)
    qed
  qed
qed

lemma Recv_keeps:
  assumes "Recv K fd b s = Inr (n, e, b', s')" and "\<And>n k. f (snd (k_read K fd n k)) = f k"
  shows "f (snd s') = f (snd s)"
proof -
  have "recv_bytes K fd 0 b s = Some (Inr (n, e, b', s'))"
    using assms(1) by (auto simp: Recv_def loopR_def split: option.splits)
  from recv_bytes_keeps [OF this, of f, rule_format, OF assms(2) refl] show ?thesis .
qed

lemma bl_read_advance_end:
  "bl_read_advance n l P = Inr (l', P') \<Longrightarrow> write_ptr l' = write_ptr l \<and> write_inx l' = write_inx l"
  by (auto simp: bl_read_advance_def Let_def res_simps split: if_splits)

lemma send_bytes_keeps:
  assumes run: "send_bytes K fd ret b s = Some y"
  shows "(\<forall>seen n k. f (snd (k_write K fd seen n k)) = f k) \<longrightarrow> (\<forall>n e b' s'. y = Inr (n, e, b', s')
    \<longrightarrow> f (snd s') = f (snd s) \<and> write_ptr (fst b') = write_ptr (fst b) \<and> write_inx (fst b') = write_inx (fst b))"
proof (rule send_bytes.raw_induct [where P = "\<lambda>K fd ret b s y.
    (\<forall>seen n k. f (snd (k_write K fd seen n k)) = f k) \<longrightarrow> (\<forall>n e b' s'. y = Inr (n, e, b', s')
      \<longrightarrow> f (snd s') = f (snd s) \<and> write_ptr (fst b') = write_ptr (fst b) \<and> write_inx (fst b') = write_inx (fst b))", OF _ run])
  fix g :: "'a kernel \<Rightarrow> int \<Rightarrow> int \<Rightarrow> bl_state \<Rightarrow> 'a env \<Rightarrow> (int \<times> int \<times> bl_state \<times> 'a env) res option" and K fd ret b s y
  assume IH: "\<And>K fd ret b s y. g K fd ret b s = Some y \<Longrightarrow>
      (\<forall>seen n k. f (snd (k_write K fd seen n k)) = f k) \<longrightarrow> (\<forall>n e b' s'. y = Inr (n, e, b', s')
        \<longrightarrow> f (snd s') = f (snd s) \<and> write_ptr (fst b') = write_ptr (fst b) \<and> write_inx (fst b') = write_inx (fst b))"
    and body: "(if bl_readable_size (fst b) = 0 then Some (Inr (ret, 0, b, s))
      else
        case bl_read_point b of
          Inl f \<Rightarrow> Some (Inl f)
        | Inr seen \<Rightarrow>
            (case syscall (k_write K fd seen (bl_readable_size (fst b))) s of
               (Some m, s) \<Rightarrow>
                 if m > 0 then
                   (case bindR (guardR (m \<le> length seen) Out_Of_Bounds) (\<lambda>_. bl_read_advance m (fst b) (snd b)) of
                      Inl f \<Rightarrow> Some (Inl f)
                    | Inr b \<Rightarrow> g K fd (wrap32 (ret + int m)) b s)
                 else Some (Inr (kError, fst s, b, s))
             | (None, s) \<Rightarrow>
                 if fst s = EINTR then g K fd ret b s
                 else if IsIOTryAgain (fst s) then Some (Inr (ret, fst s, b, s))
                 else Some (Inr (kError, fst s, b, s)))) = Some y"
  show "(\<forall>seen n k. f (snd (k_write K fd seen n k)) = f k) \<longrightarrow> (\<forall>n e b' s'. y = Inr (n, e, b', s')
      \<longrightarrow> f (snd s') = f (snd s) \<and> write_ptr (fst b') = write_ptr (fst b) \<and> write_inx (fst b') = write_inx (fst b))"
  proof (intro impI allI)
    fix n e b' s'
    assume keep: "\<forall>seen n k. f (snd (k_write K fd seen n k)) = f k" and y: "y = Inr (n, e, b', s')"
    show "f (snd s') = f (snd s) \<and> write_ptr (fst b') = write_ptr (fst b) \<and> write_inx (fst b') = write_inx (fst b)"
    proof (cases "bl_readable_size (fst b) = 0")
      case False
      obtain seen where seen: "bl_read_point b = Inr seen"
        using body False unfolding y by (cases "bl_read_point b") auto
      obtain r s1 where sc: "syscall (k_write K fd seen (bl_readable_size (fst b))) s = (r, s1)" by (metis surj_pair)
      then have k1: "f (snd s1) = f (snd s)"
        using keep [rule_format, of seen "bl_readable_size (fst b)" "snd s"]
        by (auto simp: syscall_def split: prod.splits sum.splits)
      show ?thesis
      proof (cases r)
        case None
        have "f (snd s') = f (snd s1) \<and> write_ptr (fst b') = write_ptr (fst b) \<and> write_inx (fst b') = write_inx (fst b)"
          if "g K fd ret b s1 = Some (Inr (n, e, b', s'))" using IH [OF that] keep by blast
        then show ?thesis using None body False seen k1 unfolding y by (auto simp: sc split: if_splits)
      next
        case (Some m)
        show ?thesis
        proof (cases "m > 0")
          case True
          then obtain l' P' where adv: "bl_read_advance m (fst b) (snd b) = Inr (l', P')"
            and go: "g K fd (wrap32 (ret + int m)) (l', P') s1 = Some (Inr (n, e, b', s'))"
            using body False seen Some unfolding y by (auto simp: sc guardR_def split: sum.splits if_splits)
          from IH [OF go, rule_format, OF keep [rule_format] refl] show ?thesis
            using k1 bl_read_advance_end [OF adv] by simp
        next
          case False
          then show ?thesis using body \<open>bl_readable_size (fst b) \<noteq> 0\<close> seen Some k1 unfolding y by (auto simp: sc)
        qed
      qed
    qed (use body in \<open>auto simp: y\<close>)
  qed
qed

text \<open>A kernel that always has room does not make \<open>Send\<close> stop early.\<close>

definition roomy :: "'k kernel \<Rightarrow> int \<Rightarrow> bool" where
  "roomy K fd \<longleftrightarrow> (\<forall>seen n k. 0 < n \<longrightarrow> fst (k_write K fd seen n k) \<notin> {Inl EAGAIN, Inr 0})"

lemma send_bytes_roomy:
  assumes run: "send_bytes K fd ret b s = Some y"
  shows "roomy K fd \<longrightarrow> (\<forall>n b' s'. y \<noteq> Inr (n, EAGAIN, b', s'))"
proof (rule send_bytes.raw_induct [where P = "\<lambda>K fd ret b s y. roomy K fd \<longrightarrow> (\<forall>n b' s'. y \<noteq> Inr (n, EAGAIN, b', s'))", OF _ run])
  fix g :: "'a kernel \<Rightarrow> int \<Rightarrow> int \<Rightarrow> bl_state \<Rightarrow> 'a env \<Rightarrow> (int \<times> int \<times> bl_state \<times> 'a env) res option" and K fd ret b s y
  assume IH: "\<And>K fd ret b s y. g K fd ret b s = Some y \<Longrightarrow> roomy K fd \<longrightarrow> (\<forall>n b' s'. y \<noteq> Inr (n, EAGAIN, b', s'))"
    and body: "(if bl_readable_size (fst b) = 0 then Some (Inr (ret, 0, b, s))
      else
        case bl_read_point b of
          Inl f \<Rightarrow> Some (Inl f)
        | Inr seen \<Rightarrow>
            (case syscall (k_write K fd seen (bl_readable_size (fst b))) s of
               (Some m, s) \<Rightarrow>
                 if m > 0 then
                   (case bindR (guardR (m \<le> length seen) Out_Of_Bounds) (\<lambda>_. bl_read_advance m (fst b) (snd b)) of
                      Inl f \<Rightarrow> Some (Inl f)
                    | Inr b \<Rightarrow> g K fd (wrap32 (ret + int m)) b s)
                 else Some (Inr (kError, fst s, b, s))
             | (None, s) \<Rightarrow>
                 if fst s = EINTR then g K fd ret b s
                 else if IsIOTryAgain (fst s) then Some (Inr (ret, fst s, b, s))
                 else Some (Inr (kError, fst s, b, s)))) = Some y"
  show "roomy K fd \<longrightarrow> (\<forall>n b' s'. y \<noteq> Inr (n, EAGAIN, b', s'))"
  proof (intro impI allI notI)
    fix n b' s'
    assume r: "roomy K fd" and y: "y = Inr (n, EAGAIN, b', s')"
    have ne: "bl_readable_size (fst b) \<noteq> 0"
    proof
      assume "bl_readable_size (fst b) = 0"
      then show False using body unfolding y by (simp add: EAGAIN_def)
    qed
    obtain seen where seen: "bl_read_point b = Inr seen"
      using body ne unfolding y by (cases "bl_read_point b") auto
    obtain w s1 where sc: "syscall (k_write K fd seen (bl_readable_size (fst b))) s = (w, s1)" by (metis surj_pair)
    have go: False if "g K fd ret b s2 = Some (Inr (n, EAGAIN, b', s'))" for ret b and s2 :: "'a env"
      using IH [OF that] r by blast
    show False
    proof (cases w)
      case None
      have "fst s1 \<noteq> EAGAIN"
        using None ne sc r [unfolded roomy_def, rule_format, of "bl_readable_size (fst b)" seen "snd s"]
        by (auto simp: syscall_def split: prod.splits sum.splits)
      have "g K fd ret b s1 = Some (Inr (n, EAGAIN, b', s'))"
        using body \<open>fst s1 \<noteq> EAGAIN\<close> ne seen None unfolding y by (auto simp: sc IsIOTryAgain_def split: if_splits)
      then show ?thesis by (rule go)
    next
      case (Some m)
      have "0 < m"
        using ne Some sc r [unfolded roomy_def, rule_format, of "bl_readable_size (fst b)" seen "snd s"]
        by (auto simp: syscall_def split: prod.splits sum.splits)
      then have "\<exists>ret b. g K fd ret b s1 = Some (Inr (n, EAGAIN, b', s'))"
        using body ne seen Some unfolding y by (auto simp: sc guardR_def EAGAIN_def kError_def split: sum.splits if_splits)
      then show ?thesis using go by blast
    qed
  qed
qed

lemma Send_roomy: "Send K fd b s = Inr (n, e, b', s') \<Longrightarrow> roomy K fd \<Longrightarrow> e \<noteq> EAGAIN"
  using send_bytes_roomy [of K fd 0 b s "Inr (n, e, b', s')"] by (auto simp: Send_def loopR_def split: option.splits)

lemma Send_keeps:
  assumes "Send K fd b s = Inr (n, e, b', s')" and "\<And>seen n k. f (snd (k_write K fd seen n k)) = f k"
  shows "f (snd s') = f (snd s) \<and> write_ptr (fst b') = write_ptr (fst b) \<and> write_inx (fst b') = write_inx (fst b)"
proof -
  have "send_bytes K fd 0 b s = Some (Inr (n, e, b', s'))"
    using assms(1) by (auto simp: Send_def loopR_def split: option.splits)
  from send_bytes_keeps [OF this, of f, rule_format, OF assms(2) refl] show ?thesis .
qed

section \<open>Properties\<close>

text \<open>
  \<open>Recv\<close> empties a stream socket: however the kernel cuts the pending bytes into pieces, and
  interrupted or not, it appends all of them to the buffer in order, across block boundaries,
  returns their number and reports \<open>EAGAIN\<close>.
\<close>
lemma recv_drains_socket:
  assumes "stream_read K fd pending rank False" and "bl_holds b bs"
    and "length bs + length (pending k) < 2 ^ 64" and "length (pending k) < 2 ^ 31"
  shows "\<exists>b' k'. Recv K fd b (e, k) = Inr (int (length (pending k)), EAGAIN, b', (EAGAIN, k'))
    \<and> bl_holds b' (bs @ pending k) \<and> pending k' = []"
proof -
  have w: "wrap32 (0 + int (length (pending k))) = int (length (pending k))" "wrap32 0 = 0"
    using assms(4) by (auto intro!: wrap32_id)
  obtain A where "bl_owned A b bs" using assms(2) by (auto simp: bl_holds_owned)
  from recv_bytes_stream [OF assms(1) this assms(3), where r = 0 and e = e] obtain b' k' A' where
    "recv_bytes K fd (wrap32 0) b (e, k) = Some (Inr (wrap32 (0 + int (length (pending k))), EAGAIN, b', (EAGAIN, k')))"
    "bl_owned A' b' (bs @ pending k)" "pending k' = []" by auto
  then show ?thesis unfolding w bl_holds_owned Recv_def by auto
qed

text \<open>
  \<open>Send\<close> on a buffer whose bytes lie in one block hands the kernel each byte once and in order:
  what was taken is a prefix of the buffered bytes, the buffer keeps the rest, the number returned
  is the length of the prefix, and the call ends with everything taken or with \<open>EAGAIN\<close>.
\<close>
lemma send_within_block:
  assumes "stream_write K fd taken rank" and "one_block A b bs" and "length bs < 2 ^ 31"
  shows "\<exists>n err b' e' k' A'. Send K fd b (e, k) = Inr (int n, err, b', (e', k'))
    \<and> taken k' = taken k @ take n bs \<and> one_block A' b' (drop n bs) \<and> moved A (snd b) A' (snd b')
    \<and> (err = kOK \<and> n = length bs \<or> err = EAGAIN \<and> n < length bs)"
proof -
  have l: "length bs < 2 ^ 64" using assms(3) by simp
  obtain n err b' e' k' A' where r: "send_bytes K fd (wrap32 0) b (e, k) = Some (Inr (wrap32 (0 + int n), err, b', (e', k')))"
    "n \<le> length bs" "taken k' = taken k @ take n bs" "one_block A' b' (drop n bs)"
    "moved A (snd b) A' (snd b')" "err = 0 \<and> n = length bs \<or> err = EAGAIN \<and> n < length bs"
    using send_bytes_stream [OF assms(1,2) l] by blast
  have "wrap32 (0 + int n) = int n" "wrap32 0 = 0" using r(2) assms(3) by (auto intro!: wrap32_id)
  then show ?thesis using r by (auto simp: Send_def kOK_def)
qed

text \<open>
  C32. \<open>Send\<close> offers the kernel all readable bytes at the read position of one 4096-byte block. When
  the buffer holds more than a block and the kernel takes what it is offered, \<open>write\<close> reads past
  the end of the block.
\<close>
theorem send_overruns_block:
  assumes "bl_holds b bs" and "kBufferSize < length bs"
    and "\<And>seen n k. \<exists>k'. k_write K fd seen n k = (Inr n, k')"
  shows "Send K fd b s = Inl Out_Of_Bounds"
proof -
  obtain xs z where rep: "bl_rep (snd b) (fst b) xs z bs" using assms(1) by (auto simp: bl_holds_def)
  obtain seen where seen: "bl_read_point b = Inr seen" "length seen = kBufferSize - read_inx (fst b)"
    using bl_read_point_rep [OF rep] by auto
  obtain k' where k': "k_write K fd seen (length bs) (snd s) = (Inr (length bs), k')" using assms(3) by blast
  have "bl_readable_size (fst b) = length bs" "0 < length bs" "\<not> length bs \<le> length seen"
    using bl_readable_rep [OF rep] assms(2) seen(2) by (simp, linarith, linarith)
  then show ?thesis using seen(1) k' by (simp add: Send_def send_bytes.simps syscall_def)
qed

text \<open>A kernel with one connection: the bytes on their way in and the bytes taken, no limits.\<close>

definition loop_kernel :: "bool \<Rightarrow> (byte list \<times> byte list) kernel" where
  "loop_kernel closed = \<lparr>k_socket = (\<lambda>k. (Inr 3, k)), k_reuseaddr = (\<lambda>_ k. (Inr (), k)),
     k_getfl = (\<lambda>_ k. (Inr 2, k)), k_setfl = (\<lambda>_ _ k. (Inr (), k)), k_aton = (\<lambda>_. Some 0),
     k_bind = (\<lambda>_ _ _ k. (Inr (), k)), k_listen = (\<lambda>_ _ k. (Inr (), k)), k_accept = (\<lambda>_ k. (Inl EAGAIN, k)),
     k_connect = (\<lambda>_ _ _ k. (Inl EINPROGRESS, k)),
     k_read = (\<lambda>_ n (p, t). if p = [] \<and> \<not> closed then (Inl EAGAIN, (p, t)) else (Inr (take n p), (drop n p, t))),
     k_write = (\<lambda>_ seen n (p, t). (Inr n, (p, t @ take n seen))),
     k_getpeername = (\<lambda>_ k. (Inr ([], 0), k)), k_close = (\<lambda>_ k. (Inr (), k)), k_eventfd = (\<lambda>k. (Inr 4, k))\<rparr>"

lemma loop_kernel_reads: "stream_read (loop_kernel closed) fd fst (length \<circ> fst) closed"
  by (auto simp: stream_read_def loop_kernel_def split: prod.splits)

text \<open>A kernel that takes at most ten bytes and then has no room.\<close>

definition slow_kernel :: "(byte list \<times> byte list) kernel" where
  "slow_kernel = (loop_kernel False)\<lparr>k_write := (\<lambda>_ seen n (p, t).
     if length t < 10 then (Inr 1, (p, t @ take 1 seen)) else (Inl EAGAIN, (p, t)))\<rparr>"

lemma write_new: "length d < 2 ^ 64 \<Longrightarrow> \<exists>b. bl_wr d (bl_new (pool_init buffer_new)) = Inr b \<and> bl_holds b d"
  using bl.wr_rep [OF bl_holds_new [OF bpool_wf_init], of d] by simp

lemma recv_drains_socket_witness:
  "\<exists>b' k'. Recv (loop_kernel False) 5 (bl_new (pool_init buffer_new)) (0, (replicate 5000 7, []))
      = Inr (5000, EAGAIN, b', (EAGAIN, k')) \<and> bl_holds b' (replicate 5000 7)"
proof -
  have "\<exists>b' k'. Recv (loop_kernel False) 5 (bl_new (pool_init buffer_new)) (0, (replicate 5000 7, []))
      = Inr (int (length (fst (replicate 5000 (7 :: byte), [] :: byte list))), EAGAIN, b', (EAGAIN, k'))
    \<and> bl_holds b' ([] @ fst (replicate 5000 (7 :: byte), [] :: byte list)) \<and> fst k' = []"
    by (rule recv_drains_socket [OF loop_kernel_reads bl_holds_new [OF bpool_wf_init]]) simp_all
  then show ?thesis by auto
qed

lemma slow_kernel_writes: "stream_write slow_kernel fd snd (\<lambda>(p, t). 10 - length t)"
  by (auto simp: stream_write_def slow_kernel_def loop_kernel_def split: prod.splits)

lemma one_block_new:
  assumes "length d < kBufferSize" and "d \<noteq> []"
  shows "\<exists>b A. bl_wr d (bl_new (pool_init buffer_new)) = Inr b \<and> one_block A b d"
proof -
  obtain l P where lP: "bl_new (pool_init buffer_new) = (l, P)" by fastforce
  obtain a where rep: "bl_rep P l [] a []" using bl_new_rep [OF bpool_wf_init lP] by blast
  have w: "write_inx l = 0" using lP by (auto simp: bl_new_def split: prod.splits)
  have d: "write_inx l + length d < kBufferSize" "length ([] :: byte list) + length d < 2 ^ 64"
    using assms(1) w by (simp_all add: kBufferSize_def)
  obtain P1 l' where f: "bl_copy_in d l P = Inr P1" "bl_write_advance (length d) l P1 = Inr (l', P1)"
    "bl_rep P1 l' [] a ([] @ d)" using bl_fill_inside [OF rep d] by blast
  have "\<not> length d > bl_writeable_size l" using bl_writeable_rep [OF rep] d(1) by linarith
  then have "bl_wr d (l, P) = Inr (l', P1)"
    using f(1,2) assms(2) by (simp add: bl_wr_def bl_write_def bl_write_loop.simps)
  moreover have "one_block (set ([] @ [a])) (l', P1) d"
    using bl_ownedI [OF f(3)] bl_rep_current(1) [OF f(3)] by (simp add: one_block_def)
  ultimately show ?thesis using lP by auto
qed

lemma send_within_block_witness:
  "\<exists>A b. one_block A b (replicate 50 7) \<and> (\<exists>n err b' e' k' A'. Send slow_kernel 5 b (0, ([], [])) = Inr (int n, err, b', (e', k'))
    \<and> snd k' = take n (replicate 50 7) \<and> one_block A' b' (drop n (replicate 50 7)))"
proof -
  obtain A b where b: "one_block A b (replicate 50 7)" using one_block_new [of "replicate 50 7"] by (auto simp: kBufferSize_def)
  have "\<exists>n err b' e' k' A'. Send slow_kernel 5 b (0, ([], [])) = Inr (int n, err, b', (e', k'))
    \<and> snd k' = snd ([] :: byte list, [] :: byte list) @ take n (replicate 50 7) \<and> one_block A' b' (drop n (replicate 50 7))
    \<and> moved A (snd b) A' (snd b')
    \<and> (err = kOK \<and> n = length (replicate 50 (7 :: byte)) \<or> err = EAGAIN \<and> n < length (replicate 50 (7 :: byte)))"
    by (rule send_within_block [OF slow_kernel_writes b]) simp
  with b show ?thesis unfolding snd_conv append_Nil by blast
qed

theorem send_overruns_block_witness:
  "\<exists>b. bl_wr (replicate 5000 7) (bl_new (pool_init buffer_new)) = Inr b \<and> Send (loop_kernel False) 5 b (0, ([], [])) = Inl Out_Of_Bounds"
proof -
  obtain b where b: "bl_wr (replicate 5000 7) (bl_new (pool_init buffer_new)) = Inr b" "bl_holds b (replicate 5000 7)"
    using write_new [of "replicate 5000 7"] by auto
  have "Send (loop_kernel False) 5 b (0, ([], [])) = Inl Out_Of_Bounds"
    by (rule send_overruns_block [OF b(2)]) (auto simp: kBufferSize_def loop_kernel_def)
  then show ?thesis using b(1) by blast
qed

end
