(* ===== verification/Epoll.thy ===== *)
theory Epoll
  imports Heap Net
begin

text \<open>
  \<open>src/core/epoll.h\<close> and \<open>epoll.cc\<close>: the poller on top of \<open>epoll\<close>. A handle is the address of an
  entry on the free store, which names the event object to call. The virtual \<open>In\<close> and \<open>Out\<close> of the
  events are an argument (\<open>cb\<close>) that acts on the poller itself and on the rest of the program; the
  \<open>epoll\<close> calls of the kernel are the record \<open>epoll_kernel\<close>.
\<close>

section \<open>State\<close>

definition kIncrPollSize :: int where "kIncrPollSize = 1024"
definition kBacklog :: int where "kBacklog = 512"
definition kInvalidFd :: int where "kInvalidFd = -1"

definition EPOLLIN :: u32 where "EPOLLIN = 1"
definition EPOLLOUT :: u32 where "EPOLLOUT = 4"
definition EPOLLERR :: u32 where "EPOLLERR = 8"
definition EPOLLHUP :: u32 where "EPOLLHUP = 16"
definition EPOLLET :: u32 where "EPOLLET = push_bit 31 1"

text \<open>\<open>ev.data.ptr\<close> is the address of the entry itself; \<open>flags\<close> is never used.\<close>

record epoll_entry =
  ee_fd :: int
  ee_events :: u32
  ee_event :: addr

text \<open>
  The vector \<open>ep_events_\<close>: \<open>ep_events\<close> is its storage, as long as its capacity, \<open>ep_used\<close> its size and
  \<open>ep_storage\<close> the number of the allocation, which a pointer to an element goes with. An element is the events and
  \<open>data.ptr\<close>.
\<close>

record epoll =
  ep_size :: int
  epoll_fd :: int
  ep_events :: "(u32 \<times> ptr) list"
  ep_used :: nat
  ep_storage :: nat
  ep_entries :: "epoll_entry heap"
  retired :: "addr list"
  writeable :: "addr list"

record 'k epoll_kernel =
  ke_create :: "('k, int) call"
  ke_add :: "int \<Rightarrow> int \<Rightarrow> u32 \<Rightarrow> addr \<Rightarrow> ('k, unit) call"
  ke_del :: "int \<Rightarrow> int \<Rightarrow> ('k, unit) call"
  ke_wait :: "int \<Rightarrow> int \<Rightarrow> int \<Rightarrow> ('k, (u32 \<times> addr) list) call"
  ke_close :: "int \<Rightarrow> ('k, unit) call"

datatype io = Ev_In | Ev_Out

type_synonym ('k, 'w) ep_state = "epoll \<times> 'k env \<times> 'w"
type_synonym ('k, 'w) event_cb = "io \<Rightarrow> addr \<Rightarrow> ('k, 'w) ep_state \<Rightarrow> ('k, 'w) ep_state res"

section \<open>The vector of events\<close>

text \<open>
  \<open>reserve\<close> and \<open>resize\<close> of \<open>std::vector\<close>. What is beyond the size has no value; \<open>resize\<close> makes new elements
  of zeros. Beyond the capacity the elements, not what else is in the storage, move to a new allocation, which
  the library makes at least twice as large as the size was.
\<close>

definition ep_reserve :: "nat \<Rightarrow> epoll \<Rightarrow> epoll" where
  "ep_reserve n E =
     (if n \<le> length (ep_events E) then E
      else E\<lparr>ep_events := take (ep_used E) (ep_events E) @ replicate (n - ep_used E) (0, Indeterminate), ep_storage := Suc (ep_storage E)\<rparr>)"

definition ep_resize :: "nat \<Rightarrow> epoll \<Rightarrow> epoll" where
  "ep_resize n E =
     (let u = ep_used E; xs = take u (ep_events E) @ replicate (n - u) (0, Null) in
      if n \<le> u then E\<lparr>ep_used := n\<rparr>
      else if n \<le> length (ep_events E) then E\<lparr>ep_events := xs @ drop n (ep_events E), ep_used := n\<rparr>
      else E\<lparr>ep_events := xs @ replicate (max (2 * u) n - n) (0, Indeterminate), ep_used := n, ep_storage := Suc (ep_storage E)\<rparr>)"

text \<open>What \<open>epoll_wait\<close> writes through \<open>data ()\<close>; what \<open>*epev\<close> is for a pointer to element \<open>i\<close> of allocation \<open>g\<close>.\<close>

definition store_events :: "(u32 \<times> addr) list \<Rightarrow> epoll \<Rightarrow> epoll res" where
  "store_events evs E =
     bindR (guardR (length evs \<le> length (ep_events E)) Out_Of_Bounds) (\<lambda>_.
     Inr (E\<lparr>ep_events := map (\<lambda>(ev, a). (ev, At a)) evs @ drop (length evs) (ep_events E)\<rparr>))"

definition read_event :: "nat \<Rightarrow> nat \<Rightarrow> epoll \<Rightarrow> (u32 \<times> ptr) res" where
  "read_event g i E =
     bindR (guardR (ep_storage E = g) Wild_Access) (\<lambda>_.
     bindR (guardR (i < length (ep_events E)) Out_Of_Bounds) (\<lambda>_. Inr (ep_events E ! i)))"

section \<open>Operations\<close>

definition epoll_new :: epoll where
  "epoll_new = \<lparr>ep_size = 0, epoll_fd = kInvalidFd, ep_events = [], ep_used = 0, ep_storage = 0, ep_entries = heap_empty, retired = [], writeable = []\<rparr>"

definition epoll_init :: "'k epoll_kernel \<Rightarrow> int \<Rightarrow> epoll \<times> 'k env \<Rightarrow> int \<times> epoll \<times> 'k env" where
  "epoll_init K sz = (\<lambda>(E, s).
     let E = ep_reserve (nat sz) (E\<lparr>ep_size := sz\<rparr>) in
     case syscall (ke_create K) s of
       (None, s) \<Rightarrow> (kError, E\<lparr>epoll_fd := -1\<rparr>, s)
     | (Some fd, s) \<Rightarrow> if fd = -1 then (kError, E\<lparr>epoll_fd := fd\<rparr>, s) else (kOK, E\<lparr>epoll_fd := fd\<rparr>, s))"

definition epoll_add :: "'k epoll_kernel \<Rightarrow> int \<Rightarrow> addr \<Rightarrow> epoll \<times> 'k env \<Rightarrow> (ptr \<times> epoll \<times> 'k env) res" where
  "epoll_add K fd event = (\<lambda>(E, s).
     let ev = EPOLLOUT OR EPOLLIN OR EPOLLET;
         (ee, h) = heap_alloc \<lparr>ee_fd = fd, ee_events = ev, ee_event = event\<rparr> (ep_entries E);
         E = E\<lparr>ep_entries := h\<rparr>
     in case syscall (ke_add K (epoll_fd E) fd ev ee) s of
          (None, s) \<Rightarrow> bindR (heap_free ee (ep_entries E)) (\<lambda>h. Inr (Null, E\<lparr>ep_entries := h\<rparr>, s))
        | (Some _, s) \<Rightarrow>
            Inr (At ee,
              (if fd > ep_size E
               then ep_resize (nat (fd + kIncrPollSize)) (E\<lparr>ep_size := fd + kIncrPollSize\<rparr>) else E), s))"

definition epoll_del :: "'k epoll_kernel \<Rightarrow> ptr \<Rightarrow> epoll \<times> 'k env \<Rightarrow> (int \<times> epoll \<times> 'k env) res" where
  "epoll_del K handle = (\<lambda>(E, s).
     if handle = Null then Inr (kOK, E, s)
     else
       bindR (deref handle) (\<lambda>a.
       bindR (heap_get a (ep_entries E)) (\<lambda>ee.
       let (r, s) = syscall (ke_del K (epoll_fd E) (ee_fd ee)) s in
       bindR (heap_put a (ee\<lparr>ee_fd := kInvalidFd\<rparr>) (ep_entries E)) (\<lambda>h.
       Inr (if r = None then -1 else 0, E\<lparr>ep_entries := h, retired := retired E @ [a]\<rparr>, s)))))"

definition epoll_mark :: "ptr \<Rightarrow> epoll \<Rightarrow> epoll res" where
  "epoll_mark handle E =
     (if handle = Null then Inr E else bindR (deref handle) (\<lambda>a. Inr (E\<lparr>writeable := writeable E @ [a]\<rparr>)))"

fun delete_entries :: "addr list \<Rightarrow> epoll_entry heap \<Rightarrow> epoll_entry heap res" where
  "delete_entries [] h = Inr h"
| "delete_entries (a # as) h = bindR (heap_free a h) (delete_entries as)"

definition processRetired :: "epoll \<Rightarrow> epoll res" where
  "processRetired E = bindR (delete_entries (retired E) (ep_entries E)) (\<lambda>h. Inr (E\<lparr>ep_entries := h, retired := []\<rparr>))"

definition epoll_destroy :: "'k epoll_kernel \<Rightarrow> epoll \<times> 'k env \<Rightarrow> (epoll \<times> 'k env) res" where
  "epoll_destroy K = (\<lambda>(E, s).
     let s = (if epoll_fd E \<noteq> kInvalidFd then snd (syscall (ke_close K (epoll_fd E)) s) else s)
     in bindR (processRetired E) (\<lambda>E. Inr (E, s)))"

text \<open>
  The first loop of \<open>Poll\<close>. Only \<open>push_back\<close> is applied to the list while it is walked, so the
  iterator is an index, and entries marked on the way are reached too.
\<close>

partial_function (option) writeable_loop :: "('k, 'w) event_cb \<Rightarrow> nat \<Rightarrow> ('k, 'w) ep_state \<Rightarrow> ('k, 'w) ep_state res option" where
  "writeable_loop cb i st =
     (if i < length (writeable (fst st)) then
        (case bindR (heap_get (writeable (fst st) ! i) (ep_entries (fst st))) (\<lambda>ee. cb Ev_Out (ee_event ee) st) of
           Inl f \<Rightarrow> Some (Inl f)
         | Inr st \<Rightarrow> writeable_loop cb (Suc i) st)
      else Some (Inr ((fst st)\<lparr>writeable := []\<rparr>, snd st)))"

text \<open>
  The test \<open>ee->fd == kInvalidFd\<close>, that of the bits of \<open>epev->events\<close>, and the call. \<open>epev\<close> was set to element \<open>i\<close>
  when the storage was \<open>g\<close>, and is used again after calls that may have added a descriptor.
\<close>

definition guarded_call :: "('k, 'w) event_cb \<Rightarrow> nat \<Rightarrow> nat \<Rightarrow> u32 \<Rightarrow> io \<Rightarrow> addr \<Rightarrow> addr \<Rightarrow> ('k, 'w) ep_state
    \<Rightarrow> (bool \<times> ('k, 'w) ep_state) res" where
  "guarded_call cb g i bits io a event st =
     bindR (heap_get a (ep_entries (fst st))) (\<lambda>ee.
     if ee_fd ee = kInvalidFd then Inr (False, st)
     else
       bindR (read_event g i (fst st)) (\<lambda>(ev, _).
       if ev AND bits \<noteq> 0 then bindR (cb io event st) (\<lambda>st. Inr (True, st)) else Inr (True, st)))"

text \<open>The body of the second loop: the reported event \<open>i\<close>.\<close>

definition dispatch_event :: "('k, 'w) event_cb \<Rightarrow> nat \<Rightarrow> ('k, 'w) ep_state \<Rightarrow> ('k, 'w) ep_state res" where
  "dispatch_event cb i st =
     (let g = ep_storage (fst st) in
      bindR (read_event g i (fst st)) (\<lambda>(_, p).
      bindR (deref p) (\<lambda>a.
      bindR (heap_get a (ep_entries (fst st))) (\<lambda>ee.
      let event = ee_event ee in
      bindR (guarded_call cb g i (EPOLLERR OR EPOLLHUP) Ev_In a event st) (\<lambda>(go, st).
      if \<not> go then Inr st
      else
        bindR (guarded_call cb g i EPOLLIN Ev_In a event st) (\<lambda>(go, st).
        if \<not> go then Inr st
        else
          bindR (guarded_call cb g i EPOLLOUT Ev_Out a event st) (\<lambda>(go, st). Inr st)))))))"

text \<open>\<open>for (i = 0; i < num; ++i)\<close>\<close>

fun dispatch_all :: "('k, 'w) event_cb \<Rightarrow> nat list \<Rightarrow> ('k, 'w) ep_state \<Rightarrow> ('k, 'w) ep_state res" where
  "dispatch_all cb [] st = Inr st"
| "dispatch_all cb (i # is) st = bindR (dispatch_event cb i st) (dispatch_all cb is)"

definition epoll_poll :: "('k, 'w) event_cb \<Rightarrow> 'k epoll_kernel \<Rightarrow> int \<Rightarrow> ('k, 'w) ep_state
    \<Rightarrow> (int \<times> ('k, 'w) ep_state) res" where
  "epoll_poll cb K timeout st =
     bindR (loopR (writeable_loop cb 0 st)) (\<lambda>(E, s, w).
     case syscall (ke_wait K (epoll_fd E) (ep_size E) timeout) s of
       (None, s) \<Rightarrow> Inr (-1, E, s, w)
     | (Some evs, s) \<Rightarrow>
         if evs = [] then Inr (0, E, s, w)
         else
           bindR (store_events evs E) (\<lambda>E.
           bindR (dispatch_all cb [0..<length evs] (E, s, w)) (\<lambda>(E, s, w).
           bindR (processRetired E) (\<lambda>E. Inr (int (length evs), E, s, w)))))"

lemma ep_vector_sel [simp]:
  "ep_size (ep_reserve n E) = ep_size E" "ep_size (ep_resize n E) = ep_size E"
  "ep_entries (ep_reserve n E) = ep_entries E" "ep_entries (ep_resize n E) = ep_entries E"
  "retired (ep_reserve n E) = retired E" "retired (ep_resize n E) = retired E"
  "writeable (ep_reserve n E) = writeable E" "writeable (ep_resize n E) = writeable E"
  "epoll_fd (ep_reserve n E) = epoll_fd E" "epoll_fd (ep_resize n E) = epoll_fd E"
  by (simp_all add: ep_reserve_def ep_resize_def Let_def)

lemma ep_reserve_room:
  "ep_used E \<le> length (ep_events E) \<Longrightarrow> n \<le> length (ep_events (ep_reserve n E)) \<and> ep_used (ep_reserve n E) \<le> length (ep_events (ep_reserve n E))"
  by (simp add: ep_reserve_def)

lemma ep_resize_room:
  "ep_used E \<le> length (ep_events E) \<Longrightarrow> n \<le> length (ep_events (ep_resize n E)) \<and> ep_used (ep_resize n E) \<le> length (ep_events (ep_resize n E))"
  by (auto simp: ep_resize_def Let_def)

text \<open>An unchanged vector.\<close>

definition same_events :: "epoll \<Rightarrow> epoll \<Rightarrow> bool" where
  "same_events E E' \<longleftrightarrow> ep_events E' = ep_events E \<and> ep_used E' = ep_used E \<and> ep_storage E' = ep_storage E \<and> ep_size E' = ep_size E"

lemma same_events_refl [simp]: "same_events E E"
  by (simp add: same_events_def)

lemma same_events_trans: "same_events E E1 \<Longrightarrow> same_events E1 E2 \<Longrightarrow> same_events E E2"
  by (simp add: same_events_def)

lemma same_events_updates [simp]:
  "same_events E (E'\<lparr>ep_entries := h\<rparr>) \<longleftrightarrow> same_events E E'" "same_events E (E'\<lparr>retired := r\<rparr>) \<longleftrightarrow> same_events E E'"
  "same_events E (E'\<lparr>writeable := x\<rparr>) \<longleftrightarrow> same_events E E'"
  by (simp_all add: same_events_def)

section \<open>Well-formed pollers\<close>

definition live :: "epoll \<Rightarrow> addr set" where
  "live E = dom (cells (ep_entries E)) - set (retired E)"

text \<open>
  Every retired entry is allocated, once in the list and marked by its descriptor; the others are
  not; what waits to be written to is live.
\<close>

definition epoll_wf :: "epoll \<Rightarrow> bool" where
  "epoll_wf E \<longleftrightarrow> heap_wf (ep_entries E) \<and> distinct (retired E) \<and> set (retired E) \<subseteq> dom (cells (ep_entries E))
     \<and> (\<forall>a ee. cells (ep_entries E) a = Some ee \<longrightarrow> (ee_fd ee = kInvalidFd \<longleftrightarrow> a \<in> set (retired E)))
     \<and> set (writeable E) \<subseteq> live E \<and> ep_size E \<le> int (length (ep_events E)) \<and> ep_used E \<le> length (ep_events E)"

lemma epoll_new_wf: "epoll_wf epoll_new"
  by (simp add: epoll_wf_def epoll_new_def live_def)

lemma epoll_init_wf: "epoll_wf E \<Longrightarrow> epoll_wf (fst (snd (epoll_init K n (E, s))))"
  using ep_reserve_room [of "E\<lparr>ep_size := n\<rparr>" "nat n"]
  by (auto simp: epoll_init_def epoll_wf_def live_def Let_def split: prod.splits option.splits)

lemma epoll_add_wf:
  assumes "epoll_wf E" and "fd \<noteq> kInvalidFd"
  shows "\<exists>h E' s'. epoll_add K fd ev (E, s) = Inr (h, E', s') \<and> epoll_wf E' \<and> writeable E' = writeable E
    \<and> retired E' = retired E \<and> (fd \<le> ep_size E \<longrightarrow> same_events E E')
    \<and> (\<forall>a \<in> dom (cells (ep_entries E)). cells (ep_entries E') a = cells (ep_entries E) a)
    \<and> (case h of At a \<Rightarrow> live E' = insert a (live E) \<and> a \<notin> dom (cells (ep_entries E)) | _ \<Rightarrow> live E' = live E)"
proof -
  let ?v = "\<lparr>ee_fd = fd, ee_events = EPOLLOUT OR EPOLLIN OR EPOLLET, ee_event = ev\<rparr>"
  obtain a h where a: "heap_alloc ?v (ep_entries E) = (a, h)" by fastforce
  have w: "heap_wf (ep_entries E)" using assms by (simp add: epoll_wf_def)
  note f = heap_alloc_fresh [OF w a] heap_alloc_cells [OF a] heap_wf_alloc [OF w a]
  obtain r s1 where r: "syscall (ke_add K (epoll_fd E) fd (EPOLLOUT OR EPOLLIN OR EPOLLET) a) s = (r, s1)" by (metis surj_pair)
  show ?thesis
  proof (cases r)
    case None
    obtain h' where h': "heap_free a h = Inr h'" "heap_wf h'" "cells h' = (cells h)(a := None)"
      using heap_free_ok [OF f(3), of a ?v] f(2) by auto
    have c: "cells h' = cells (ep_entries E)" using f(1,2) h'(3) by auto
    have "epoll_add K fd ev (E, s) = Inr (Null, E\<lparr>ep_entries := h'\<rparr>, s1)"
      using a r None h'(1) by (simp add: epoll_add_def Let_def)
    moreover have "epoll_wf (E\<lparr>ep_entries := h'\<rparr>)"
      using assms(1) h'(2) c by (simp add: epoll_wf_def live_def)
    ultimately show ?thesis using c by (simp add: live_def)
  next
    case (Some u)
    define E' where "E' = (if fd > ep_size E
      then ep_resize (nat (fd + kIncrPollSize)) (E\<lparr>ep_entries := h, ep_size := fd + kIncrPollSize\<rparr>)
      else E\<lparr>ep_entries := h\<rparr>)"
    have c: "ep_entries E' = h" "retired E' = retired E" "writeable E' = writeable E" by (simp_all add: E'_def)
    have "epoll_add K fd ev (E, s) = Inr (At a, E', s1)"
      using a r Some by (simp add: epoll_add_def Let_def E'_def)
    moreover have na: "a \<notin> set (retired E)" using assms(1) f(1) by (auto simp: epoll_wf_def)
    moreover have lv: "live E' = insert a (live E)" using na f(2) by (auto simp: live_def c)
    moreover have "ep_size E' \<le> int (length (ep_events E')) \<and> ep_used E' \<le> length (ep_events E')"
      using assms(1) ep_resize_room [of "E\<lparr>ep_entries := h, ep_size := fd + kIncrPollSize\<rparr>" "nat (fd + kIncrPollSize)"]
      by (auto simp: E'_def epoll_wf_def)
    then have "epoll_wf E'"
      using assms f na lv unfolding epoll_wf_def c by auto
    moreover have "fd \<le> ep_size E \<longrightarrow> same_events E E'" by (simp add: E'_def)
    ultimately show ?thesis using f c by auto
  qed
qed

lemma epoll_del_wf:
  assumes wf: "epoll_wf E" and a: "a \<in> live E" "a \<notin> set (writeable E)"
  shows "\<exists>rc E' s'. epoll_del K (At a) (E, s) = Inr (rc, E', s') \<and> epoll_wf E' \<and> writeable E' = writeable E
    \<and> live E' = live E - {a} \<and> retired E' = retired E @ [a] \<and> same_events E E'
    \<and> (\<forall>b. b \<noteq> a \<longrightarrow> cells (ep_entries E') b = cells (ep_entries E) b)
    \<and> (\<forall>b. map_option ee_event (cells (ep_entries E') b) = map_option ee_event (cells (ep_entries E) b))"
proof -
  obtain ee where ee: "cells (ep_entries E) a = Some ee" using a by (auto simp: live_def)
  obtain r s1 where r: "syscall (ke_del K (epoll_fd E) (ee_fd ee)) s = (r, s1)" by (metis surj_pair)
  let ?h = "(ep_entries E)\<lparr>cells := (cells (ep_entries E))(a \<mapsto> ee\<lparr>ee_fd := kInvalidFd\<rparr>)\<rparr>"
  let ?E = "E\<lparr>ep_entries := ?h, retired := retired E @ [a]\<rparr>"
  have "heap_wf ?h" using heap_put_wf [OF _ ee] wf by (simp add: epoll_wf_def)
  then have "epoll_wf ?E"
    using wf a ee by (auto simp: epoll_wf_def live_def)
  moreover have "epoll_del K (At a) (E, s) = Inr (if r = None then -1 else 0, ?E, s1)"
    using ee r by (simp add: epoll_del_def)
  ultimately show ?thesis using ee by (auto simp: live_def)
qed

lemma epoll_del_writeable:
  "epoll_del K h (E\<lparr>writeable := W\<rparr>, s)
    = bindR (epoll_del K h (E, s)) (\<lambda>(rc, E', s'). Inr (rc, E'\<lparr>writeable := W\<rparr>, s'))"
  by (cases h) (auto simp: epoll_del_def deref_def heap_get_def heap_put_def Let_def split: option.splits prod.splits)

lemma epoll_mark_wf:
  "epoll_wf E \<Longrightarrow> a \<in> live E \<Longrightarrow> \<exists>E'. epoll_mark (At a) E = Inr E' \<and> epoll_wf E' \<and> live E' = live E
    \<and> retired E' = retired E \<and> ep_entries E' = ep_entries E \<and> same_events E E'"
  by (simp add: epoll_mark_def epoll_wf_def live_def)

lemma delete_entries_ok:
  "heap_wf h \<Longrightarrow> distinct as \<Longrightarrow> set as \<subseteq> dom (cells h) \<Longrightarrow> \<exists>h'. delete_entries as h = Inr h' \<and> heap_wf h'
    \<and> dom (cells h') = dom (cells h) - set as \<and> (\<forall>a. a \<notin> set as \<longrightarrow> cells h' a = cells h a)"
proof (induction as arbitrary: h)
  case (Cons a as)
  then obtain v where "cells h a = Some v" by auto
  from heap_free_ok [OF Cons.prems(1) this] obtain h1 where
    h1: "heap_free a h = Inr h1" "heap_wf h1" "cells h1 = (cells h)(a := None)" by blast
  have "set as \<subseteq> dom (cells h1)" using Cons.prems h1(3) by auto
  from Cons.IH [OF h1(2) _ this] obtain h2 where "delete_entries as h1 = Inr h2" "heap_wf h2"
    "dom (cells h2) = dom (cells h1) - set as" "\<forall>x. x \<notin> set as \<longrightarrow> cells h2 x = cells h1 x"
    using Cons.prems(2) by auto
  then show ?case using h1 by (intro exI [of _ h2]) auto
qed simp

lemma processRetired_wf:
  assumes "epoll_wf E"
  shows "\<exists>E'. processRetired E = Inr E' \<and> epoll_wf E' \<and> retired E' = [] \<and> writeable E' = writeable E
    \<and> live E' = live E \<and> (\<forall>a \<in> live E. cells (ep_entries E') a = cells (ep_entries E) a)"
proof -
  obtain h where h: "delete_entries (retired E) (ep_entries E) = Inr h" "heap_wf h"
    "dom (cells h) = dom (cells (ep_entries E)) - set (retired E)"
    "\<forall>a. a \<notin> set (retired E) \<longrightarrow> cells h a = cells (ep_entries E) a"
    using delete_entries_ok [of "ep_entries E" "retired E"] assms by (auto simp: epoll_wf_def)
  let ?E = "E\<lparr>ep_entries := h, retired := []\<rparr>"
  have lv: "live ?E = live E" using h(3) by (simp add: live_def)
  have "ee_fd ee \<noteq> kInvalidFd" if "cells h a = Some ee" for a ee
  proof -
    have "a \<notin> set (retired E)" using that h(3) by auto
    then show ?thesis using that h(4) assms by (auto simp: epoll_wf_def)
  qed
  then have "epoll_wf ?E" using assms h(2) lv by (simp add: epoll_wf_def)
  then show ?thesis using h lv by (auto simp: processRetired_def live_def)
qed

section \<open>Callbacks that use the poller\<close>

text \<open>
  \<open>reg k fd\<close> is the pointer registered for \<open>fd\<close> in the kernel state \<open>k\<close>; \<open>epoll_wait\<close> reports
  registered pointers only, and no more of them than it is asked for.
\<close>

definition kernel_reports :: "'k epoll_kernel \<Rightarrow> ('k \<Rightarrow> int \<Rightarrow> addr option) \<Rightarrow> bool" where
  "kernel_reports K reg \<longleftrightarrow>
     (\<forall>ep fd ev a k u k'. ke_add K ep fd ev a k = (Inr u, k') \<longrightarrow> reg k' = (reg k)(fd \<mapsto> a))
     \<and> (\<forall>ep fd ev a k e k'. ke_add K ep fd ev a k = (Inl e, k') \<longrightarrow> reg k' = reg k)
     \<and> (\<forall>ep fd k. reg (snd (ke_del K ep fd k)) = (reg k)(fd := None))
     \<and> (\<forall>ep n t k evs k'. ke_wait K ep n t k = (Inr evs, k') \<longrightarrow> reg k' = reg k \<and> snd ` set evs \<subseteq> ran (reg k)
           \<and> (evs \<noteq> [] \<longrightarrow> int (length evs) \<le> n))
     \<and> (\<forall>ep n t k e k'. ke_wait K ep n t k = (Inl e, k') \<longrightarrow> reg k' = reg k)"

lemma kernel_reportsD:
  assumes "kernel_reports K reg"
  shows "ke_add K ep fd ev a k = (Inr u, k') \<Longrightarrow> reg k' = (reg k)(fd \<mapsto> a)"
    "ke_add K ep fd ev a k = (Inl e, k') \<Longrightarrow> reg k' = reg k"
    "reg (snd (ke_del K ep fd k)) = (reg k)(fd := None)"
    "ke_wait K ep n t k = (Inr evs, k') \<Longrightarrow> reg k' = reg k \<and> snd ` set evs \<subseteq> ran (reg k)
      \<and> (evs \<noteq> [] \<longrightarrow> int (length evs) \<le> n)"
    "ke_wait K ep n t k = (Inl e, k') \<Longrightarrow> reg k' = reg k"
  using assms unfolding kernel_reports_def by metis+

definition ep_ok :: "('k \<Rightarrow> int \<Rightarrow> addr option) \<Rightarrow> epoll \<Rightarrow> 'k env \<Rightarrow> bool" where
  "ep_ok reg E s \<longleftrightarrow> epoll_wf E \<and> (\<forall>fd a. reg (snd s) fd = Some a \<longrightarrow>
     a \<in> live E \<and> (\<exists>ee. cells (ep_entries E) a = Some ee \<and> ee_fd ee = fd))"

text \<open>
  One use of the poller by a callback: adding a descriptor not above \<open>size_\<close>, marking a live handle, deleting a live
  handle that is not marked, or anything else that registers nothing: reading, writing or closing a descriptor, which ends its
  registration.
\<close>

inductive ep_use :: "'k epoll_kernel \<Rightarrow> ('k \<Rightarrow> int \<Rightarrow> addr option) \<Rightarrow> epoll \<times> 'k env \<Rightarrow> epoll \<times> 'k env \<Rightarrow> bool"
  for K reg where
  use_add: "\<lbrakk>fd \<noteq> kInvalidFd; fd \<le> ep_size E; epoll_add K fd ev (E, s) = Inr (h, E', s')\<rbrakk>
    \<Longrightarrow> ep_use K reg (E, s) (E', s')"
| use_mark: "\<lbrakk>a \<in> live E; epoll_mark (At a) E = Inr E'\<rbrakk> \<Longrightarrow> ep_use K reg (E, s) (E', s)"
| use_del: "\<lbrakk>a \<in> live E; a \<notin> set (writeable E); epoll_del K (At a) (E, s) = Inr (rc, E', s')\<rbrakk>
    \<Longrightarrow> ep_use K reg (E, s) (E', s')"
| use_other: "(\<And>fd a. reg (snd s') fd = Some a \<Longrightarrow> reg (snd s) fd = Some a) \<Longrightarrow> ep_use K reg (E, s) (E, s')"

lemma epoll_add_reg:
  assumes K: "kernel_reports K reg" and run: "epoll_add K fd ev (E, s) = Inr (h, E', s')"
  shows "case h of At a \<Rightarrow> reg (snd s') = (reg (snd s))(fd \<mapsto> a)
      \<and> (\<exists>ee. cells (ep_entries E') a = Some ee \<and> ee_fd ee = fd)
    | _ \<Rightarrow> reg (snd s') = reg (snd s)"
proof -
  obtain a hp where a: "heap_alloc \<lparr>ee_fd = fd, ee_events = EPOLLOUT OR EPOLLIN OR EPOLLET, ee_event = ev\<rparr> (ep_entries E) = (a, hp)"
    by (metis surj_pair)
  obtain r k1 where r: "ke_add K (epoll_fd E) fd (EPOLLOUT OR EPOLLIN OR EPOLLET) a (snd s) = (r, k1)" by (metis surj_pair)
  show ?thesis
  proof (cases r)
    case (Inl e)
    then show ?thesis
      using run a r kernel_reportsD(2) [OF K, of "epoll_fd E" fd "EPOLLOUT OR EPOLLIN OR EPOLLET" a "snd s"]
      by (auto simp: epoll_add_def Let_def syscall_def res_simps)
  next
    case (Inr u)
    then show ?thesis
      using run a r heap_alloc_cells [OF a]
        kernel_reportsD(1) [OF K, of "epoll_fd E" fd "EPOLLOUT OR EPOLLIN OR EPOLLET" a "snd s"]
      by (auto simp: epoll_add_def Let_def syscall_def split: if_splits)
  qed
qed

lemma epoll_del_reg:
  assumes "kernel_reports K reg" and "epoll_del K (At a) (E, s) = Inr (rc, E', s')"
  shows "\<exists>ee. cells (ep_entries E) a = Some ee \<and> reg (snd s') = (reg (snd s))(ee_fd ee := None)"
proof -
  obtain ee where ee: "cells (ep_entries E) a = Some ee" using assms(2) by (auto simp: epoll_del_def res_simps)
  have "reg (snd (ke_del K (epoll_fd E) (ee_fd ee) (snd s))) = (reg (snd s))(ee_fd ee := None)"
    by (rule kernel_reportsD(3) [OF assms(1)])
  then show ?thesis using assms(2) ee
    by (auto simp: epoll_del_def syscall_def split: prod.splits sum.splits)
qed

text \<open>
  What such uses keep: the vector; the entries, with their event objects; and what is retired stays so.
\<close>

definition ep_ext :: "epoll \<Rightarrow> epoll \<Rightarrow> bool" where
  "ep_ext E E' \<longleftrightarrow> same_events E E' \<and> set (retired E) \<subseteq> set (retired E')
     \<and> (\<forall>a v. cells (ep_entries E) a = Some v \<longrightarrow> (\<exists>v'. cells (ep_entries E') a = Some v' \<and> ee_event v' = ee_event v))"

lemma ep_ext_refl [simp]: "ep_ext E E"
  by (simp add: ep_ext_def)

lemma ep_ext_trans:
  assumes "ep_ext E E1" and "ep_ext E1 E2"
  shows "ep_ext E E2"
proof -
  have "\<exists>v'. cells (ep_entries E2) a = Some v' \<and> ee_event v' = ee_event v" if v: "cells (ep_entries E) a = Some v" for a v
  proof -
    obtain v1 where "cells (ep_entries E1) a = Some v1" "ee_event v1 = ee_event v"
      using assms(1) v unfolding ep_ext_def by metis
    then show ?thesis using assms(2) unfolding ep_ext_def by metis
  qed
  then show ?thesis using assms by (auto simp: ep_ext_def same_events_def)
qed

lemma ep_ext_dom: "ep_ext E E' \<Longrightarrow> dom (cells (ep_entries E)) \<subseteq> dom (cells (ep_entries E'))"
  unfolding ep_ext_def by blast

lemma ep_ext_events:
  "ep_ext E E' \<Longrightarrow> ep_events E' = ep_events E \<and> ep_storage E' = ep_storage E \<and> ep_size E' = ep_size E"
  by (simp add: ep_ext_def same_events_def)

lemma ep_use_ok:
  assumes "ep_use K reg st st'" and "kernel_reports K reg" and "ep_ok reg (fst st) (snd st)"
  shows "ep_ok reg (fst st') (snd st') \<and> ep_ext (fst st) (fst st')"
  using assms
proof (induction rule: ep_use.induct)
  case (use_add fd E ev s h E' s')
  have wf: "epoll_wf E" and old: "\<And>f x. reg (snd s) f = Some x \<Longrightarrow> x \<in> live E
      \<and> (\<exists>ee. cells (ep_entries E) x = Some ee \<and> ee_fd ee = f)"
    using use_add.prems(2) by (auto simp: ep_ok_def)
  have p: "epoll_wf E'" "retired E' = retired E" "same_events E E'"
    "\<forall>x \<in> dom (cells (ep_entries E)). cells (ep_entries E') x = cells (ep_entries E) x"
    "case h of At a \<Rightarrow> live E' = insert a (live E) \<and> a \<notin> dom (cells (ep_entries E)) | _ \<Rightarrow> live E' = live E"
    using epoll_add_wf [OF wf use_add.hyps(1), of K ev s] use_add.hyps(2,3) by auto
  note r = epoll_add_reg [OF use_add.prems(1) use_add.hyps(3)]
  have d: "ep_ext E E'" using p(2,3,4) by (force simp: ep_ext_def)
  have keep: "x \<in> live E' \<and> (\<exists>ee. cells (ep_entries E') x = Some ee \<and> ee_fd ee = f)" if "reg (snd s) f = Some x" for f x
    using old [OF that] p(4,5) by (cases h) (auto simp: live_def)
  have "x \<in> live E' \<and> (\<exists>ee. cells (ep_entries E') x = Some ee \<and> ee_fd ee = f)" if "reg (snd s') f = Some x" for f x
    using that r keep p(5) by (cases h) (auto split: if_splits)
  then show ?case using p(1) d by (simp add: ep_ok_def)
next
  case (use_mark a E E' s)
  then show ?case using epoll_mark_wf [of E a] by (auto simp: ep_ok_def ep_ext_def)
next
  case (use_del a E s rc E' s')
  have wf: "epoll_wf E" using use_del.prems(2) by (simp add: ep_ok_def)
  have p: "epoll_wf E'" "live E' = live E - {a}" "\<forall>b. b \<noteq> a \<longrightarrow> cells (ep_entries E') b = cells (ep_entries E) b"
    "retired E' = retired E @ [a]" "same_events E E'"
    "\<And>b. map_option ee_event (cells (ep_entries E') b) = map_option ee_event (cells (ep_entries E) b)"
    using epoll_del_wf [OF wf use_del.hyps(1,2), of K s] use_del.hyps(3) by auto
  have "\<exists>v'. cells (ep_entries E') b = Some v' \<and> ee_event v' = ee_event v" if "cells (ep_entries E) b = Some v" for b v
    using p(6) [of b] that by (cases "cells (ep_entries E') b") simp_all
  then have ext: "ep_ext E E'" using p(4,5) by (auto simp: ep_ext_def)
  obtain ee where ee: "cells (ep_entries E) a = Some ee" "reg (snd s') = (reg (snd s))(ee_fd ee := None)"
    using epoll_del_reg [OF use_del.prems(1) use_del.hyps(3)] by blast
  have "x \<in> live E' \<and> (\<exists>ee. cells (ep_entries E') x = Some ee \<and> ee_fd ee = f)" if "reg (snd s') f = Some x" for f x
  proof -
    have f: "f \<noteq> ee_fd ee" "reg (snd s) f = Some x" using that ee(2) by (auto split: if_splits)
    then obtain v where v: "x \<in> live E" "cells (ep_entries E) x = Some v" "ee_fd v = f"
      using use_del.prems(2) by (auto simp: ep_ok_def)
    then have "x \<noteq> a" using f(1) ee(1) by auto
    then show ?thesis using v p(2,3) by simp
  qed
  then show ?case using p(1) ext by (simp add: ep_ok_def)
next
  case (use_other s' s E)
  then show ?case by (auto simp: ep_ok_def)
qed

lemma ep_uses_ok:
  assumes "(ep_use K reg)\<^sup>*\<^sup>* st st'" and "kernel_reports K reg" and "ep_ok reg (fst st) (snd st)"
  shows "ep_ok reg (fst st') (snd st') \<and> ep_ext (fst st) (fst st')"
  using assms(1)
proof (induction rule: rtranclp_induct)
  case base
  then show ?case using assms(3) by simp
next
  case (step y z)
  then show ?case using ep_use_ok [OF step.hyps(2) assms(2)] ep_ext_trans by blast
qed

text \<open>Callbacks that return and only use the poller as above; \<open>Out\<close> marks nothing.\<close>

definition polite :: "'k epoll_kernel \<Rightarrow> ('k \<Rightarrow> int \<Rightarrow> addr option) \<Rightarrow> ('k, 'w) event_cb \<Rightarrow> bool" where
  "polite K reg cb \<longleftrightarrow> (\<forall>io ev E s w. ep_ok reg E s \<longrightarrow>
     (\<exists>E' s' w'. cb io ev (E, s, w) = Inr (E', s', w') \<and> (ep_use K reg)\<^sup>*\<^sup>* (E, s) (E', s')
       \<and> (io = Ev_Out \<longrightarrow> writeable E' = writeable E)))"

lemma politeE:
  assumes "polite K reg cb" and "kernel_reports K reg" and "ep_ok reg E s"
  obtains E' s' w' where "cb io ev (E, s, w) = Inr (E', s', w')" "ep_ok reg E' s'" "ep_ext E E'"
    "io = Ev_Out \<Longrightarrow> writeable E' = writeable E"
proof -
  obtain E' s' w' where r: "cb io ev (E, s, w) = Inr (E', s', w')" "(ep_use K reg)\<^sup>*\<^sup>* (E, s) (E', s')"
    "io = Ev_Out \<Longrightarrow> writeable E' = writeable E"
    using assms(1,3) unfolding polite_def by metis
  then show ?thesis using ep_uses_ok [OF r(2) assms(2)] assms(3) that by simp
qed

section \<open>The calls of a turn\<close>

text \<open>
  The specification of both loops: calls of \<open>In\<close> and \<open>Out\<close> of the event objects that handles were
  registered for, each left out when its handle has been deleted by then.
\<close>

definition event_at :: "epoll \<Rightarrow> addr \<Rightarrow> addr" where
  "event_at E a = (case cells (ep_entries E) a of None \<Rightarrow> 0 | Some ee \<Rightarrow> ee_event ee)"

fun run_calls :: "('k, 'w) event_cb \<Rightarrow> (io \<times> addr) list \<Rightarrow> ('k, 'w) ep_state \<Rightarrow> ('k, 'w) ep_state res" where
  "run_calls cb [] st = Inr st"
| "run_calls cb ((io, a) # cs) st =
     bindR (if a \<in> set (retired (fst st)) then Inr st else cb io (event_at (fst st) a) st) (run_calls cb cs)"

text \<open>The calls a set of event bits leads to, in order.\<close>

definition event_calls :: "u32 \<Rightarrow> io list" where
  "event_calls ev = (if ev AND (EPOLLERR OR EPOLLHUP) \<noteq> 0 then [Ev_In] else [])
     @ (if ev AND EPOLLIN \<noteq> 0 then [Ev_In] else []) @ (if ev AND EPOLLOUT \<noteq> 0 then [Ev_Out] else [])"

lemma run_calls_Nil [simp]: "run_calls cb [] = Inr" and bindR_unit [simp]: "bindR m Inr = m"
  by (auto simp: bindR_def split: sum.splits)

lemma run_calls_append: "run_calls cb (xs @ ys) st = bindR (run_calls cb xs st) (run_calls cb ys)"
  by (induction cb xs st rule: run_calls.induct) (auto simp: bindR_def split: sum.splits)

lemma run_calls_ok:
  assumes pol: "polite K reg cb" and K: "kernel_reports K reg"
  shows "ep_ok reg E s \<Longrightarrow> \<exists>E' s' w'. run_calls cb cs (E, s, w) = Inr (E', s', w') \<and> ep_ok reg E' s' \<and> ep_ext E E'"
proof (induction cs arbitrary: E s w)
  case Nil
  then show ?case by simp
next
  case (Cons c cs)
  obtain io a where c: "c = (io, a)" by fastforce
  obtain E1 s1 w1 where 1: "(if a \<in> set (retired E) then Inr (E, s, w) else cb io (event_at E a) (E, s, w)) = Inr (E1, s1, w1)"
    "ep_ok reg E1 s1" "ep_ext E E1"
    by (rule politeE [OF pol K Cons.prems, of io "event_at E a" w])
      (use Cons.prems in \<open>cases "a \<in> set (retired E)"; simp\<close>)
  obtain E2 s2 w2 where "run_calls cb cs (E1, s1, w1) = Inr (E2, s2, w2)" "ep_ok reg E2 s2" "ep_ext E1 E2"
    using Cons.IH [OF 1(2)] by blast
  moreover have "run_calls cb (c # cs) (E, s, w) = run_calls cb cs (E1, s1, w1)"
    by (simp only: c run_calls.simps fst_conv 1(1) bindR_Inr)
  ultimately show ?case using ep_ext_trans [OF 1(3)] by auto
qed

lemma entry_of:
  assumes "ep_ok reg E s" and "a \<in> dom (cells (ep_entries E))"
  shows "\<exists>ee. cells (ep_entries E) a = Some ee \<and> ee_event ee = event_at E a
    \<and> (ee_fd ee = kInvalidFd \<longleftrightarrow> a \<in> set (retired E))"
proof -
  obtain ee where "cells (ep_entries E) a = Some ee" using assms(2) by blast
  then show ?thesis using assms(1) by (simp add: event_at_def ep_ok_def epoll_wf_def)
qed

lemma ep_ext_event_at: "ep_ext E E' \<Longrightarrow> a \<in> dom (cells (ep_entries E)) \<Longrightarrow> event_at E' a = event_at E a"
  unfolding ep_ext_def event_at_def by fastforce

text \<open>The loops make these calls.\<close>

lemma writeable_loop_calls:
  assumes pol: "polite K reg cb" and K: "kernel_reports K reg"
  shows "ep_ok reg E s \<Longrightarrow> \<exists>E' s' w'. run_calls cb (map (Pair Ev_Out) (drop i (writeable E))) (E, s, w) = Inr (E', s', w')
    \<and> writeable_loop cb i (E, s, w) = Some (Inr (E'\<lparr>writeable := []\<rparr>, s', w')) \<and> ep_ok reg E' s'"
proof (induction "length (writeable E) - i" arbitrary: E s w i)
  case 0
  then show ?case by (subst writeable_loop.simps) simp
next
  case (Suc n)
  then have i: "i < length (writeable E)" by simp
  let ?a = "writeable E ! i"
  have a: "?a \<in> live E" using i Suc.prems by (auto simp: ep_ok_def epoll_wf_def)
  then have na: "?a \<notin> set (retired E)" and "?a \<in> dom (cells (ep_entries E))" by (auto simp: live_def)
  then obtain ee where ee: "cells (ep_entries E) ?a = Some ee" "ee_event ee = event_at E ?a"
    using entry_of [OF Suc.prems] by blast
  obtain E1 s1 w1 where r: "cb Ev_Out (event_at E ?a) (E, s, w) = Inr (E1, s1, w1)" "ep_ok reg E1 s1"
    "writeable E1 = writeable E"
    by (rule politeE [OF pol K Suc.prems]) blast
  have l: "writeable_loop cb i (E, s, w) = writeable_loop cb (Suc i) (E1, s1, w1)"
    using i ee r(1) by (subst writeable_loop.simps) simp
  have c: "run_calls cb (map (Pair Ev_Out) (drop i (writeable E))) (E, s, w)
    = run_calls cb (map (Pair Ev_Out) (drop (Suc i) (writeable E1))) (E1, s1, w1)"
    using r(1,3) na Cons_nth_drop_Suc [OF i, symmetric] by simp
  have "n = length (writeable E1) - Suc i" using Suc.hyps(2) r(3) by simp
  from Suc.hyps(1) [OF this r(2)] show ?case unfolding l c .
qed

text \<open>Element \<open>i\<close> of allocation \<open>g\<close> holds the event \<open>ev\<close> for the entry \<open>a\<close>.\<close>

definition event_in :: "epoll \<Rightarrow> nat \<Rightarrow> nat \<Rightarrow> u32 \<Rightarrow> addr \<Rightarrow> bool" where
  "event_in E g i ev a \<longleftrightarrow> ep_storage E = g \<and> i < length (ep_events E) \<and> ep_events E ! i = (ev, At a)
     \<and> a \<in> dom (cells (ep_entries E))"

lemma event_in_ext: "event_in E g i ev a \<Longrightarrow> ep_ext E E' \<Longrightarrow> event_in E' g i ev a"
  using ep_ext_events [of E E'] ep_ext_dom [of E E'] unfolding event_in_def by auto

lemma guarded_call_calls:
  assumes ok: "ep_ok reg E s" and i: "event_in E g i ev a" and e: "event = event_at E a"
  shows "guarded_call cb g i bits io a event (E, s, w)
    = bindR (run_calls cb (if ev AND bits \<noteq> 0 then [(io, a)] else []) (E, s, w)) (\<lambda>st. Inr (a \<notin> set (retired E), st))"
proof -
  obtain ee where "cells (ep_entries E) a = Some ee" "ee_fd ee = kInvalidFd \<longleftrightarrow> a \<in> set (retired E)"
    using entry_of [OF ok] i by (auto simp: event_in_def)
  then show ?thesis using i e
    by (cases "a \<in> set (retired E)") (auto simp: guarded_call_def read_event_def event_in_def)
qed

lemma run_calls_retired: "a \<in> set (retired (fst st)) \<Longrightarrow> run_calls cb (map (\<lambda>io. (io, a)) ios) st = Inr st"
  by (induction ios) simp_all

lemma dispatch_event_calls:
  assumes pol: "polite K reg cb" and K: "kernel_reports K reg" and ok: "ep_ok reg E s"
    and i: "event_in E (ep_storage E) i ev a"
  shows "dispatch_event cb i (E, s, w) = run_calls cb (map (\<lambda>io. (io, a)) (event_calls ev)) (E, s, w)"
proof -
  let ?g = "ep_storage E" let ?b = "event_at E a"
  let ?c = "\<lambda>bits io. if ev AND bits \<noteq> 0 then [(io, a)] else []"
  have a: "a \<in> dom (cells (ep_entries E))" using i by (simp add: event_in_def)
  obtain ee where ee: "cells (ep_entries E) a = Some ee" "ee_event ee = ?b" using entry_of [OF ok a] by blast
  obtain E1 s1 w1 where 1: "run_calls cb (?c (EPOLLERR OR EPOLLHUP) Ev_In) (E, s, w) = Inr (E1, s1, w1)"
    "ep_ok reg E1 s1" "ep_ext E E1" using run_calls_ok [OF pol K ok] by blast
  obtain E2 s2 w2 where 2: "run_calls cb (?c EPOLLIN Ev_In) (E1, s1, w1) = Inr (E2, s2, w2)"
    "ep_ok reg E2 s2" "ep_ext E1 E2" using run_calls_ok [OF pol K 1(2)] by blast
  obtain E3 s3 w3 where 3: "run_calls cb (?c EPOLLOUT Ev_Out) (E2, s2, w2) = Inr (E3, s3, w3)"
    using run_calls_ok [OF pol K 2(2)] by blast
  note x2 = ep_ext_trans [OF 1(3) 2(3)]
  have b: "?b = event_at E1 a" "?b = event_at E2 a" using ep_ext_event_at [OF 1(3) a] ep_ext_event_at [OF x2 a] by simp_all
  note g = guarded_call_calls [OF ok i refl, of cb "EPOLLERR OR EPOLLHUP" Ev_In w, unfolded 1(1)]
    guarded_call_calls [OF 1(2) event_in_ext [OF i 1(3)] b(1), of cb EPOLLIN Ev_In w1, unfolded 2(1)]
    guarded_call_calls [OF 2(2) event_in_ext [OF i x2] b(2), of cb EPOLLOUT Ev_Out w2, unfolded 3]
  have r: "set (retired E) \<subseteq> set (retired E1)" "set (retired E1) \<subseteq> set (retired E2)"
    using 1(3) 2(3) by (simp_all add: ep_ext_def)
  have "dispatch_event cb i (E, s, w) = Inr (if a \<in> set (retired E) then (E1, s1, w1)
      else if a \<in> set (retired E1) then (E2, s2, w2) else (E3, s3, w3))"
    using i ee g by (simp add: dispatch_event_def read_event_def event_in_def Let_def)
  moreover have "(E2, s2, w2) = (E1, s1, w1)" if "a \<in> set (retired E1)"
    using 2(1) that run_calls_retired [of a "(E1, s1, w1)" cb "[Ev_In]"] by (auto split: if_splits)
  moreover have "(E3, s3, w3) = (E2, s2, w2)" if "a \<in> set (retired E2)"
    using 3 that run_calls_retired [of a "(E2, s2, w2)" cb "[Ev_Out]"] by (auto split: if_splits)
  ultimately have "dispatch_event cb i (E, s, w) = Inr (E3, s3, w3)" using r by (auto split: if_splits)
  moreover have "map (\<lambda>io. (io, a)) (event_calls ev) = ?c (EPOLLERR OR EPOLLHUP) Ev_In @ ?c EPOLLIN Ev_In @ ?c EPOLLOUT Ev_Out"
    by (simp add: event_calls_def)
  ultimately show ?thesis using 1(1) 2(1) 3 by (simp only: run_calls_append bindR_Inr)
qed

text \<open>The calls for a list of reported events.\<close>

definition reported_calls :: "(u32 \<times> addr) list \<Rightarrow> (io \<times> addr) list" where
  "reported_calls evs = concat (map (\<lambda>(ev, a). map (\<lambda>io. (io, a)) (event_calls ev)) evs)"

lemma dispatch_all_calls:
  assumes pol: "polite K reg cb" and K: "kernel_reports K reg"
  shows "ep_ok reg E s \<Longrightarrow> \<forall>j < length evs. event_in E (ep_storage E) (i + j) (fst (evs ! j)) (snd (evs ! j))
    \<Longrightarrow> dispatch_all cb [i..<i + length evs] (E, s, w) = run_calls cb (reported_calls evs) (E, s, w)"
proof (induction evs arbitrary: E s w i)
  case Nil
  then show ?case by (simp add: reported_calls_def)
next
  case (Cons e evs)
  obtain ev a where e: "e = (ev, a)" by fastforce
  have i: "event_in E (ep_storage E) i ev a" using Cons.prems(2) e by force
  obtain E1 s1 w1 where 1: "run_calls cb (map (\<lambda>io. (io, a)) (event_calls ev)) (E, s, w) = Inr (E1, s1, w1)"
    "ep_ok reg E1 s1" "ep_ext E E1" using run_calls_ok [OF pol K Cons.prems(1)] by blast
  have "event_in E1 (ep_storage E1) (Suc i + j) (fst (evs ! j)) (snd (evs ! j))" if "j < length evs" for j
    using Cons.prems(2) [rule_format, of "Suc j"] that event_in_ext [OF _ 1(3)] ep_ext_events [OF 1(3)] by simp
  then have "dispatch_all cb [Suc i..<Suc i + length evs] (E1, s1, w1) = run_calls cb (reported_calls evs) (E1, s1, w1)"
    using Cons.IH [OF 1(2), of "Suc i"] by blast
  then show ?case
    using dispatch_event_calls [OF pol K Cons.prems(1) i, of w] 1(1) e
    by (simp add: upt_conv_Cons reported_calls_def run_calls_append del: upt_Suc)
qed

text \<open>A turn as a whole.\<close>

definition with_events :: "(u32 \<times> addr) list \<Rightarrow> epoll \<Rightarrow> epoll" where
  "with_events evs E = E\<lparr>writeable := [], ep_events := map (\<lambda>(ev, a). (ev, At a)) evs @ drop (length evs) (ep_events E)\<rparr>"

lemma with_events_ok:
  assumes ok: "ep_ok reg E s" and s: "reg (snd s') = reg (snd s)" and l: "int (length evs) \<le> ep_size E"
  shows "store_events evs (E\<lparr>writeable := []\<rparr>) = Inr (with_events evs E) \<and> ep_ok reg (with_events evs E) s'
    \<and> (snd ` set evs \<subseteq> live E \<longrightarrow> (\<forall>j < length evs.
        event_in (with_events evs E) (ep_storage (with_events evs E)) j (fst (evs ! j)) (snd (evs ! j))))"
proof -
  have n: "length evs \<le> length (ep_events E)" using ok l by (simp add: ep_ok_def epoll_wf_def)
  have "live (with_events evs E) = live E" by (simp add: with_events_def live_def)
  then have o: "ep_ok reg (with_events evs E) s'" using ok s n by (simp add: ep_ok_def epoll_wf_def with_events_def)
  have "event_in (with_events evs E) (ep_storage (with_events evs E)) j (fst (evs ! j)) (snd (evs ! j))"
    if "snd ` set evs \<subseteq> live E" "j < length evs" for j
  proof -
    have "snd (evs ! j) \<in> live E" using that by auto
    then show ?thesis using that(2) n
      by (simp add: event_in_def with_events_def live_def nth_append case_prod_beta)
  qed
  then show ?thesis using o n by (simp add: store_events_def with_events_def)
qed

lemma epoll_poll_calls:
  assumes ok: "ep_ok reg E s" and pol: "polite K reg cb" and K: "kernel_reports K reg"
  shows "\<exists>E1 s1 w1. run_calls cb (map (Pair Ev_Out) (writeable E)) (E, s, w) = Inr (E1, s1, w1) \<and> ep_ok reg E1 s1
    \<and> (\<forall>r k2. ke_wait K (epoll_fd E1) (ep_size E1) timeout (snd s1) = (r, k2) \<longrightarrow>
        (case r of
           Inl e \<Rightarrow> epoll_poll cb K timeout (E, s, w) = Inr (-1, E1\<lparr>writeable := []\<rparr>, (e, k2), w1) \<and> ep_ok reg E1 (e, k2)
         | Inr [] \<Rightarrow> epoll_poll cb K timeout (E, s, w) = Inr (0, E1\<lparr>writeable := []\<rparr>, (fst s1, k2), w1) \<and> ep_ok reg E1 (fst s1, k2)
         | Inr evs \<Rightarrow> \<exists>E2 s2 w2 E3. run_calls cb (reported_calls evs) (with_events evs E1, (fst s1, k2), w1) = Inr (E2, s2, w2)
             \<and> processRetired E2 = Inr E3 \<and> ep_ok reg E3 s2 \<and> retired E3 = []
             \<and> epoll_poll cb K timeout (E, s, w) = Inr (int (length evs), E3, s2, w2)))"
proof -
  obtain E1 s1 w1 where 1: "run_calls cb (map (Pair Ev_Out) (writeable E)) (E, s, w) = Inr (E1, s1, w1)"
    "writeable_loop cb 0 (E, s, w) = Some (Inr (E1\<lparr>writeable := []\<rparr>, s1, w1))" "ep_ok reg E1 s1"
    using writeable_loop_calls [OF pol K ok, of 0 w] by auto
  obtain r k2 where r: "ke_wait K (epoll_fd E1) (ep_size E1) timeout (snd s1) = (r, k2)" by fastforce
  have "case r of
           Inl e \<Rightarrow> epoll_poll cb K timeout (E, s, w) = Inr (-1, E1\<lparr>writeable := []\<rparr>, (e, k2), w1) \<and> ep_ok reg E1 (e, k2)
         | Inr [] \<Rightarrow> epoll_poll cb K timeout (E, s, w) = Inr (0, E1\<lparr>writeable := []\<rparr>, (fst s1, k2), w1) \<and> ep_ok reg E1 (fst s1, k2)
         | Inr evs \<Rightarrow> \<exists>E2 s2 w2 E3. run_calls cb (reported_calls evs) (with_events evs E1, (fst s1, k2), w1) = Inr (E2, s2, w2)
             \<and> processRetired E2 = Inr E3 \<and> ep_ok reg E3 s2 \<and> retired E3 = []
             \<and> epoll_poll cb K timeout (E, s, w) = Inr (int (length evs), E3, s2, w2)"
  proof (cases r)
    case (Inl e)
    then have "ep_ok reg E1 (e, k2)" using 1(3) kernel_reportsD(5) [OF K] r by (simp add: ep_ok_def)
    then show ?thesis using 1(2) r Inl by (simp add: epoll_poll_def syscall_def)
  next
    case (Inr evs)
    note kr = kernel_reportsD(4) [OF K r [unfolded Inr]]
    show ?thesis
    proof (cases "evs = []")
      case True
      then show ?thesis using 1(2,3) r Inr kr by (simp add: epoll_poll_def syscall_def ep_ok_def)
    next
      case False
      have l: "snd ` set evs \<subseteq> live E1" using 1(3) kr by (auto simp: ep_ok_def ran_def)
      have k: "reg (snd (fst s1, k2)) = reg (snd s1)" "int (length evs) \<le> ep_size E1" using kr False by simp_all
      note we = with_events_ok [OF 1(3) k]
      have o: "ep_ok reg (with_events evs E1) (fst s1, k2)" using we by blast
      have "dispatch_all cb [0..<length evs] (with_events evs E1, (fst s1, k2), w1)
        = run_calls cb (reported_calls evs) (with_events evs E1, (fst s1, k2), w1)"
        using dispatch_all_calls [OF pol K o, of evs 0 w1] we l by simp
      moreover obtain E2 s2 w2 where 2: "run_calls cb (reported_calls evs) (with_events evs E1, (fst s1, k2), w1) = Inr (E2, s2, w2)"
        "ep_ok reg E2 s2" using run_calls_ok [OF pol K o] by blast
      moreover obtain E3 where 3: "processRetired E2 = Inr E3" "epoll_wf E3" "retired E3 = []" "live E3 = live E2"
        "\<forall>a \<in> live E2. cells (ep_entries E3) a = cells (ep_entries E2) a"
        using processRetired_wf 2(2) unfolding ep_ok_def by blast
      moreover have "ep_ok reg E3 s2" using 2(2) 3 by (simp add: ep_ok_def)
      ultimately have "processRetired E2 = Inr E3 \<and> ep_ok reg E3 s2 \<and> retired E3 = []
          \<and> epoll_poll cb K timeout (E, s, w) = Inr (int (length evs), E3, s2, w2)"
        using 1(2) r Inr False we by (simp add: epoll_poll_def syscall_def)
      then show ?thesis using 2(1) False unfolding Inr sum.case by (cases evs) (simp, simp only: list.case, blast)
    qed
  qed
  then show ?thesis using 1(1,3) r by (intro exI [of _ E1] exI [of _ s1] exI [of _ w1]) simp
qed

section \<open>Properties\<close>

text \<open>
  C13. A turn of \<open>Poll\<close> never touches a freed entry nor frees one twice, and never uses an element of
  \<open>ep_events_\<close> that has moved, whatever the callbacks add, mark and delete on the way, as long as they return, add no
  descriptor above \<open>size_\<close>, delete a handle once and not while it waits to be written to, and \<open>Out\<close> marks none; it ends,
  keeps the poller well-formed and registered entries alive, and a turn with events leaves no retired entry.
\<close>
theorem epoll_poll_safe:
  assumes "ep_ok reg E s" and "polite K reg cb" and "kernel_reports K reg"
  shows "\<exists>n E' s' w'. epoll_poll cb K timeout (E, s, w) = Inr (n, E', s', w') \<and> ep_ok reg E' s'
    \<and> (0 < n \<longrightarrow> retired E' = [])"
proof -
  obtain E1 s1 w1 where 1: "\<forall>r k2. ke_wait K (epoll_fd E1) (ep_size E1) timeout (snd s1) = (r, k2) \<longrightarrow>
      (case r of
         Inl e \<Rightarrow> epoll_poll cb K timeout (E, s, w) = Inr (-1, E1\<lparr>writeable := []\<rparr>, (e, k2), w1) \<and> ep_ok reg E1 (e, k2)
       | Inr [] \<Rightarrow> epoll_poll cb K timeout (E, s, w) = Inr (0, E1\<lparr>writeable := []\<rparr>, (fst s1, k2), w1) \<and> ep_ok reg E1 (fst s1, k2)
       | Inr evs \<Rightarrow> \<exists>E2 s2 w2 E3. run_calls cb (reported_calls evs) (with_events evs E1, (fst s1, k2), w1) = Inr (E2, s2, w2)
           \<and> processRetired E2 = Inr E3 \<and> ep_ok reg E3 s2 \<and> retired E3 = []
           \<and> epoll_poll cb K timeout (E, s, w) = Inr (int (length evs), E3, s2, w2))"
    using epoll_poll_calls [OF assms, where w = w and timeout = timeout] by blast
  obtain r k2 where "ke_wait K (epoll_fd E1) (ep_size E1) timeout (snd s1) = (r, k2)" by fastforce
  note 2 = 1 [rule_format, OF this]
  have e: "ep_ok reg (E1\<lparr>writeable := []\<rparr>) s'" if "ep_ok reg E1 s'" for s'
    using that by (simp add: ep_ok_def epoll_wf_def live_def)
  show ?thesis using 2 e by (auto split: sum.splits list.splits)
qed

text \<open>A kernel whose state is its registrations, in which descriptor 5 always has something to read.\<close>

definition map_kernel :: "(int \<Rightarrow> addr option) epoll_kernel" where
  "map_kernel = \<lparr>ke_create = (\<lambda>k. (Inr 4, k)), ke_add = (\<lambda>_ fd _ a k. (Inr (), k(fd \<mapsto> a))),
     ke_del = (\<lambda>_ fd k. (Inr (), k(fd := None))),
     ke_wait = (\<lambda>_ n _ k. (Inr (case k 5 of None \<Rightarrow> [] | Some a \<Rightarrow> if n < 1 then [] else [(EPOLLIN, a)]), k)),
     ke_close = (\<lambda>_ k. (Inr (), k))\<rparr>"

lemma map_kernel_reports: "kernel_reports map_kernel (\<lambda>k. k)"
  by (auto simp: kernel_reports_def map_kernel_def split: option.splits if_splits intro: ranI)

text \<open>A poller with one entry, for descriptor 5, that is marked.\<close>

definition ex_epoll :: epoll where
  "ex_epoll = \<lparr>ep_size = 1024, epoll_fd = 4, ep_events = replicate 1024 (0, Indeterminate), ep_used = 0, ep_storage = 0,
     ep_entries = \<lparr>cells = [0 \<mapsto> \<lparr>ee_fd = 5, ee_events = EPOLLIN, ee_event = 9\<rparr>], avail = [], brk = 1\<rparr>,
     retired = [], writeable = [0]\<rparr>"

lemma ex_epoll_wf: "epoll_wf ex_epoll"
  by (auto simp: epoll_wf_def ex_epoll_def live_def heap_wf_def kInvalidFd_def split: if_splits)

lemma ex_epoll_ok: "ep_ok (\<lambda>k. k) ex_epoll (0, [5 \<mapsto> 0])"
  using ex_epoll_wf by (auto simp: ep_ok_def) (auto simp: ex_epoll_def live_def split: if_splits)

text \<open>An acceptor: when there is something to read it adds a new descriptor (here, while the poller has room for it).\<close>

definition ex_acceptor :: "(int \<Rightarrow> addr option, nat) event_cb" where
  "ex_acceptor io ev = (\<lambda>(E, s, w). case io of
     Ev_In \<Rightarrow> if ep_size E < 7 then Inr (E, s, w)
       else bindR (epoll_add map_kernel 7 ev (E, s)) (\<lambda>(_, E, s). Inr (E, s, Suc w))
   | Ev_Out \<Rightarrow> Inr (E, s, w))"

lemma ex_acceptor_polite: "polite map_kernel (\<lambda>k. k) ex_acceptor"
  unfolding polite_def
proof (intro allI impI)
  fix io ev E and s :: "(int \<Rightarrow> addr option) env" and w
  assume "ep_ok (\<lambda>k. k) E s"
  then have wf: "epoll_wf E" by (simp add: ep_ok_def)
  have 7: "(7 :: int) \<noteq> kInvalidFd" by (simp add: kInvalidFd_def)
  obtain h E' s' where a: "epoll_add map_kernel 7 ev (E, s) = Inr (h, E', s')"
    using epoll_add_wf [OF wf 7] by blast
  show "\<exists>E' s' w'. ex_acceptor io ev (E, s, w) = Inr (E', s', w')
    \<and> (ep_use map_kernel (\<lambda>k. k))\<^sup>*\<^sup>* (E, s) (E', s') \<and> (io = Ev_Out \<longrightarrow> writeable E' = writeable E)"
    using a use_add [OF 7 _ a, of "\<lambda>k. k"] by (cases io; cases "ep_size E < 7") (auto simp: ex_acceptor_def)
qed

theorem epoll_poll_safe_witness:
  "\<exists>n E' s' w'. epoll_poll ex_acceptor map_kernel 100 (ex_epoll, (0, [5 \<mapsto> 0]), 0) = Inr (n, E', s', w')
    \<and> ep_ok (\<lambda>k. k) E' s' \<and> (0 < n \<longrightarrow> retired E' = [])"
  by (rule epoll_poll_safe [OF ex_epoll_ok ex_acceptor_polite map_kernel_reports])



text \<open>
  C38. When a callback adds a descriptor above \<open>size_\<close> for which the vector has no capacity, \<open>resize\<close> moves the vector while
  \<open>Poll\<close> walks it: the next test of \<open>epev->events\<close> reads freed memory.
\<close>
theorem add_under_poll_dangles:
  assumes "epoll_wf E" and "writeable E = []" and "a \<in> live E"
    and "ke_wait K (epoll_fd E) (ep_size E) timeout k = (Inr ((ev, a) # evs), k')" and "length evs < length (ep_events E)"
    and "ev AND (EPOLLERR OR EPOLLHUP) = 0" and "ev AND EPOLLIN \<noteq> 0"
    and "cb Ev_In (event_at E a) (with_events ((ev, a) # evs) E, (e, k'), w) = Inr (E2, s2, w2)"
    and "epoll_add K fd ev2 (with_events ((ev, a) # evs) E, (e, k')) = Inr (At h, E2, s2)"
    and "0 \<le> fd" and "ep_size E < fd" and "int (length (ep_events E)) < fd + kIncrPollSize"
  shows "epoll_poll cb K timeout (E, (e, k), w) = Inl Wild_Access"
proof -
  let ?E = "with_events ((ev, a) # evs) E"
  have E: "E\<lparr>writeable := []\<rparr> = E" using assms(2) by simp
  have sel: "ep_entries ?E = ep_entries E" "retired ?E = retired E" "ep_size ?E = ep_size E" "ep_storage ?E = ep_storage E"
    "ep_used ?E = ep_used E" "length (ep_events ?E) = length (ep_events E)" "ep_events ?E ! 0 = (ev, At a)"
    "0 < length (ep_events ?E)" "writeable ?E = []"
    using assms(5) by (simp_all add: with_events_def)
  have wf: "epoll_wf ?E" using assms(1) sel by (simp add: epoll_wf_def live_def)
  have fd: "fd \<noteq> kInvalidFd" using assms(10) by (simp add: kInvalidFd_def)
  have st: "store_events ((ev, a) # evs) E = Inr ?E" using assms(2,5) by (simp add: store_events_def with_events_def)
  obtain ee where ee: "cells (ep_entries E) a = Some ee" "ee_fd ee \<noteq> kInvalidFd"
    using assms(1,3) by (auto simp: live_def epoll_wf_def)
  have "\<forall>x \<in> dom (cells (ep_entries E)). cells (ep_entries E2) x = cells (ep_entries E) x"
    using epoll_add_wf [OF wf fd, of K ev2 "(e, k')"] assms(9) unfolding sel(1) by auto
  then have keep: "cells (ep_entries E2) a = Some ee" using ee(1) by (metis domI)
  have "ep_storage E2 \<noteq> ep_storage ?E"
    using assms(1,9,11,12) sel
    by (auto simp: epoll_add_def ep_resize_def Let_def epoll_wf_def kIncrPollSize_def res_simps
        split: prod.splits option.splits if_splits)
  then have d: "dispatch_event cb 0 (?E, (e, k'), w) = Inl Wild_Access"
    using ee keep sel assms(6,7,8) by (simp add: dispatch_event_def guarded_call_def read_event_def event_at_def)
  have u: "[0..<Suc (length evs)] = 0 # [1..<Suc (length evs)]" by (simp add: upt_conv_Cons del: upt_Suc)
  have "writeable_loop cb 0 (E, (e, k), w) = Some (Inr (E, (e, k), w))"
    using assms(2) E by (subst writeable_loop.simps) simp
  then show ?thesis using assms(4) st d u by (simp add: epoll_poll_def syscall_def del: upt_Suc)
qed

text \<open>An acceptor that does not look at the size.\<close>

definition ex_grower :: "(int \<Rightarrow> addr option, nat) event_cb" where
  "ex_grower io ev = (\<lambda>(E, s, w). case io of
     Ev_In \<Rightarrow> bindR (epoll_add map_kernel 1025 ev (E, s)) (\<lambda>(_, E, s). Inr (E, s, w)) | Ev_Out \<Rightarrow> Inr (E, s, w))"

theorem add_under_poll_dangles_witness:
  "epoll_poll ex_grower map_kernel 100 (ex_epoll\<lparr>writeable := []\<rparr>, (0, [5 \<mapsto> 0]), 0) = Inl Wild_Access"
proof -
  let ?E = "ex_epoll\<lparr>writeable := []\<rparr>"
  have wf: "epoll_wf ?E" using ex_epoll_wf by (simp add: epoll_wf_def live_def)
  then have w2: "epoll_wf (with_events [(EPOLLIN, 0)] ?E)"
    by (simp add: epoll_wf_def live_def with_events_def ex_epoll_def)
  have fd: "(1025 :: int) \<noteq> kInvalidFd" by (simp add: kInvalidFd_def)
  obtain h E2 s2 where a: "epoll_add map_kernel 1025 9 (with_events [(EPOLLIN, 0)] ?E, (0, [5 \<mapsto> 0])) = Inr (At h, E2, s2)"
    by (simp add: epoll_add_def heap_alloc_def with_events_def ex_epoll_def map_kernel_def syscall_def)
  have e: "event_at ?E 0 = 9" by (simp add: event_at_def ex_epoll_def)
  have c: "ex_grower Ev_In 9 (with_events [(EPOLLIN, 0)] ?E, (0, [5 \<mapsto> 0]), 0) = Inr (E2, s2, 0)"
    using a by (simp add: ex_grower_def)
  show ?thesis
    by (rule add_under_poll_dangles [where cb = ex_grower and w = 0 and E = ?E and a = 0 and ev = EPOLLIN and evs = "[]" and K = map_kernel
          and fd = 1025 and e = 0 and k = "[5 \<mapsto> 0]" and k' = "[5 \<mapsto> 0]", OF wf _ _ _ _ _ _ c [folded e] a [folded e]])
      (simp_all add: live_def ex_epoll_def map_kernel_def kIncrPollSize_def EPOLLIN_def EPOLLERR_def EPOLLHUP_def)
qed

text \<open>
  C33. A handle that is marked as writeable and then deleted before the next turn stays in the list
  of writeable handles; once a turn with events has freed the retired entries, the next turn
  calls \<open>Out\<close> through the freed entry.
\<close>
theorem mark_then_del_use_after_free:
  assumes "epoll_wf E" and "a \<in> live E" and "writeable E = []"
  shows "\<exists>E1 rc E2 s2 E3. epoll_mark (At a) E = Inr E1 \<and> epoll_del K (At a) (E1, s) = Inr (rc, E2, s2)
    \<and> processRetired E2 = Inr E3 \<and> epoll_poll cb K timeout (E3, s2, w) = Inl Wild_Access"
proof -
  obtain rc E2 s2 where d: "epoll_del K (At a) (E, s) = Inr (rc, E2, s2)" "epoll_wf E2" "writeable E2 = []"
    "retired E2 = retired E @ [a]"
    using epoll_del_wf [OF assms(1,2), of K s] assms(3) by auto
  have m: "epoll_mark (At a) E = Inr (E\<lparr>writeable := [a]\<rparr>)" using assms(3) by (simp add: epoll_mark_def)
  have d': "epoll_del K (At a) (E\<lparr>writeable := [a]\<rparr>, s) = Inr (rc, E2\<lparr>writeable := [a]\<rparr>, s2)"
    using epoll_del_writeable [of K "At a" "[a]" E s] d(1) by simp
  obtain h where h: "delete_entries (retired E2) (ep_entries E2) = Inr h"
    "dom (cells h) = dom (cells (ep_entries E2)) - set (retired E2)"
    using delete_entries_ok [of "ep_entries E2" "retired E2"] d(2) by (auto simp: epoll_wf_def)
  have "a \<notin> dom (cells h)" using h(2) d(4) by simp
  then have "heap_get a h = Inl Wild_Access" by (auto simp: heap_get_def split: option.splits)
  then have "epoll_poll cb K timeout (E2\<lparr>ep_entries := h, retired := [], writeable := [a]\<rparr>, s2, w) = Inl Wild_Access"
    by (simp add: epoll_poll_def writeable_loop.simps)
  moreover have "processRetired (E2\<lparr>writeable := [a]\<rparr>) = Inr (E2\<lparr>ep_entries := h, retired := [], writeable := [a]\<rparr>)"
    using h(1) by (simp add: processRetired_def)
  ultimately show ?thesis using m d' by blast
qed

theorem mark_then_del_use_after_free_witness:
  "\<exists>E1 rc E2 s2 E3. epoll_mark (At 0) (ex_epoll\<lparr>writeable := []\<rparr>) = Inr E1
    \<and> epoll_del map_kernel (At 0) (E1, (0, [5 \<mapsto> 0])) = Inr (rc, E2, s2)
    \<and> processRetired E2 = Inr E3 \<and> epoll_poll ex_acceptor map_kernel 100 (E3, s2, 0) = Inl Wild_Access"
proof (rule mark_then_del_use_after_free)
  show "epoll_wf (ex_epoll\<lparr>writeable := []\<rparr>)" using ex_epoll_wf by (simp add: epoll_wf_def live_def)
qed (simp_all add: live_def ex_epoll_def)

end
