(* ===== verification/Sockets.thy ===== *)
theory Sockets
  imports Epoll
begin

text \<open>
  \<open>src/core/socket.h\<close> and \<open>socket.cc\<close>: a connection with its read and write buffers, driven by the
  poller. A \<open>world\<close> is one socket with the state it shares with the rest of its thread: the pool
  of blocks, the poller, the kernel and whatever the handler keeps (\<open>others\<close>). The methods of the
  \<open>DataHandler\<close> are functions on worlds, since they may call back into the socket.
\<close>

section \<open>State\<close>

datatype socket_status = SOCKET_INIT | SOCKET_CONNECTING | SOCKET_CONNECTED | SOCKET_CLOSED

datatype socket_type = CLIENT_SOCKET | SERVER_SOCKET

text \<open>\<open>has_handler\<close> and \<open>has_poller\<close>: the pointers are not \<open>NULL\<close>.\<close>

record socket =
  sock_fd :: int
  has_handler :: bool
  has_poller :: bool
  is_writable :: bool
  read_list :: buffer_list
  write_list :: buffer_list
  status :: socket_status
  sock_endpoint :: endpoint
  sock_type :: socket_type
  handle :: ptr

record ('k, 'w) world =
  sock :: socket
  blocks :: bpool
  poll :: epoll
  kenv :: "'k env"
  others :: 'w

text \<open>\<open>src/core/data_handler.h\<close>.\<close>

record ('k, 'w) data_handler =
  on_write :: "('k, 'w) world \<Rightarrow> ('k, 'w) world res"
  on_read :: "('k, 'w) world \<Rightarrow> ('k, 'w) world res"
  on_connect :: "int \<Rightarrow> ('k, 'w) world \<Rightarrow> ('k, 'w) world res"
  on_error :: "int \<Rightarrow> ('k, 'w) world \<Rightarrow> ('k, 'w) world res"

text \<open>What a socket is connected to: the kernel, its handler, its own address.\<close>

record ('k, 'w) ctx =
  net :: "'k kernel"
  epk :: "'k epoll_kernel"
  handler :: "('k, 'w) data_handler"
  self :: addr

abbreviation with_sock :: "(socket \<Rightarrow> socket) \<Rightarrow> ('k, 'w) world \<Rightarrow> ('k, 'w) world" where
  "with_sock f m \<equiv> m\<lparr>sock := f (sock m)\<rparr>"

section \<open>Construction and destruction\<close>

definition socket_server :: "'k kernel \<Rightarrow> int \<Rightarrow> bool \<Rightarrow> bpool \<Rightarrow> 'k env \<Rightarrow> (socket \<times> bpool \<times> 'k env) res" where
  "socket_server K fd h P s =
     (let (r, P) = bl_new P; (w, P) = bl_new P in
      bindR (GetEndpointByFd K fd endpoint_default s) (\<lambda>(ep, s).
      Inr (\<lparr>sock_fd = fd, has_handler = h, has_poller = False, is_writable = False, read_list = r, write_list = w,
        status = SOCKET_CONNECTED, sock_endpoint = ep, sock_type = SERVER_SOCKET, handle = Null\<rparr>, P, s)))"

definition socket_client :: "'k kernel \<Rightarrow> endpoint \<Rightarrow> bool \<Rightarrow> bool \<Rightarrow> bpool \<Rightarrow> 'k env \<Rightarrow> socket \<times> bpool \<times> 'k env" where
  "socket_client K ep p h P s =
     (let (fd, s) = TcpSocket K s; (r, P) = bl_new P; (w, P) = bl_new P in
      (\<lparr>sock_fd = fd, has_handler = h, has_poller = p, is_writable = False, read_list = r, write_list = w,
        status = SOCKET_INIT, sock_endpoint = endpoint_assign endpoint_default ep, sock_type = CLIENT_SOCKET,
        handle = Null\<rparr>, P, s))"

text \<open>\<open>poller_->Del (handle_)\<close>.\<close>

definition socket_del :: "('k, 'w) ctx \<Rightarrow> ('k, 'w) world \<Rightarrow> ('k, 'w) world res" where
  "socket_del C m =
     bindR (guardR (has_poller (sock m)) Null_Deref) (\<lambda>_.
     bindR (epoll_del (epk C) (handle (sock m)) (poll m, kenv m)) (\<lambda>(_, E, s).
     Inr (m\<lparr>poll := E, kenv := s\<rparr>)))"

definition socket_close :: "('k, 'w) ctx \<Rightarrow> ('k, 'w) world \<Rightarrow> ('k, 'w) world res" where
  "socket_close C m =
     bindR (socket_del C m) (\<lambda>m. Inr (m\<lparr>kenv := net_close (net C) (sock_fd (sock m)) (kenv m)\<rparr>))"

text \<open>The destructor, and then those of the two buffers.\<close>

definition socket_destroy :: "('k, 'w) ctx \<Rightarrow> ('k, 'w) world \<Rightarrow> ('k, 'w) world res" where
  "socket_destroy C m =
     bindR (socket_del C m) (\<lambda>m.
     bindR (socket_close C m) (\<lambda>m.
     bindR (bl_destroy (write_list (sock m)) (blocks m)) (\<lambda>P.
     bindR (bl_destroy (read_list (sock m)) P) (\<lambda>P. Inr (m\<lparr>blocks := P\<rparr>)))))"

definition socket_set_poller :: "('k, 'w) ctx \<Rightarrow> ('k, 'w) world \<Rightarrow> ('k, 'w) world res" where
  "socket_set_poller C m =
     bindR (guardR (\<not> has_poller (sock m)) Assert_Failed) (\<lambda>_.
     bindR (epoll_add (epk C) (sock_fd (sock m)) (self C) (poll m, kenv m)) (\<lambda>(h, E, s).
     Inr ((with_sock (\<lambda>k. k\<lparr>has_poller := True, handle := h\<rparr>) m)\<lparr>poll := E, kenv := s\<rparr>)))"

section \<open>Connecting\<close>

definition socket_connect :: "('k, 'w) ctx \<Rightarrow> ('k, 'w) world \<Rightarrow> ('k, 'w) world res" where
  "socket_connect C m =
     bindR (guardR (sock_type (sock m) = CLIENT_SOCKET) Assert_Failed) (\<lambda>_.
     if status (sock m) \<noteq> SOCKET_INIT then Inr m
     else
       let m = with_sock (status_update (\<lambda>_. SOCKET_CONNECTING)) m in
       bindR (loopR (map_option Inr (ConnectAsync (net C) (sock_endpoint (sock m)) (sock_fd (sock m)) (kenv m)))) (\<lambda>(err, s).
       let m = m\<lparr>kenv := s\<rparr> in
       if err = kOK then
         bindR (guardR (has_poller (sock m)) Null_Deref) (\<lambda>_.
         bindR (epoll_add (epk C) (sock_fd (sock m)) (self C) (poll m, kenv m)) (\<lambda>(_, E, s).
         Inr (m\<lparr>poll := E, kenv := s\<rparr>)))
       else
         bindR (guardR (has_handler (sock m)) Null_Deref) (\<lambda>_.
         bindR (on_connect (handler C) err m) (\<lambda>m.
         Inr (with_sock (status_update (\<lambda>_. SOCKET_CLOSED)) m)))))"

section \<open>Input\<close>

text \<open>The loop of \<open>In\<close>; \<open>True\<close> stands for the \<open>return\<close> out of it.\<close>

partial_function (option) in_loop :: "('k, 'w) ctx \<Rightarrow> ('k, 'w) world \<Rightarrow> (bool \<times> ('k, 'w) world) res option" where
  "in_loop C m =
     (case Recv (net C) (sock_fd (sock m)) (read_list (sock m), blocks m) (kenv m) of
        Inl f \<Rightarrow> Some (Inl f)
      | Inr (_, err, (l, P), s) \<Rightarrow>
          let m = (with_sock (read_list_update (\<lambda>_. l)) m)\<lparr>blocks := P, kenv := s\<rparr> in
          if err \<noteq> kOK \<and> \<not> IsIOTryAgain err then
            Some (bindR (if has_handler (sock m) then on_error (handler C) err m else Inr m) (\<lambda>m.
                  bindR (socket_close C m) (\<lambda>m. Inr (True, m))))
          else if IsIOTryAgain err then Some (Inr (False, m))
          else in_loop C m)"

definition socket_in :: "('k, 'w) ctx \<Rightarrow> ('k, 'w) world \<Rightarrow> ('k, 'w) world res" where
  "socket_in C m =
     (if status (sock m) \<noteq> SOCKET_CONNECTED then Inr m
      else
        bindR (loopR (in_loop C m)) (\<lambda>(returned, m).
        if returned then Inr m
        else if \<not> bl_empty (read_list (sock m)) \<and> has_handler (sock m) then on_read (handler C) m
        else Inr m))"

section \<open>Output\<close>

text \<open>The loop of \<open>Out\<close>; \<open>n\<close> is the local variable, which the code does not initialise.\<close>

partial_function (option) out_loop :: "('k, 'w) ctx \<Rightarrow> int \<Rightarrow> ('k, 'w) world \<Rightarrow> (bool \<times> int \<times> ('k, 'w) world) res option" where
  "out_loop C n m =
     (if bl_empty (write_list (sock m))
      then Some (Inr (False, n, with_sock (is_writable_update (\<lambda>_. False)) m))
      else
        case Send (net C) (sock_fd (sock m)) (write_list (sock m), blocks m) (kenv m) of
          Inl f \<Rightarrow> Some (Inl f)
        | Inr (n, err, (l, P), s) \<Rightarrow>
            let m = (with_sock (write_list_update (\<lambda>_. l)) m)\<lparr>blocks := P, kenv := s\<rparr> in
            if err \<noteq> kOK \<and> \<not> IsIOTryAgain err then
              Some (bindR (if has_handler (sock m) then on_error (handler C) err m else Inr m) (\<lambda>m.
                    bindR (socket_close C m) (\<lambda>m. Inr (True, n, m))))
            else if IsIOTryAgain err then Some (Inr (False, n, m))
            else out_loop C n m)"

definition socket_out :: "('k, 'w) ctx \<Rightarrow> int \<Rightarrow> ('k, 'w) world \<Rightarrow> ('k, 'w) world res" where
  "socket_out C n m =
     bindR (if status (sock m) = SOCKET_CONNECTING then
              bindR (guardR (has_handler (sock m)) Null_Deref) (\<lambda>_.
              on_connect (handler C) kOK (with_sock (status_update (\<lambda>_. SOCKET_CONNECTED)) m))
            else Inr m) (\<lambda>m.
     if status (sock m) \<noteq> SOCKET_CONNECTED then Inr m
     else
       bindR (loopR (out_loop C n m)) (\<lambda>(returned, n, m).
       if returned then Inr m
       else if n > 0 \<and> has_handler (sock m) then on_write (handler C) m
       else Inr m))"

section \<open>The buffers\<close>

definition socket_write :: "('k, 'w) ctx \<Rightarrow> byte list \<Rightarrow> ('k, 'w) world \<Rightarrow> ('k, 'w) world res" where
  "socket_write C d m =
     bindR (bl_write d (write_list (sock m)) (blocks m)) (\<lambda>(_, l, P).
     let m = (with_sock (write_list_update (\<lambda>_. l)) m)\<lparr>blocks := P\<rparr> in
     if \<not> is_writable (sock m) then
       let m = with_sock (is_writable_update (\<lambda>_. True)) m in
       bindR (guardR (has_poller (sock m)) Null_Deref) (\<lambda>_.
       bindR (epoll_mark (handle (sock m)) (poll m)) (\<lambda>E. Inr (m\<lparr>poll := E\<rparr>)))
     else Inr m)"

definition socket_read :: "nat \<Rightarrow> ('k, 'w) world \<Rightarrow> (byte list \<times> ('k, 'w) world) res" where
  "socket_read n m =
     bindR (bl_read n (read_list (sock m)) (blocks m)) (\<lambda>(bs, l, P).
     Inr (bs, (with_sock (read_list_update (\<lambda>_. l)) m)\<lparr>blocks := P\<rparr>))"

definition read_buffer_size :: "('k, 'w) world \<Rightarrow> nat" where
  "read_buffer_size m = bl_readable_size (read_list (sock m))"

definition write_buffer_size :: "('k, 'w) world \<Rightarrow> nat" where
  "write_buffer_size m = bl_readable_size (write_list (sock m))"

section \<open>A socket is a byte source and a byte sink\<close>

definition sock_bufs :: "('k, 'w) world \<Rightarrow> byte list \<Rightarrow> byte list \<Rightarrow> bool" where
  "sock_bufs m rs ws \<longleftrightarrow> two_lists (blocks m) (read_list (sock m)) (write_list (sock m)) rs ws"

text \<open>The socket can be written to: it has a poller and its handle was set.\<close>

definition sock_ready :: "('k, 'w) world \<Rightarrow> bool" where
  "sock_ready m \<longleftrightarrow> has_poller (sock m) \<and> handle (sock m) \<noteq> Indeterminate"

lemma two_lists_second:
  assumes "two_lists P r w rs ws"
    and "\<And>A. bl_owned A (w, P) ws \<Longrightarrow> \<exists>A'. bl_owned A' (w', Q) ws' \<and> moved A P A' Q"
  shows "two_lists Q r w' rs ws'"
  using two_lists_first [of P w r ws rs w' Q ws'] assms two_lists_sym by blast

lemma sock_bufs_sizes:
  assumes "sock_bufs m rs ws"
  shows "read_buffer_size m = length rs" and "write_buffer_size m = length ws"
  using assms by (auto simp: sock_bufs_def two_lists_def read_buffer_size_def write_buffer_size_def dest: bl_owned_size)

lemma socket_read_bufs:
  assumes "sock_bufs m rs ws"
  shows "\<exists>l P. socket_read n m = Inr (take n rs, (with_sock (read_list_update (\<lambda>_. l)) m)\<lparr>blocks := P\<rparr>)
    \<and> sock_bufs ((with_sock (read_list_update (\<lambda>_. l)) m)\<lparr>blocks := P\<rparr>) (drop n rs) ws"
proof -
  obtain A where A: "bl_owned A (read_list (sock m), blocks m) rs"
    using assms by (auto simp: sock_bufs_def two_lists_def)
  obtain l P A' where r: "bl_read n (read_list (sock m)) (blocks m) = Inr (take n rs, l, P)"
    using bl_owned_read [OF A, of n] by blast
  have "two_lists P l (write_list (sock m)) (drop n rs) ws"
    using assms unfolding sock_bufs_def
    by (rule two_lists_first) (use bl_owned_read [of _ "read_list (sock m)" "blocks m" rs n] r in fastforce)
  then show ?thesis using r by (auto simp: socket_read_def sock_bufs_def)
qed

text \<open>What the buffer operations leave alone.\<close>

definition same_conn :: "('k, 'w) world \<Rightarrow> ('k, 'w) world \<Rightarrow> bool" where
  "same_conn m m' \<longleftrightarrow> kenv m' = kenv m \<and> others m' = others m \<and> sock_fd (sock m') = sock_fd (sock m)
     \<and> has_handler (sock m') = has_handler (sock m) \<and> has_poller (sock m') = has_poller (sock m)
     \<and> status (sock m') = status (sock m) \<and> handle (sock m') = handle (sock m)"

lemma socket_write_bufs:
  assumes b: "sock_bufs m rs ws" and r: "sock_ready m" and len: "length ws + length d < 2 ^ 64"
  shows "\<exists>m'. socket_write C d m = Inr m' \<and> sock_bufs m' rs (ws @ d) \<and> same_conn m m' \<and> is_writable (sock m')
    \<and> poll m' = (case handle (sock m) of At a \<Rightarrow> if is_writable (sock m) then poll m
        else (poll m)\<lparr>writeable := writeable (poll m) @ [a]\<rparr> | _ \<Rightarrow> poll m)"
proof -
  obtain A where A: "bl_owned A (write_list (sock m), blocks m) ws"
    using b by (auto simp: sock_bufs_def two_lists_def)
  obtain l P A' where w: "bl_write d (write_list (sock m)) (blocks m) = Inr (length d, l, P)"
    using bl_owned_write [OF A len] by blast
  have t: "two_lists P (read_list (sock m)) l rs (ws @ d)"
    using b unfolding sock_bufs_def
    by (rule two_lists_second) (use bl_owned_write [of _ "write_list (sock m)" "blocks m" ws d] w len in fastforce)
  show ?thesis
    using w t r
    by (cases "handle (sock m)"; cases "is_writable (sock m)")
      (simp_all add: socket_write_def sock_bufs_def sock_ready_def epoll_mark_def Let_def same_conn_def)
qed

interpretation sock_in: byte_source socket_read read_buffer_size "\<lambda>m rs. \<exists>ws. sock_bufs m rs ws"
proof unfold_locales
  fix m :: "('a, 'b) world" and rs n
  assume "\<exists>ws. sock_bufs m rs ws"
  then obtain ws where "sock_bufs m rs ws" ..
  from socket_read_bufs [OF this, of n]
  show "\<exists>m'. socket_read n m = Inr (take n rs, m') \<and> (\<exists>ws. sock_bufs m' (drop n rs) ws)" by blast
next
  fix m :: "('a, 'b) world" and rs
  assume "\<exists>ws. sock_bufs m rs ws"
  then show "read_buffer_size m = length rs" using sock_bufs_sizes by blast
qed

interpretation sock_out: byte_sink "socket_write C" "\<lambda>m ws. sock_ready m \<and> (\<exists>rs. sock_bufs m rs ws)" for C
proof unfold_locales
  fix m :: "('a, 'b) world" and ws d :: "byte list"
  assume m: "sock_ready m \<and> (\<exists>rs. sock_bufs m rs ws)" and "length ws + length d < 2 ^ 64"
  then obtain rs where "sock_bufs m rs ws" by blast
  from socket_write_bufs [OF this conjunct1 [OF m] \<open>length ws + length d < 2 ^ 64\<close>, of C]
  show "\<exists>m'. socket_write C d m = Inr m' \<and> sock_ready m' \<and> (\<exists>rs. sock_bufs m' rs (ws @ d))"
    using m by (auto simp: sock_ready_def same_conn_def)
qed

section \<open>Receiving through the loop of In\<close>

lemma recv_sock:
  assumes st: "stream_read K fd pending rank closed" and b: "two_lists P r w rs ws"
    and len: "length rs + length (pending k) < 2 ^ 64" "length (pending k) < 2 ^ 31"
  shows "\<exists>e' r' P' k'. Recv K fd (r, P) (e, k)
      = Inr (if closed then kError else int (length (pending k)), e', (r', P'), (e', k'))
    \<and> two_lists P' r' w (rs @ pending k) ws \<and> pending k' = []
    \<and> (if closed then e' = e \<or> interrupts K fd else e' = EAGAIN)"
proof -
  have w: "wrap32 (0 + int (length (pending k))) = int (length (pending k))" "wrap32 0 = 0"
    using len(2) by (auto intro!: wrap32_id)
  obtain A where A: "bl_owned A (r, P) rs" using b unfolding two_lists_def by blast
  obtain b' e' k' A' where run: "recv_bytes K fd (wrap32 0) (r, P) (e, k)
      = Some (Inr (if closed then kError else wrap32 (0 + int (length (pending k))), e', b', (e', k')))"
    "pending k' = []" "if closed then e' = e \<or> interrupts K fd else e' = EAGAIN"
    using recv_bytes_stream [OF st A len(1), where r = 0 and e = e] by blast
  obtain r' P' where b': "b' = (r', P')" by fastforce
  have "two_lists P' r' w (rs @ pending k) ws"
  proof (rule two_lists_first [OF b])
    fix B
    assume "bl_owned B (r, P) rs"
    from recv_bytes_stream [OF st this len(1), where r = 0 and e = e] run(1) b'
    show "\<exists>B'. bl_owned B' (r', P') (rs @ pending k) \<and> moved B P B' P'" by auto
  qed
  then show ?thesis using run b' unfolding w by (auto simp: Recv_def)
qed

text \<open>One turn of the loop, as far as the buffers go.\<close>

lemma in_loop_step:
  assumes "stream_read (net C) (sock_fd (sock m)) pending rank closed" and "sock_bufs m rs ws"
    and "length rs + length (pending (snd (kenv m))) < 2 ^ 64" and "length (pending (snd (kenv m))) < 2 ^ 31"
  obtains n e l P k where
    "Recv (net C) (sock_fd (sock m)) (read_list (sock m), blocks m) (kenv m) = Inr (n, e, (l, P), (e, k))"
    "sock_bufs ((with_sock (read_list_update (\<lambda>_. l)) m)\<lparr>blocks := P, kenv := (e, k)\<rparr>) (rs @ pending (snd (kenv m))) ws"
    "pending k = []" "if closed then e = fst (kenv m) \<or> interrupts (net C) (sock_fd (sock m)) else e = EAGAIN"
proof -
  obtain e' r' P' k' where "Recv (net C) (sock_fd (sock m)) (read_list (sock m), blocks m) (fst (kenv m), snd (kenv m))
      = Inr (if closed then kError else int (length (pending (snd (kenv m)))), e', (r', P'), (e', k'))"
    "two_lists P' r' (write_list (sock m)) (rs @ pending (snd (kenv m))) ws" "pending k' = []"
    "if closed then e' = fst (kenv m) \<or> interrupts (net C) (sock_fd (sock m)) else e' = EAGAIN"
    using recv_sock [OF assms(1) assms(2)[unfolded sock_bufs_def] assms(3,4)] by blast
  then show ?thesis by (intro that [of _ e' r' P' k']) (simp_all add: sock_bufs_def)
qed

text \<open>The list \<open>w\<close> has its bytes in one block.\<close>

definition fits_block :: "buffer_list \<Rightarrow> byte list \<Rightarrow> bool" where
  "fits_block w ws \<longleftrightarrow> length ws = bl_current_read_size w"

lemma send_sock:
  assumes st: "stream_write K fd taken rank" and b: "two_lists P r w rs ws" and one: "fits_block w ws"
    and len: "length ws < 2 ^ 31"
  shows "\<exists>n err e' w' P' k'. Send K fd (w, P) (e, k) = Inr (int n, err, (w', P'), (e', k'))
    \<and> n \<le> length ws \<and> taken k' = taken k @ take n ws \<and> two_lists P' r w' rs (drop n ws) \<and> fits_block w' (drop n ws)
    \<and> (err = kOK \<and> n = length ws \<or> err = EAGAIN \<and> n < length ws)"
proof -
  have l: "length ws < 2 ^ 64" using len by simp
  have ob: "one_block B (w, P) ws" if "bl_owned B (w, P) ws" for B
    using that one by (simp add: one_block_def fits_block_def)
  obtain B where "bl_owned B (w, P) ws" using b unfolding two_lists_def by blast
  note B = ob [OF this]
  obtain n err b' e' k' B' where run: "send_bytes K fd (wrap32 0) (w, P) (e, k) = Some (Inr (wrap32 (0 + int n), err, b', (e', k')))"
    "n \<le> length ws" "taken k' = taken k @ take n ws" "one_block B' b' (drop n ws)"
    "err = 0 \<and> n = length ws \<or> err = EAGAIN \<and> n < length ws"
    using send_bytes_stream [OF st B l] by blast
  obtain w' P' where b': "b' = (w', P')" by fastforce
  have wr: "wrap32 (0 + int n) = int n" "wrap32 0 = 0" using run(2) len by (auto intro!: wrap32_id)
  have "two_lists P' r w' rs (drop n ws)"
  proof (rule two_lists_second [OF b])
    fix A
    assume "bl_owned A (w, P) ws"
    from send_bytes_stream [OF st ob [OF this] l, where r = 0 and e = e] obtain n2 err2 b2 e2 k2 A2 where
      r2: "send_bytes K fd (wrap32 0) (w, P) (e, k) = Some (Inr (wrap32 (0 + int n2), err2, b2, (e2, k2)))"
      "n2 \<le> length ws" "one_block A2 b2 (drop n2 ws)" "moved A (snd (w, P)) A2 (snd b2)" by blast
    have "wrap32 (0 + int n2) = int n2" using r2(2) len by (auto intro!: wrap32_id)
    then have "n2 = n" "b2 = b'" using r2(1) run(1) wr by auto
    then show "\<exists>A'. bl_owned A' (w', P') (drop n ws) \<and> moved A P A' P'"
      using r2(3,4) b' by (auto simp: one_block_def)
  qed
  moreover have "fits_block w' (drop n ws)" using run(4) b' by (simp add: one_block_def fits_block_def)
  ultimately show ?thesis using run b' unfolding wr by (auto simp: Send_def kOK_def)
qed

lemma socket_in_after_loop:
  assumes "status (sock m) = SOCKET_CONNECTED" and "in_loop C m = Some (Inr (False, m'))" and "sock_bufs m' rs ws"
  shows "socket_in C m = (if rs \<noteq> [] \<and> has_handler (sock m') then on_read (handler C) m' else Inr m')"
  using assms sock_bufs_sizes(1) [OF assms(3)]
  by (simp add: socket_in_def bl_empty_def read_buffer_size_def)

text \<open>\<open>In\<close> and \<open>Out\<close> on a stream socket, with the state they leave.\<close>

lemma socket_in_moves:
  assumes "status (sock m) = SOCKET_CONNECTED" and "stream_read (net C) (sock_fd (sock m)) pending rank False"
    and "sock_bufs m rs ws" and "length rs + length (pending (snd (kenv m))) < 2 ^ 64"
    and "length (pending (snd (kenv m))) < 2 ^ 31"
  obtains n l P k m' where "m' = (with_sock (read_list_update (\<lambda>_. l)) m)\<lparr>blocks := P, kenv := (EAGAIN, k)\<rparr>"
    and "Recv (net C) (sock_fd (sock m)) (read_list (sock m), blocks m) (kenv m) = Inr (n, EAGAIN, (l, P), (EAGAIN, k))"
    and "sock_bufs m' (rs @ pending (snd (kenv m))) ws" and "pending k = []"
    and "socket_in C m = (if rs @ pending (snd (kenv m)) \<noteq> [] \<and> has_handler (sock m) then on_read (handler C) m' else Inr m')"
proof -
  obtain n e l P k where r: "Recv (net C) (sock_fd (sock m)) (read_list (sock m), blocks m) (kenv m) = Inr (n, e, (l, P), (e, k))"
    "sock_bufs ((with_sock (read_list_update (\<lambda>_. l)) m)\<lparr>blocks := P, kenv := (e, k)\<rparr>) (rs @ pending (snd (kenv m))) ws"
    "pending k = []" "if False then e = fst (kenv m) \<or> interrupts (net C) (sock_fd (sock m)) else e = EAGAIN"
    by (rule in_loop_step [OF assms(2-5)])
  have e: "e = EAGAIN" using r(4) by simp
  define m' where "m' = (with_sock (read_list_update (\<lambda>_. l)) m)\<lparr>blocks := P, kenv := (EAGAIN, k)\<rparr>"
  have loop: "in_loop C m = Some (Inr (False, m'))"
    using r(1) e by (subst in_loop.simps) (simp add: m'_def)
  from socket_in_after_loop [OF assms(1) loop] r(2) e
  have "socket_in C m
    = (if rs @ pending (snd (kenv m)) \<noteq> [] \<and> has_handler (sock m) then on_read (handler C) m' else Inr m')"
    by (simp add: m'_def)
  then show ?thesis using that [OF m'_def r(1) [unfolded e] r(2) [unfolded e, folded m'_def] r(3)] by blast
qed

lemma socket_out_moves:
  assumes "status (sock m) = SOCKET_CONNECTED" and "stream_write (net C) (sock_fd (sock m)) taken rank"
    and "sock_bufs m rs ws" and "fits_block (write_list (sock m)) ws" and "ws \<noteq> []" and "length ws < 2 ^ 31"
    and "is_writable (sock m)"
  obtains n err e w P k m' where
    "m' = (with_sock (\<lambda>x. x\<lparr>write_list := w, is_writable := drop n ws \<noteq> []\<rparr>) m)\<lparr>blocks := P, kenv := (e, k)\<rparr>"
    and "Send (net C) (sock_fd (sock m)) (write_list (sock m), blocks m) (kenv m) = Inr (int n, err, (w, P), (e, k))"
    and "sock_bufs m' rs (drop n ws)" and "taken k = taken (snd (kenv m)) @ take n ws" and "n \<le> length ws"
    and "socket_out C n0 m = (if 0 < n \<and> has_handler (sock m) then on_write (handler C) m' else Inr m')"
    and "fits_block w (drop n ws)" and "drop n ws \<noteq> [] \<longrightarrow> err = EAGAIN"
proof -
  obtain n err e w P k where r: "Send (net C) (sock_fd (sock m)) (write_list (sock m), blocks m) (fst (kenv m), snd (kenv m))
      = Inr (int n, err, (w, P), (e, k))" "n \<le> length ws" "taken k = taken (snd (kenv m)) @ take n ws"
    "two_lists P (read_list (sock m)) w rs (drop n ws)" "fits_block w (drop n ws)"
    "err = kOK \<and> n = length ws \<or> err = EAGAIN \<and> n < length ws"
    using send_sock [OF assms(2) assms(3)[unfolded sock_bufs_def] assms(4,6)] by blast
  define m1 where "m1 = (with_sock (write_list_update (\<lambda>_. w)) m)\<lparr>blocks := P, kenv := (e, k)\<rparr>"
  have b1: "sock_bufs m1 rs (drop n ws)" using r(4) by (simp add: sock_bufs_def m1_def)
  have ne: "\<not> bl_empty (write_list (sock m))"
    using sock_bufs_sizes(2) [OF assms(3)] assms(5) by (simp add: bl_empty_def write_buffer_size_def)
  have e1: "bl_empty (write_list (sock m1)) \<longleftrightarrow> drop n ws = []"
    using sock_bufs_sizes(2) [OF b1] by (simp add: bl_empty_def write_buffer_size_def)
  define m2 where "m2 = (with_sock (\<lambda>x. x\<lparr>write_list := w, is_writable := drop n ws \<noteq> []\<rparr>) m)\<lparr>blocks := P, kenv := (e, k)\<rparr>"
  have m2: "m2 = (if drop n ws = [] then with_sock (is_writable_update (\<lambda>_. False)) m1 else m1)"
    using assms(7) unfolding m2_def m1_def by (cases m) (cases "sock m", simp)
  have "out_loop C n0 m = Some (Inr (False, int n, m2))"
  proof (cases "err = kOK")
    case True
    then have "drop n ws = []" using r(6) by simp
    then show ?thesis using r(1) True ne e1 unfolding m2 by (subst out_loop.simps) (simp add: m1_def Let_def out_loop.simps)
  next
    case False
    then have "err = EAGAIN" "drop n ws \<noteq> []" using r(6) by auto
    then show ?thesis using r(1) ne unfolding m2 by (subst out_loop.simps) (simp add: m1_def Let_def)
  qed
  then have "socket_out C n0 m = (if 0 < n \<and> has_handler (sock m) then on_write (handler C) m2 else Inr m2)"
    using assms(1) by (simp add: socket_out_def m2_def)
  moreover have "sock_bufs m2 rs (drop n ws)" using b1 by (auto simp: m2 sock_bufs_def)
  ultimately show ?thesis using that [OF m2_def _ _ r(3,2) _ r(5)] r(1,6) by auto
qed

section \<open>Properties\<close>

text \<open>
  When the poller reports input on a connected socket, \<open>In\<close> moves every byte the kernel holds
  for the connection into the read buffer, behind the bytes already there, and then calls \<open>OnRead\<close>
  once if the buffer is not empty; the write buffer, the poller and the state of the connection
  are not touched.
\<close>
lemma socket_in_reads_all:
  assumes "status (sock m) = SOCKET_CONNECTED" and "stream_read (net C) (sock_fd (sock m)) pending rank False"
    and "sock_bufs m rs ws" and "length rs + length (pending (snd (kenv m))) < 2 ^ 64"
    and "length (pending (snd (kenv m))) < 2 ^ 31"
  shows "\<exists>m'. sock_bufs m' (rs @ pending (snd (kenv m))) ws \<and> pending (snd (kenv m')) = []
    \<and> status (sock m') = SOCKET_CONNECTED \<and> poll m' = poll m \<and> others m' = others m
    \<and> socket_in C m = (if rs @ pending (snd (kenv m)) \<noteq> [] \<and> has_handler (sock m) then on_read (handler C) m' else Inr m')"
proof -
  obtain n l P k m' where m': "m' = (with_sock (read_list_update (\<lambda>_. l)) m)\<lparr>blocks := P, kenv := (EAGAIN, k)\<rparr>"
    "sock_bufs m' (rs @ pending (snd (kenv m))) ws" "pending k = []"
    "socket_in C m = (if rs @ pending (snd (kenv m)) \<noteq> [] \<and> has_handler (sock m) then on_read (handler C) m' else Inr m')"
    by (rule socket_in_moves [OF assms])
  then show ?thesis using assms(1) by (intro exI [of _ m']) simp
qed

text \<open>With a closed peer and \<open>errno\<close> 0, each turn of the loop reports no error.\<close>

definition closed_quiet :: "('k, 'w) ctx \<Rightarrow> int \<Rightarrow> ('k \<Rightarrow> byte list) \<Rightarrow> ('k, 'w) world \<Rightarrow> bool" where
  "closed_quiet C fd pending m \<longleftrightarrow> sock_fd (sock m) = fd \<and> fst (kenv m) = kOK
     \<and> (\<exists>rs ws. sock_bufs m rs ws \<and> length rs + length (pending (snd (kenv m))) < 2 ^ 64
         \<and> length (pending (snd (kenv m))) < 2 ^ 31)"

lemma in_loop_diverges:
  assumes st: "stream_read (net C) fd pending rank True" and ni: "\<not> interrupts (net C) fd"
  shows "closed_quiet C fd pending m \<Longrightarrow> in_loop C m = None"
proof -
  have no: "D = C \<longrightarrow> \<not> closed_quiet C fd pending m" if run: "in_loop D m = Some y" for D m y
  proof (rule in_loop.raw_induct [where P = "\<lambda>D m y. D = C \<longrightarrow> \<not> closed_quiet C fd pending m", OF _ run])
    fix f :: "('a, 'b) ctx \<Rightarrow> ('a, 'b) world \<Rightarrow> (bool \<times> ('a, 'b) world) res option" and D m y
    assume IH: "\<And>D m y. f D m = Some y \<Longrightarrow> D = C \<longrightarrow> \<not> closed_quiet C fd pending m"
      and body: "(case Recv (net D) (sock_fd (sock m)) (read_list (sock m), blocks m) (kenv m) of
        Inl f \<Rightarrow> Some (Inl f)
      | Inr (_, err, (l, P), s) \<Rightarrow>
          let m = (with_sock (read_list_update (\<lambda>_. l)) m)\<lparr>blocks := P, kenv := s\<rparr> in
          if err \<noteq> kOK \<and> \<not> IsIOTryAgain err then
            Some (bindR (if has_handler (sock m) then on_error (handler D) err m else Inr m) (\<lambda>m.
                  bindR (socket_close D m) (\<lambda>m. Inr (True, m))))
          else if IsIOTryAgain err then Some (Inr (False, m))
          else f D m) = Some y"
    show "D = C \<longrightarrow> \<not> closed_quiet C fd pending m"
    proof (intro impI notI)
      assume D: "D = C" and q: "closed_quiet C fd pending m"
      then obtain rs ws where m: "sock_fd (sock m) = fd" "fst (kenv m) = kOK" "sock_bufs m rs ws"
        "length rs + length (pending (snd (kenv m))) < 2 ^ 64" "length (pending (snd (kenv m))) < 2 ^ 31"
        unfolding closed_quiet_def by blast
      obtain n e l P k where r: "Recv (net C) (sock_fd (sock m)) (read_list (sock m), blocks m) (kenv m) = Inr (n, e, (l, P), (e, k))"
        "sock_bufs ((with_sock (read_list_update (\<lambda>_. l)) m)\<lparr>blocks := P, kenv := (e, k)\<rparr>) (rs @ pending (snd (kenv m))) ws"
        "pending k = []" "if True then e = fst (kenv m) \<or> interrupts (net C) (sock_fd (sock m)) else e = EAGAIN"
        by (rule in_loop_step [OF st [folded m(1)] m(3-5)])
      let ?m = "(with_sock (read_list_update (\<lambda>_. l)) m)\<lparr>blocks := P, kenv := (e, k)\<rparr>"
      have e: "e = kOK" using r(4) ni m(1,2) by simp
      have "f C ?m = Some y" using body r(1) e D by (simp add: Let_def)
      moreover have "closed_quiet C fd pending ?m"
        using r(2,3) m(1,4) e unfolding closed_quiet_def by (auto simp: length_append)
      ultimately show False using IH by blast
    qed
  qed
  assume "closed_quiet C fd pending m"
  then show ?thesis using no [of C m] by (cases "in_loop C m") blast+
qed

text \<open>
  C34. When the peer has closed the connection, \<open>Recv\<close> reports the value \<open>errno\<close> happens to have.
  If that is \<open>EAGAIN\<close>, left behind by the previous call, \<open>In\<close> returns as if nothing had happened:
  no \<open>OnError\<close>, the socket stays connected and registered. If it is 0, \<open>In\<close> never returns.
\<close>
theorem peer_close_not_noticed:
  assumes "status (sock m) = SOCKET_CONNECTED" and "stream_read (net C) (sock_fd (sock m)) pending rank True"
    and "\<not> interrupts (net C) (sock_fd (sock m))" and "sock_bufs m rs ws"
    and "length rs + length (pending (snd (kenv m))) < 2 ^ 64" and "length (pending (snd (kenv m))) < 2 ^ 31"
  shows "(fst (kenv m) = EAGAIN \<longrightarrow> (\<exists>m'. sock_bufs m' (rs @ pending (snd (kenv m))) ws
        \<and> status (sock m') = SOCKET_CONNECTED \<and> poll m' = poll m \<and> others m' = others m
        \<and> socket_in C m = (if rs @ pending (snd (kenv m)) \<noteq> [] \<and> has_handler (sock m) then on_read (handler C) m' else Inr m')))
    \<and> (fst (kenv m) = kOK \<longrightarrow> socket_in C m = Inl Diverges)"
proof (intro conjI impI)
  assume eagain: "fst (kenv m) = EAGAIN"
  obtain n e l P k where r: "Recv (net C) (sock_fd (sock m)) (read_list (sock m), blocks m) (kenv m) = Inr (n, e, (l, P), (e, k))"
    "sock_bufs ((with_sock (read_list_update (\<lambda>_. l)) m)\<lparr>blocks := P, kenv := (e, k)\<rparr>) (rs @ pending (snd (kenv m))) ws"
    "pending k = []" "if True then e = fst (kenv m) \<or> interrupts (net C) (sock_fd (sock m)) else e = EAGAIN"
    by (rule in_loop_step [OF assms(2,4-6)])
  have e: "e = EAGAIN" using r(4) assms(3) eagain by simp
  define m' where "m' = (with_sock (read_list_update (\<lambda>_. l)) m)\<lparr>blocks := P, kenv := (e, k)\<rparr>"
  have "in_loop C m = Some (Inr (False, m'))" using r(1) e by (subst in_loop.simps) (simp add: m'_def)
  from socket_in_after_loop [OF assms(1) this] r(2) assms(1)
  show "\<exists>m'. sock_bufs m' (rs @ pending (snd (kenv m))) ws
        \<and> status (sock m') = SOCKET_CONNECTED \<and> poll m' = poll m \<and> others m' = others m
        \<and> socket_in C m = (if rs @ pending (snd (kenv m)) \<noteq> [] \<and> has_handler (sock m) then on_read (handler C) m' else Inr m')"
    by (intro exI [of _ m']) (simp add: m'_def)
next
  assume "fst (kenv m) = kOK"
  then have "closed_quiet C (sock_fd (sock m)) pending m" using assms(4-6) unfolding closed_quiet_def by blast
  from in_loop_diverges [OF assms(2,3) this] show "socket_in C m = Inl Diverges"
    using assms(1) by (simp add: socket_in_def)
qed

text \<open>
  On a connected socket whose write buffer lies in one block, \<open>Out\<close> hands the kernel a prefix of
  the buffer, keeps the rest, and calls \<open>OnWrite\<close> if it sent something; the writeable flag is
  cleared exactly when nothing is left, so a later \<open>Write\<close> marks the socket again.
\<close>
lemma socket_out_sends:
  assumes "status (sock m) = SOCKET_CONNECTED" and "stream_write (net C) (sock_fd (sock m)) taken rank"
    and "sock_bufs m rs ws" and "fits_block (write_list (sock m)) ws" and "ws \<noteq> []" and "length ws < 2 ^ 31"
    and "is_writable (sock m)"
  shows "\<exists>n m'. sock_bufs m' rs (drop n ws) \<and> taken (snd (kenv m')) = taken (snd (kenv m)) @ take n ws
    \<and> n \<le> length ws \<and> (is_writable (sock m') \<longleftrightarrow> drop n ws \<noteq> []) \<and> status (sock m') = SOCKET_CONNECTED \<and> poll m' = poll m
    \<and> socket_out C n0 m = (if 0 < n \<and> has_handler (sock m) then on_write (handler C) m' else Inr m')"
proof -
  obtain n err e w P k m' where m': "m' = (with_sock (\<lambda>x. x\<lparr>write_list := w, is_writable := drop n ws \<noteq> []\<rparr>) m)\<lparr>blocks := P, kenv := (e, k)\<rparr>"
    "sock_bufs m' rs (drop n ws)" "taken k = taken (snd (kenv m)) @ take n ws" "n \<le> length ws"
    "socket_out C n0 m = (if 0 < n \<and> has_handler (sock m) then on_write (handler C) m' else Inr m')"
    by (rule socket_out_moves [OF assms])
  then show ?thesis using assms(1) by (intro exI [of _ n] exI [of _ m']) simp
qed

text \<open>The socket as an event object of the poller.\<close>

definition pack :: "socket \<times> bpool \<times> 'w \<Rightarrow> epoll \<Rightarrow> 'k env \<Rightarrow> ('k, 'w) world" where
  "pack x E s = \<lparr>sock = fst x, blocks = fst (snd x), poll = E, kenv = s, others = snd (snd x)\<rparr>"

definition socket_event :: "('k, 'w) ctx \<Rightarrow> int \<Rightarrow> ('k, socket \<times> bpool \<times> 'w) event_cb" where
  "socket_event C n io ev = (\<lambda>(E, s, x).
     bindR (case io of Ev_In \<Rightarrow> socket_in C (pack x E s) | Ev_Out \<Rightarrow> socket_out C n (pack x E s)) (\<lambda>m.
     Inr (poll m, kenv m, (sock m, blocks m, others m))))"

text \<open>
  A connection that was refused is reported to the handler as established: the kernel reports
  error, hang-up, input and output on the descriptor, \<open>In\<close> does nothing because the socket is still
  connecting, and \<open>Out\<close> sets it to connected and calls \<open>OnConnect (kOK)\<close>.
\<close>
lemma failed_connect_reported_ok:
  fixes C :: "('k, int list) ctx"
  assumes "status k = SOCKET_CONNECTING" and "has_handler k" and "bl_empty (write_list k)"
    and "\<And>e m. on_connect (handler C) e m = Inr (m\<lparr>others := others m @ [e]\<rparr>)"
    and "cells (ep_entries E) a = Some ee" and "ee_fd ee \<noteq> kInvalidFd" and "n0 \<le> 0"
    and "i < length (ep_events E)" and "ep_events E ! i = (EPOLLERR OR EPOLLHUP OR EPOLLIN OR EPOLLOUT, At a)"
  shows "\<exists>k'. dispatch_event (socket_event C n0) i (E, s, (k, P, log))
      = Inr (E, s, (k', P, log @ [kOK])) \<and> status k' = SOCKET_CONNECTED"
proof -
  have bits: "(EPOLLERR OR EPOLLHUP OR EPOLLIN OR EPOLLOUT) AND (EPOLLERR OR EPOLLHUP) \<noteq> 0"
    "(EPOLLERR OR EPOLLHUP OR EPOLLIN OR EPOLLOUT) AND EPOLLIN \<noteq> 0"
    "(EPOLLERR OR EPOLLHUP OR EPOLLIN OR EPOLLOUT) AND EPOLLOUT \<noteq> 0"
    by (simp_all add: EPOLLERR_def EPOLLHUP_def EPOLLIN_def EPOLLOUT_def)
  have i: "socket_event C n0 Ev_In ev (E, s, (k, P, log)) = Inr (E, s, (k, P, log))" for ev
    using assms(1) by (simp add: socket_event_def socket_in_def pack_def)
  let ?k = "k\<lparr>status := SOCKET_CONNECTED, is_writable := False\<rparr>"
  have o: "socket_event C n0 Ev_Out ev (E, s, (k, P, log)) = Inr (E, s, (?k, P, log @ [kOK]))" for ev
    using assms(1-4,7) by (simp add: socket_event_def socket_out_def pack_def out_loop.simps)
  show ?thesis
    using assms(5,6,8,9) bits i o by (simp add: dispatch_event_def guarded_call_def read_event_def Let_def)
qed

text \<open>
  The handle of a client socket stays \<open>NULL\<close>, since \<open>Connect\<close> drops the result of \<open>Add\<close>: what is
  written to it once it is connected is buffered and flagged, but the socket is never put on the
  poller's list of writeable handles.
\<close>
lemma client_write_not_marked:
  assumes "socket_client K ep True h P0 s0 = (k, P1, s1)" and "sock m = k" and "sock_bufs m rs ws"
    and "ConnectAsync (net C) (sock_endpoint k) (sock_fd k) (kenv m) = Some (kOK, s2)"
    and "socket_connect C m = Inr m1" and "length ws + length d < 2 ^ 64"
  shows "\<exists>m2. socket_write C d (with_sock (status_update (\<lambda>_. SOCKET_CONNECTED)) m1) = Inr m2
    \<and> sock_bufs m2 rs (ws @ d) \<and> is_writable (sock m2) \<and> poll m2 = poll m1"
proof -
  have k: "handle k = Null" "has_poller k" "status k = SOCKET_INIT" "sock_type k = CLIENT_SOCKET"
    using assms(1) by (auto simp: socket_client_def Let_def split: prod.splits)
  have m1: "sock m1 = (sock m)\<lparr>status := SOCKET_CONNECTING\<rparr>" "blocks m1 = blocks m"
    using assms(2,4,5) k by (auto simp: socket_connect_def Let_def res_simps)
  let ?m = "with_sock (status_update (\<lambda>_. SOCKET_CONNECTED)) m1"
  have "sock_bufs ?m rs ws" "sock_ready ?m" "handle (sock ?m) = Null"
    using assms(2,3) k by (simp_all add: m1 sock_bufs_def sock_ready_def)
  from socket_write_bufs [OF this(1,2) assms(6), of C] this(3) show ?thesis by auto
qed

lemma epoll_del_retired:
  assumes "epoll_del K (At a) (E, s) = Inr (rc, E', s')"
  shows "retired E' = retired E @ [a]"
proof -
  obtain ee where ee: "cells (ep_entries E) a = Some ee" using assms by (auto simp: epoll_del_def res_simps)
  obtain r s1 where "syscall (ke_del K (epoll_fd E) (ee_fd ee)) s = (r, s1)" by (metis surj_pair)
  then show ?thesis using assms ee by (auto simp: epoll_del_def)
qed

text \<open>Deleting the entries of a list that names one twice fails.\<close>

lemma delete_entries_frees:
  "delete_entries as h = Inr h' \<Longrightarrow> distinct as \<and> set as \<subseteq> dom (cells h)"
proof (induction as arbitrary: h)
  case (Cons a as)
  then obtain h1 where h1: "heap_free a h = Inr h1" "delete_entries as h1 = Inr h'" by (auto simp: res_simps)
  then have c: "cells h1 = (cells h)(a := None)" "a \<in> dom (cells h)"
    by (auto simp: heap_free_def split: option.splits)
  then have "dom (cells h1) = dom (cells h) - {a}" by simp
  with c(2) show ?case using Cons.IH [OF h1(2)] by auto
qed simp

lemma delete_entries_fault: "delete_entries as h = Inl f \<Longrightarrow> f = Double_Free"
proof (induction as arbitrary: h)
  case (Cons a as)
  then show ?case by (cases "heap_free a h") (auto simp: heap_free_def split: option.splits)
qed simp

text \<open>
  C35. The destructor of a socket retires its handle twice, once itself and once through \<open>close\<close>, so
  that the entry is deleted twice when the poller next destroys its retired entries.
\<close>
theorem socket_destructor_double_free:
  assumes "handle (sock m) = At a" and "socket_destroy C m = Inr m'"
  shows "processRetired (poll m') = Inl Double_Free"
proof -
  have del: "retired (poll m2) = retired (poll m1) @ [a] \<and> handle (sock m2) = At a"
    if "socket_del C m1 = Inr m2" "handle (sock m1) = At a" for m1 m2 :: "('a, 'b) world"
  proof -
    have hp: "has_poller (sock m1)" using that(1) by (auto simp: socket_del_def res_simps)
    show ?thesis
    proof (cases "epoll_del (epk C) (At a) (poll m1, kenv m1)")
      case (Inl f)
      then show ?thesis using that hp by (simp add: socket_del_def)
    next
      case (Inr r)
      obtain rc E s where "r = (rc, E, s)" by (cases r)
      then have "epoll_del (epk C) (At a) (poll m1, kenv m1) = Inr (rc, E, s)" "m2 = m1\<lparr>poll := E, kenv := s\<rparr>"
        using that hp Inr by (simp_all add: socket_del_def)
      then show ?thesis using epoll_del_retired that(2) by fastforce
    qed
  qed
  obtain m1 m2 where m1: "socket_del C m = Inr m1" and m2: "socket_close C m1 = Inr m2" and p: "poll m' = poll m2"
    using assms(2) by (auto simp: socket_destroy_def res_simps)
  obtain m3 where m3: "socket_del C m1 = Inr m3" "poll m2 = poll m3"
    using m2 by (auto simp: socket_close_def res_simps)
  have "retired (poll m') = retired (poll m) @ [a, a]"
    using del [OF m1 assms(1)] del [OF m3(1)] m3(2) p by simp
  then have "\<not> distinct (retired (poll m'))" by simp
  then show ?thesis
    using delete_entries_frees [of "retired (poll m')" "ep_entries (poll m')"]
      delete_entries_fault [of "retired (poll m')" "ep_entries (poll m')"]
    by (cases "delete_entries (retired (poll m')) (ep_entries (poll m'))") (auto simp: processRetired_def)
qed

section \<open>Concrete instances\<close>

lemma two_lists_add_new:
  assumes "bl_owned A (w, P) ws" and "bl_new P = (r, Q)"
  shows "two_lists Q r w [] ws"
proof -
  have wP: "bpool_wf P" using bl_owned_use [OF assms(1)] by simp
  obtain B where B: "bl_owned B (r, Q) []" "moved {} P B Q" using bl_owned_new [OF wP assms(2)] by blast
  have "bpool_wf Q" using bl_owned_use [OF B(1)] by simp
  from bl_owned_frame [OF assms(1) B(2) _ this] B(1) show ?thesis unfolding two_lists_def by blast
qed

text \<open>A handler that writes down what is called.\<close>

definition log_handler :: "('k, int list) data_handler" where
  "log_handler = \<lparr>on_write = (\<lambda>m. Inr (m\<lparr>others := others m @ [100]\<rparr>)),
     on_read = (\<lambda>m. Inr (m\<lparr>others := others m @ [200]\<rparr>)),
     on_connect = (\<lambda>e m. Inr (m\<lparr>others := others m @ [e]\<rparr>)),
     on_error = (\<lambda>e m. Inr (m\<lparr>others := others m @ [e]\<rparr>))\<rparr>"

definition quiet_epoll :: "'k epoll_kernel" where
  "quiet_epoll = \<lparr>ke_create = (\<lambda>k. (Inr 4, k)), ke_add = (\<lambda>_ _ _ _ k. (Inr (), k)), ke_del = (\<lambda>_ _ k. (Inr (), k)),
     ke_wait = (\<lambda>_ _ _ k. (Inr [], k)), ke_close = (\<lambda>_ k. (Inr (), k))\<rparr>"

definition log_ctx :: "'k kernel \<Rightarrow> ('k, int list) ctx" where
  "log_ctx K = \<lparr>net = K, epk = quiet_epoll, handler = log_handler, self = 9\<rparr>"

definition conn :: "buffer_list \<Rightarrow> buffer_list \<Rightarrow> socket" where
  "conn r w = \<lparr>sock_fd = 5, has_handler = True, has_poller = True, is_writable = True, read_list = r, write_list = w,
     status = SOCKET_CONNECTED, sock_endpoint = endpoint_default, sock_type = SERVER_SOCKET, handle = At 0\<rparr>"

definition conn_world :: "socket \<Rightarrow> bpool \<Rightarrow> int \<Rightarrow> byte list \<Rightarrow> (byte list \<times> byte list, int list) world" where
  "conn_world k P e input = \<lparr>sock = k, blocks = P, poll = ex_epoll, kenv = (e, (input, [])), others = []\<rparr>"

lemma fresh_conn: "\<exists>r w P. two_lists P r w [] []"
  using two_lists_new [OF bpool_wf_init] by (metis surj_pair)

lemma socket_in_reads_all_witness:
  "\<exists>r w P m'. socket_in (log_ctx (loop_kernel False)) (conn_world (conn r w) P 0 [1, 2, 3]) = Inr m'
    \<and> others m' = [200] \<and> sock_bufs m' [1, 2, 3] []"
proof -
  obtain r w P where t: "two_lists P r w [] []" using fresh_conn by blast
  let ?m = "conn_world (conn r w) P 0 [1, 2, 3]" and ?C = "log_ctx (loop_kernel False)"
  have "\<exists>m'. sock_bufs m' ([] @ fst (snd (kenv ?m))) [] \<and> fst (snd (kenv m')) = []
    \<and> status (sock m') = SOCKET_CONNECTED \<and> poll m' = poll ?m \<and> others m' = others ?m
    \<and> socket_in ?C ?m = (if [] @ fst (snd (kenv ?m)) \<noteq> [] \<and> has_handler (sock ?m) then on_read (handler ?C) m' else Inr m')"
    by (rule socket_in_reads_all [where rank = "length \<circ> fst"])
      (simp_all add: conn_world_def conn_def log_ctx_def loop_kernel_reads sock_bufs_def t)
  then obtain m' where m': "sock_bufs m' [1, 2, 3] []" "others m' = []" "socket_in ?C ?m = on_read (handler ?C) m'"
    by (auto simp: conn_world_def conn_def)
  then have "socket_in ?C ?m = Inr (m'\<lparr>others := [200]\<rparr>)" by (simp add: log_ctx_def log_handler_def)
  moreover have "sock_bufs (m'\<lparr>others := [200]\<rparr>) [1, 2, 3] []" using m'(1) by (simp add: sock_bufs_def)
  ultimately show ?thesis by (intro exI conjI) auto
qed

lemma loop_kernel_no_interrupts: "\<not> interrupts (loop_kernel closed) fd"
  by (auto simp: interrupts_def loop_kernel_def split: if_splits)

theorem peer_close_not_noticed_witness:
  "\<exists>r w P. socket_in (log_ctx (loop_kernel True)) (conn_world (conn r w) P kOK [1, 2, 3]) = Inl Diverges"
proof -
  obtain r w P where t: "two_lists P r w [] []" using fresh_conn by blast
  let ?m = "conn_world (conn r w) P kOK [1, 2, 3]" and ?C = "log_ctx (loop_kernel True)"
  have "(fst (kenv ?m) = EAGAIN \<longrightarrow> (\<exists>m'. sock_bufs m' ([] @ fst (snd (kenv ?m))) []
        \<and> status (sock m') = SOCKET_CONNECTED \<and> poll m' = poll ?m \<and> others m' = others ?m
        \<and> socket_in ?C ?m = (if [] @ fst (snd (kenv ?m)) \<noteq> [] \<and> has_handler (sock ?m) then on_read (handler ?C) m' else Inr m')))
    \<and> (fst (kenv ?m) = kOK \<longrightarrow> socket_in ?C ?m = Inl Diverges)"
    by (rule peer_close_not_noticed [where rank = "length \<circ> fst"])
      (simp_all add: conn_world_def conn_def log_ctx_def loop_kernel_reads loop_kernel_no_interrupts sock_bufs_def t)
  then have "socket_in ?C ?m = Inl Diverges" by (simp add: conn_world_def)
  then show ?thesis by blast
qed

lemma socket_out_sends_witness:
  "\<exists>m n m'. sock_bufs m [] (replicate 50 7) \<and> sock_bufs m' [] (drop n (replicate 50 7))
    \<and> socket_out (log_ctx slow_kernel) 0 m = (if 0 < n then on_write log_handler m' else Inr m')"
proof -
  obtain A w P where w: "one_block A (w, P) (replicate 50 (7 :: byte))"
    using one_block_new [of "replicate 50 7"] by (auto simp: kBufferSize_def)
  obtain r Q where r: "bl_new P = (r, Q)" by fastforce
  have t: "two_lists Q r w [] (replicate 50 7)"
    using w by (intro two_lists_add_new [OF _ r, of A]) (simp add: one_block_def)
  have f: "fits_block w (replicate 50 (7 :: byte))" using w by (simp add: one_block_def fits_block_def)
  let ?m = "conn_world (conn r w) Q 0 []" and ?C = "log_ctx slow_kernel"
  have "\<exists>n m'. sock_bufs m' [] (drop n (replicate 50 7))
    \<and> snd (snd (kenv m')) = snd (snd (kenv ?m)) @ take n (replicate 50 7) \<and> n \<le> length (replicate 50 (7 :: byte))
    \<and> (is_writable (sock m') \<longleftrightarrow> drop n (replicate 50 (7 :: byte)) \<noteq> []) \<and> status (sock m') = SOCKET_CONNECTED \<and> poll m' = poll ?m
    \<and> socket_out ?C 0 ?m = (if 0 < n \<and> has_handler (sock ?m) then on_write (handler ?C) m' else Inr m')"
    by (rule socket_out_sends [where rank = "\<lambda>(p, t). 10 - length t"])
      (simp_all add: conn_world_def conn_def log_ctx_def slow_kernel_writes sock_bufs_def t f)
  then obtain n m' where r: "sock_bufs m' [] (drop n (replicate 50 7))"
    "socket_out ?C 0 ?m = (if 0 < n \<and> has_handler (sock ?m) then on_write (handler ?C) m' else Inr m')" by blast
  have "has_handler (sock ?m)" "handler ?C = log_handler" by (simp_all add: conn_world_def conn_def log_ctx_def)
  then have "socket_out ?C 0 ?m = (if 0 < n then on_write log_handler m' else Inr m')" using r(2) by simp
  with r(1) have "sock_bufs m' [] (drop n (replicate 50 7)) \<and> socket_out ?C 0 ?m = (if 0 < n then on_write log_handler m' else Inr m')"
    by blast
  moreover have "sock_bufs ?m [] (replicate 50 7)" using t by (simp add: conn_world_def conn_def sock_bufs_def)
  ultimately show ?thesis by blast
qed

lemma failed_connect_reported_ok_witness:
  "\<exists>E r w P k'. dispatch_event (socket_event (log_ctx (loop_kernel False)) 0) 0
      (E, (0, ([], [])), ((conn r w)\<lparr>status := SOCKET_CONNECTING\<rparr>, P, []))
    = Inr (E, (0, ([], [])), (k', P, [kOK])) \<and> status k' = SOCKET_CONNECTED"
proof -
  obtain r w P where t: "two_lists P r w [] []" using fresh_conn by blast
  then have e: "bl_empty w" by (auto simp: two_lists_def bl_empty_def dest: bl_owned_size)
  define E where "E = with_events [(EPOLLERR OR EPOLLHUP OR EPOLLIN OR EPOLLOUT, 0)] ex_epoll"
  have "\<exists>k'. dispatch_event (socket_event (log_ctx (loop_kernel False)) 0) 0
      (E, (0, ([], [])), ((conn r w)\<lparr>status := SOCKET_CONNECTING\<rparr>, P, []))
    = Inr (E, (0, ([], [])), (k', P, [] @ [kOK])) \<and> status k' = SOCKET_CONNECTED"
    by (rule failed_connect_reported_ok [where ee = "\<lparr>ee_fd = 5, ee_events = EPOLLIN, ee_event = 9\<rparr>" and a = 0])
      (simp_all add: conn_def e log_ctx_def log_handler_def E_def with_events_def ex_epoll_def kInvalidFd_def)
  then show ?thesis by (intro exI [of _ E] exI [of _ r] exI [of _ w] exI [of _ P]) simp
qed

lemma client_write_not_marked_witness:
  "\<exists>m2. socket_write (log_ctx (loop_kernel False)) [1, 2, 3] m2 \<noteq> Inl Null_Deref
    \<and> (\<exists>m3. socket_write (log_ctx (loop_kernel False)) [1, 2, 3] m2 = Inr m3 \<and> sock_bufs m3 [] [1, 2, 3] \<and> poll m3 = poll m2)"
proof -
  obtain r P1 where r: "bl_new (pool_init buffer_new) = (r, P1)" by fastforce
  obtain w P2 where w: "bl_new P1 = (w, P2)" by fastforce
  define k where "k = \<lparr>sock_fd = 3, has_handler = True, has_poller = True, is_writable = False, read_list = r, write_list = w,
    status = SOCKET_INIT, sock_endpoint = endpoint_default, sock_type = CLIENT_SOCKET, handle = Null\<rparr>"
  let ?C = "log_ctx (loop_kernel False)"
  define m where "m = conn_world k P2 0 []"
  have c: "socket_client (loop_kernel False) endpoint_default True True (pool_init buffer_new) (0, ([], [])) = (k, P2, (0, ([], [])))"
    by (simp add: socket_client_def TcpSocket_def syscall_def loop_kernel_def setNonBlocking_def r w k_def
        endpoint_assign_def endpoint_default_def)
  have "connect_loop (loop_kernel False) (sock_endpoint k) (sock_fd k) (kenv m) = Some (None, (EINPROGRESS, ([], [])))"
    by (subst connect_loop.simps) (simp add: syscall_def loop_kernel_def m_def conn_world_def errno_defs)
  then have a: "ConnectAsync (net ?C) (sock_endpoint k) (sock_fd k) (kenv m) = Some (kOK, (EINPROGRESS, ([], [])))"
    by (simp add: ConnectAsync_def log_ctx_def)
  have "\<exists>h E. epoll_add quiet_epoll 3 9 (ex_epoll, (EINPROGRESS, ([] :: byte list, [] :: byte list))) = Inr (At h, E, (EINPROGRESS, ([], [])))"
    by (simp add: epoll_add_def ex_epoll_def heap_alloc_def quiet_epoll_def syscall_def Let_def)
  then obtain m1 where m1: "socket_connect ?C m = Inr m1"
    using a by (auto simp: socket_connect_def m_def conn_world_def k_def Let_def log_ctx_def)
  have b: "sock_bufs m [] []" using two_lists_new [OF bpool_wf_init r w] by (simp add: sock_bufs_def m_def conn_world_def k_def)
  have "\<exists>m3. socket_write ?C [1, 2, 3] (with_sock (status_update (\<lambda>_. SOCKET_CONNECTED)) m1) = Inr m3
    \<and> sock_bufs m3 [] ([] @ [1, 2, 3]) \<and> is_writable (sock m3) \<and> poll m3 = poll m1"
    by (rule client_write_not_marked [OF c _ b a m1]) (simp_all add: m_def conn_world_def)
  then show ?thesis by (intro exI [of _ "with_sock (status_update (\<lambda>_. SOCKET_CONNECTED)) m1"]) auto
qed

text \<open>A socket whose buffers are the blocks 0 and 1 of a pool of two.\<close>

definition small_list :: "addr \<Rightarrow> buffer_list" where
  "small_list a = \<lparr>read_inx = 0, write_inx = 0, head_ptr = At a, read_ptr = At a, write_ptr = At a, write_size = 0, read_size = 0\<rparr>"

definition small_pool :: bpool where
  "small_pool = \<lparr>store = \<lparr>cells = [0 \<mapsto> buffer_new, 1 \<mapsto> buffer_new], avail = [], brk = 2\<rparr>, free_list = []\<rparr>"

theorem socket_destructor_double_free_witness:
  "\<exists>m'. socket_destroy (log_ctx (loop_kernel False)) (conn_world (conn (small_list 0) (small_list 1)) small_pool 0 []) = Inr m'
    \<and> processRetired (poll m') = Inl Double_Free"
proof -
  let ?m = "conn_world (conn (small_list 0) (small_list 1)) small_pool 0 []"
  obtain m' where m': "socket_destroy (log_ctx (loop_kernel False)) ?m = Inr m'"
    by (simp add: socket_destroy_def socket_del_def socket_close_def conn_world_def conn_def log_ctx_def small_list_def
        small_pool_def epoll_del_def ex_epoll_def quiet_epoll_def loop_kernel_def syscall_def heap_get_def heap_put_def
        bl_destroy_def bl_destroy_loop.simps ptr_get_def pool_free_def ptr_upd_def buffer_new_def buffer_reset_def)
  have "handle (sock ?m) = At 0" by (simp add: conn_world_def conn_def)
  from socket_destructor_double_free [OF this m'] m' show ?thesis by blast
qed

end
