(* ===== verification/Rpc.thy ===== *)
theory Rpc
  imports Packet_Parser Sockets
begin

text \<open>
  \<open>src/rpc\<close>: the client side of a connection (\<open>RpcChannel\<close>), the server side (\<open>RpcSession\<close>,
  \<open>RpcService\<close>), and the bookkeeping they share. Messages and closures belong to protobuf and to
  the application: a message is what \<open>SerializeToString\<close> gives, a closure a number, and what
  parsing and running them does is part of \<open>rpc_api\<close>. The socket enters through the operations of
  the locale \<open>duplex\<close>, which a \<open>Socket\<close> provides.
\<close>

section \<open>Controllers, contexts, metas\<close>

record rpc_controller =
  ctl_call_guid :: u64
  ctl_channel_guid :: u64
  ctl_fail_reason :: "byte list"

definition controller_new :: rpc_controller where
  "controller_new = \<lparr>ctl_call_guid = 0, ctl_channel_guid = 0, ctl_fail_reason = []\<rparr>"

definition controller_init :: "u64 \<Rightarrow> u64 \<Rightarrow> rpc_controller \<Rightarrow> rpc_controller" where
  "controller_init channel_guid call_guid c = c\<lparr>ctl_channel_guid := channel_guid, ctl_call_guid := call_guid\<rparr>"

definition controller_set_failed :: "byte list \<Rightarrow> rpc_controller \<Rightarrow> rpc_controller" where
  "controller_set_failed reason c = c\<lparr>ctl_fail_reason := reason\<rparr>"

definition controller_failed :: "rpc_controller \<Rightarrow> bool" where
  "controller_failed c \<longleftrightarrow> False"

text \<open>\<open>RequestContext\<close>: where the response goes and what to run then.\<close>

record request_context =
  rc_controller :: addr
  rc_response :: addr
  rc_done :: "nat option"

text \<open>\<open>RpcMeta\<close>: a service and the full name of one of its methods.\<close>

record rpc_meta =
  meta_service :: nat
  meta_name :: "byte list"

section \<open>RpcService\<close>

type_synonym method_map = "u64 \<Rightarrow> rpc_meta option"

definition rpc_get_service :: "u64 \<Rightarrow> method_map \<Rightarrow> rpc_meta option" where
  "rpc_get_service i m = m i"

text \<open>The loop over the methods of a service, by their full names.\<close>

fun rpc_register :: "nat \<Rightarrow> byte list list \<Rightarrow> method_map \<Rightarrow> method_map res" where
  "rpc_register svc [] m = Inr m"
| "rpc_register svc (n # ns) m =
     bindR (guardR (m (HashString n) = None) Assert_Failed) (\<lambda>_.
     rpc_register svc ns (m(HashString n \<mapsto> \<lparr>meta_service = svc, meta_name = n\<rparr>)))"

section \<open>State of a channel\<close>

record ('s, 'w) channel =
  ch_parser :: parser
  ch_guid :: u64
  allocate_guid :: u64
  packet_queue :: "packet list"
  request_context :: "u64 \<Rightarrow> addr option"
  contexts :: "request_context heap"
  controllers :: "addr \<Rightarrow> rpc_controller"
  sk :: 's
  app :: 'w

text \<open>\<open>RpcSession\<close> has the same and its service.\<close>

record ('s, 'w) session = "('s, 'w) channel" +
  methods :: method_map
  last_read_time :: u64
  last_write_time :: u64

text \<open>
  What the code calls: the socket, the parsing of a response into its message, the closures, the
  parsing of a request, and the service, which answers through the closure it is given.
\<close>

record ('s, 'w, 'x) rpc_api =
  a_read :: "nat \<Rightarrow> 's \<Rightarrow> (byte list \<times> 's) res"
  a_size :: "'s \<Rightarrow> nat"
  a_write :: "byte list \<Rightarrow> 's \<Rightarrow> 's res"
  a_status :: "'s \<Rightarrow> socket_status"
  a_connect :: "'s \<Rightarrow> 's res"
  a_parse :: "addr \<Rightarrow> byte list \<Rightarrow> 'w \<Rightarrow> bool \<times> 'w"
  a_run :: "nat \<Rightarrow> ('s, 'w, 'x) channel_scheme \<Rightarrow> ('s, 'w, 'x) channel_scheme res"
  a_valid :: "rpc_meta \<Rightarrow> byte list \<Rightarrow> bool"
  a_call :: "rpc_meta \<Rightarrow> byte list \<Rightarrow> (byte list \<Rightarrow> ('s, 'w, 'x) channel_scheme \<Rightarrow> ('s, 'w, 'x) channel_scheme res)
    \<Rightarrow> ('s, 'w, 'x) channel_scheme \<Rightarrow> ('s, 'w, 'x) channel_scheme res"

definition channel_new :: "u64 \<Rightarrow> (addr \<Rightarrow> rpc_controller) \<Rightarrow> 's \<Rightarrow> 'w \<Rightarrow> ('s, 'w) channel" where
  "channel_new g ctl s w = \<lparr>ch_parser = parser_new, ch_guid = g, allocate_guid = 0, packet_queue = [],
     request_context = Map.empty, contexts = heap_empty, controllers = ctl, sk = s, app = w\<rparr>"

definition session_new :: "method_map \<Rightarrow> (addr \<Rightarrow> rpc_controller) \<Rightarrow> 's \<Rightarrow> 'w \<Rightarrow> ('s, 'w) session" where
  "session_new m ctl s w = channel.extend (channel_new 0 ctl s w) (session.fields m 0 0)"

section \<open>Calling a method\<close>

text \<open>\<open>allocateGuid\<close> and \<open>controller->Init\<close>; \<open>request_context_[call_guid] = new RequestContext (...)\<close>.\<close>

definition begin_call :: "addr \<Rightarrow> ('s, 'w, 'x) channel_scheme \<Rightarrow> u64 \<times> ('s, 'w, 'x) channel_scheme" where
  "begin_call ctl c =
     (let g = allocate_guid c + 1 in
      (g, c\<lparr>allocate_guid := g, controllers := (controllers c)(ctl := controller_init (ch_guid c) g (controllers c ctl))\<rparr>))"

definition add_context :: "u64 \<Rightarrow> addr \<Rightarrow> addr \<Rightarrow> nat option \<Rightarrow> ('s, 'w, 'x) channel_scheme \<Rightarrow> ('s, 'w, 'x) channel_scheme" where
  "add_context g ctl resp dn c =
     (let (a, h) = heap_alloc \<lparr>rc_controller = ctl, rc_response = resp, rc_done = dn\<rparr> (contexts c)
      in c\<lparr>contexts := h, request_context := (request_context c)(g \<mapsto> a)\<rparr>)"

definition push_request :: "byte list \<Rightarrow> byte list \<Rightarrow> addr \<Rightarrow> addr \<Rightarrow> nat option
    \<Rightarrow> ('s, 'w, 'x) channel_scheme \<Rightarrow> ('s, 'w, 'x) channel_scheme" where
  "push_request name req ctl resp dn c =
     (let (g, c) = begin_call ctl c in
      add_context g ctl resp dn (c\<lparr>packet_queue := packet_queue c @ [packet_new g (Some name) req]\<rparr>))"

text \<open>The part of \<open>CallMethod\<close> that a connected channel and a session share.\<close>

definition send_request :: "('s, 'w, 'x) rpc_api \<Rightarrow> byte list \<Rightarrow> byte list \<Rightarrow> addr \<Rightarrow> addr \<Rightarrow> nat option
    \<Rightarrow> ('s, 'w, 'x) channel_scheme \<Rightarrow> ('s, 'w, 'x) channel_scheme res" where
  "send_request A name req ctl resp dn c =
     (let (g, c) = begin_call ctl c; c = add_context g ctl resp dn c in
      bindR (send_packet (a_write A) (packet_new g (Some name) req) (sk c)) (\<lambda>s. Inr (c\<lparr>sk := s\<rparr>)))"

definition channel_call :: "('s, 'w, 'x) rpc_api \<Rightarrow> byte list \<Rightarrow> byte list \<Rightarrow> addr \<Rightarrow> addr \<Rightarrow> nat option
    \<Rightarrow> ('s, 'w, 'x) channel_scheme \<Rightarrow> ('s, 'w, 'x) channel_scheme res" where
  "channel_call A name req ctl resp dn c =
     (case a_status A (sk c) of
        SOCKET_CLOSED \<Rightarrow> Inr c
      | SOCKET_CONNECTED \<Rightarrow> send_request A name req ctl resp dn c
      | SOCKET_INIT \<Rightarrow>
          (let c = push_request name req ctl resp dn c in bindR (a_connect A (sk c)) (\<lambda>s. Inr (c\<lparr>sk := s\<rparr>)))
      | SOCKET_CONNECTING \<Rightarrow> Inr (push_request name req ctl resp dn c))"

definition session_call :: "('s, 'w, 'x) rpc_api \<Rightarrow> byte list \<Rightarrow> byte list \<Rightarrow> addr \<Rightarrow> addr \<Rightarrow> nat option
    \<Rightarrow> ('s, 'w, 'x) channel_scheme \<Rightarrow> ('s, 'w, 'x) channel_scheme res" where
  "session_call A name req ctl resp dn c =
     (if a_status A (sk c) = SOCKET_CLOSED then Inr c else send_request A name req ctl resp dn c)"

text \<open>\<open>OnConnect\<close>: the queue is sent when the connection stands.\<close>

fun send_queue :: "('s, 'w, 'x) rpc_api \<Rightarrow> packet list \<Rightarrow> ('s, 'w, 'x) channel_scheme \<Rightarrow> ('s, 'w, 'x) channel_scheme res" where
  "send_queue A [] c = Inr c"
| "send_queue A (p # ps) c =
     bindR (send_packet (a_write A) p (sk c)) (\<lambda>s. send_queue A ps (c\<lparr>sk := s, packet_queue := ps\<rparr>))"

definition channel_on_connect :: "('s, 'w, 'x) rpc_api \<Rightarrow> int \<Rightarrow> ('s, 'w, 'x) channel_scheme \<Rightarrow> ('s, 'w, 'x) channel_scheme res" where
  "channel_on_connect A err c = (if err = kOK then send_queue A (packet_queue c) c else Inr c)"

section \<open>Receiving responses\<close>

text \<open>\<open>RequestContext::Run\<close>.\<close>

definition run_context :: "('s, 'w, 'x) rpc_api \<Rightarrow> addr \<Rightarrow> ('s, 'w, 'x) channel_scheme \<Rightarrow> ('s, 'w, 'x) channel_scheme res" where
  "run_context A a c =
     bindR (heap_get a (contexts c)) (\<lambda>x.
     bindR (heap_put a (x\<lparr>rc_done := None\<rparr>) (contexts c)) (\<lambda>h.
     let c = c\<lparr>contexts := h\<rparr> in
     case rc_done x of None \<Rightarrow> Inr c | Some d \<Rightarrow> a_run A d c))"

text \<open>The body of the loop of \<open>RpcChannel::OnRead\<close>.\<close>

definition handle_response :: "('s, 'w, 'x) rpc_api \<Rightarrow> packet \<Rightarrow> ('s, 'w, 'x) channel_scheme \<Rightarrow> ('s, 'w, 'x) channel_scheme res" where
  "handle_response A p c =
     (if method_id p \<noteq> 0 then Inr c
      else
        case request_context c (guid p) of
          None \<Rightarrow> Inr c
        | Some a \<Rightarrow>
            bindR (heap_get a (contexts c)) (\<lambda>x.
            let (ret, w) = a_parse A (rc_response x) (content p) (app c);
                c = c\<lparr>app := w, request_context := (request_context c)(guid p := None)\<rparr>
            in bindR (if ret then run_context A a c else Inr c) (\<lambda>c.
               bindR (heap_free a (contexts c)) (\<lambda>h. Inr (c\<lparr>contexts := h\<rparr>)))))"

text \<open>\<open>while (parser_->RecvPacket ())\<close> around a body.\<close>

partial_function (option) read_loop :: "('s, 'w, 'x) rpc_api
    \<Rightarrow> (packet \<Rightarrow> ('s, 'w, 'x) channel_scheme \<Rightarrow> ('s, 'w, 'x) channel_scheme res)
    \<Rightarrow> ('s, 'w, 'x) channel_scheme \<Rightarrow> ('s, 'w, 'x) channel_scheme res option" where
  "read_loop A body c =
     (case recv_packet (a_read A) (a_size A) (ch_parser c) (sk c) of
        Inl f \<Rightarrow> Some (Inl f)
      | Inr (ok, r, s) \<Rightarrow>
          let c = c\<lparr>ch_parser := r, sk := s\<rparr> in
          if \<not> ok then Some (Inr c)
          else (case body (packet r) c of Inl f \<Rightarrow> Some (Inl f) | Inr c \<Rightarrow> read_loop A body c))"

definition channel_on_read :: "('s, 'w, 'x) rpc_api \<Rightarrow> ('s, 'w, 'x) channel_scheme \<Rightarrow> ('s, 'w, 'x) channel_scheme res" where
  "channel_on_read A c = loopR (read_loop A (handle_response A) c)"

section \<open>Serving requests\<close>

text \<open>\<open>onResponse\<close>: the closure a service runs with its response.\<close>

definition session_on_response :: "('s, 'w, 'x) rpc_api \<Rightarrow> u64 \<Rightarrow> byte list
    \<Rightarrow> ('s, 'w, 'x) channel_scheme \<Rightarrow> ('s, 'w, 'x) channel_scheme res" where
  "session_on_response A g response c =
     bindR (send_packet (a_write A) (packet_new g None response) (sk c)) (\<lambda>s. Inr (c\<lparr>sk := s\<rparr>))"

definition run_service :: "('s, 'w, 'x) rpc_api \<Rightarrow> method_map \<Rightarrow> packet \<Rightarrow> ('s, 'w, 'x) channel_scheme \<Rightarrow> ('s, 'w, 'x) channel_scheme res" where
  "run_service A m p c =
     (case rpc_get_service (method_id p) m of
        None \<Rightarrow> Inr c
      | Some meta \<Rightarrow>
          if \<not> a_valid A meta (content p) then Inr c
          else a_call A meta (content p) (session_on_response A (guid p)) c)"

text \<open>The body of the loop of \<open>RpcSession::OnRead\<close>; a context is run whatever the parsing gave, and not deleted.\<close>

definition session_packet :: "('s, 'w, 'x) rpc_api \<Rightarrow> method_map \<Rightarrow> packet \<Rightarrow> ('s, 'w, 'x) channel_scheme \<Rightarrow> ('s, 'w, 'x) channel_scheme res" where
  "session_packet A m p c =
     (if method_id p \<noteq> 0 then run_service A m p c
      else
        case request_context c (guid p) of
          None \<Rightarrow> Inr c
        | Some a \<Rightarrow>
            bindR (heap_get a (contexts c)) (\<lambda>x.
            let (ret, w) = a_parse A (rc_response x) (content p) (app c)
            in run_context A a (c\<lparr>app := w, request_context := (request_context c)(guid p := None)\<rparr>)))"

definition session_on_read :: "('s, 'w, ('x) session_ext) rpc_api \<Rightarrow> u64 \<Rightarrow> ('s, 'w, 'x) session_scheme \<Rightarrow> ('s, 'w, 'x) session_scheme res" where
  "session_on_read A current c =
     loopR (read_loop A (session_packet A (methods c)) (c\<lparr>last_read_time := current\<rparr>))"

definition session_on_write :: "u64 \<Rightarrow> ('s, 'w, 'x) session_scheme \<Rightarrow> ('s, 'w, 'x) session_scheme" where
  "session_on_write current c = c\<lparr>last_write_time := current\<rparr>"

section \<open>The socket as the channel sees it\<close>

text \<open>\<open>rep s i u\<close>: \<open>i\<close> can be read, \<open>u\<close> was written and not yet sent.\<close>

locale duplex =
  fixes rd :: "nat \<Rightarrow> 's \<Rightarrow> (byte list \<times> 's) res"
    and sz :: "'s \<Rightarrow> nat"
    and wr :: "byte list \<Rightarrow> 's \<Rightarrow> 's res"
    and rep :: "'s \<Rightarrow> byte list \<Rightarrow> byte list \<Rightarrow> bool"
  assumes dx_rd: "rep s i u \<Longrightarrow> \<exists>s'. rd n s = Inr (take n i, s') \<and> rep s' (drop n i) u"
    and dx_sz: "rep s i u \<Longrightarrow> sz s = length i"
    and dx_wr: "rep s i u \<Longrightarrow> length u + length d < 2 ^ 64 \<Longrightarrow> \<exists>s'. wr d s = Inr s' \<and> rep s' i (u @ d)"

sublocale duplex < inp: byte_source rd sz "\<lambda>s i. rep s i u" for u
  by unfold_locales (use dx_rd dx_sz in blast)+

sublocale duplex < out: byte_sink wr "\<lambda>s u. rep s i u" for i
  by unfold_locales (use dx_wr in blast)

definition online :: "('k, 'w) world \<Rightarrow> byte list \<Rightarrow> byte list \<Rightarrow> bool" where
  "online m i u \<longleftrightarrow> sock_ready m \<and> status (sock m) = SOCKET_CONNECTED \<and> sock_bufs m i u"

interpretation sock_duplex: duplex socket_read read_buffer_size "socket_write C" online for C
proof (unfold_locales, unfold online_def)
  fix m :: "('a, 'b) world" and i u :: "byte list" and n
  assume m: "sock_ready m \<and> status (sock m) = SOCKET_CONNECTED \<and> sock_bufs m i u"
  from socket_read_bufs [OF conjunct2 [OF conjunct2 [OF m]], of n]
  show "\<exists>m'. socket_read n m = Inr (take n i, m')
    \<and> sock_ready m' \<and> status (sock m') = SOCKET_CONNECTED \<and> sock_bufs m' (drop n i) u"
    using m by (elim exE conjE, intro exI conjI) (auto simp: sock_ready_def)
next
  fix m :: "('a, 'b) world" and i u :: "byte list"
  assume "sock_ready m \<and> status (sock m) = SOCKET_CONNECTED \<and> sock_bufs m i u"
  then show "read_buffer_size m = length i" using sock_bufs_sizes(1) by blast
next
  fix m :: "('a, 'b) world" and i u d :: "byte list"
  assume m: "sock_ready m \<and> status (sock m) = SOCKET_CONNECTED \<and> sock_bufs m i u" and l: "length u + length d < 2 ^ 64"
  from socket_write_bufs [OF conjunct2 [OF conjunct2 [OF m]] conjunct1 [OF m] l, of C]
  show "\<exists>m'. socket_write C d m = Inr m' \<and> sock_ready m' \<and> status (sock m') = SOCKET_CONNECTED \<and> sock_bufs m' i (u @ d)"
    using m by (auto simp: sock_ready_def same_conn_def)
qed

section \<open>One packet at a time\<close>

context byte_source begin

lemma next_packet:
  assumes rep: "rep s (encode p @ ys)" and ok: "packet_ok p" and st: "pstate r = RECV_HEADER_STATE"
  shows "\<exists>r' s'. recv_packet rd sz r s = Inr (True, r', s') \<and> packet r' = received p \<and> rep s' ys
    \<and> pstate r' = RECV_HEADER_STATE"
proof -
  have l: "\<not> sz s < kMetaSize" using sz_rep [OF rep] by simp
  have b: "rep s (header p @ content p @ ys)" using rep by (simp add: encode_def)
  obtain q s1 where q: "read_header rd ((packet r)\<lparr>recv_done := Some False\<rparr>) s = Inr (q, s1)" "header_of q p"
    "rep s1 (content p @ ys)"
    using read_header_rep [OF b] by blast
  have n: "unat (pkt_size q) = length (content p)" "magic q = kPacketMagicNum"
    using q(2) ok by (simp_all add: header_of_def packet_ok_def)
  obtain s2 where s2: "rd (length (content p)) s1 = Inr (content p, s2)" "rep s2 ys" using rd_exact [OF q(3)] by blast
  have "\<not> sz s1 < length (content p)" using sz_rep [OF q(3)] by simp
  then show ?thesis
    using l q(1) n s2 st header_of_content [OF q(2)]
    by (simp add: recv_packet_def recv_loop.simps Let_def overlay_def resize_def)
qed

lemma no_packet:
  assumes "rep s []" and "pstate r = RECV_HEADER_STATE"
  shows "recv_packet rd sz r s = Inr (False, r, s)"
  using assms sz_rep [OF assms(1)] by (simp add: recv_packet_def recv_loop.simps kMetaSize_def)

end

section \<open>Reading loops\<close>

context duplex begin

text \<open>
  A body that, for each of the packets \<open>qs\<close> in turn, turns an invariant \<open>J\<close> of the abstract state
  before into one of the abstract state \<open>f\<close> gives: then the loop refines the fold of \<open>f\<close>.
\<close>

text \<open>
  In the general case the bytes of the last packets have not all arrived: the loop runs its body on those
  that are complete, and stops where it cannot go on.
\<close>

lemma read_loop_partial:
  fixes c :: "('s, 'w, 'x) channel_scheme"
  assumes A: "a_read A = rd" "a_size A = sz"
    and body: "\<And>pre p post c i u. qs = pre @ p # post \<Longrightarrow> rep (sk c) i u \<Longrightarrow> J c (fold f pre x0) u
      \<Longrightarrow> \<exists>c' u'. body (received p) c = Inr c' \<and> rep (sk c') i u' \<and> J c' (f p (fold f pre x0)) u'
        \<and> ch_parser c' = ch_parser c"
    and J: "\<And>c x u r s. J c x u \<Longrightarrow> J (c\<lparr>ch_parser := r, sk := s\<rparr>) x u"
  shows "qs = pre @ ps \<Longrightarrow> rep (sk c) bs u \<Longrightarrow> pending (ch_parser c) bs fut ps \<Longrightarrow> J c (fold f pre x0) u
    \<Longrightarrow> \<exists>c' dn rest bs' u'. ps = dn @ rest \<and> read_loop A body c = Some (Inr c') \<and> rep (sk c') bs' u'
      \<and> J c' (fold f (pre @ dn) x0) u' \<and> pending (ch_parser c') bs' fut rest \<and> stalled (ch_parser c') bs'"
proof (induction ps arbitrary: pre c u bs)
  case Nil
  from inp.recv_loop_pending [OF Nil(2,3)] inp.pending_not_done [OF Nil(3)] obtain r s bs' where
    r: "recv_packet rd sz (ch_parser c) (sk c) = Inr (False, r, s)" "rep s bs' u" "pending r bs' fut []" "stalled r bs'"
    by (auto simp: recv_packet_def)
  have "read_loop A body c = Some (Inr (c\<lparr>ch_parser := r, sk := s\<rparr>))"
    using A r(1) by (subst read_loop.simps) simp
  then show ?case
    using r(2-4) J [OF Nil(4)] by (intro exI [of _ "c\<lparr>ch_parser := r, sk := s\<rparr>"] exI [of _ "[]"] exI [of _ "[] :: packet list"] exI [of _ bs'] exI [of _ u]) auto
next
  case (Cons p ps)
  from inp.recv_loop_pending [OF Cons.prems(2,3)] consider
    (full) r s bs1 where "recv_loop rd sz (ch_parser c) (sk c) = Inr (True, r, s)" "packet r = received p"
      "rep s bs1 u" "pending r bs1 fut ps"
  | (part) r s bs1 where "recv_loop rd sz (ch_parser c) (sk c) = Inr (False, r, s)" "rep s bs1 u"
      "pending r bs1 fut (p # ps)" "stalled r bs1"
    by blast
  then show ?case
  proof cases
    case full
    let ?c = "c\<lparr>ch_parser := r, sk := s\<rparr>"
    have "rep (sk ?c) bs1 u" "J ?c (fold f pre x0) u" using full(3) J [OF Cons.prems(4)] by simp_all
    from body [OF Cons.prems(1) this] obtain c1 u1 where b: "body (received p) ?c = Inr c1" "rep (sk c1) bs1 u1"
      "J c1 (f p (fold f pre x0)) u1" "ch_parser c1 = ch_parser ?c" by blast
    have run: "read_loop A body c = read_loop A body c1"
      using full(1,2) b(1) A inp.pending_not_done [OF Cons.prems(3)]
      by (subst read_loop.simps) (simp add: Let_def recv_packet_def)
    have h: "qs = (pre @ [p]) @ ps" "J c1 (fold f (pre @ [p]) x0) u1" "pending (ch_parser c1) bs1 fut ps"
      using Cons.prems(1) b(3,4) full(4) by simp_all
    from Cons.IH [OF h(1) b(2) h(3,2)] obtain c' dn rest bs' u' where
      "ps = dn @ rest" "read_loop A body c1 = Some (Inr c')" "rep (sk c') bs' u'"
      "J c' (fold f ((pre @ [p]) @ dn) x0) u'" "pending (ch_parser c') bs' fut rest" "stalled (ch_parser c') bs'" by blast
    then show ?thesis using run by (intro exI [of _ c'] exI [of _ "p # dn"] exI [of _ rest]) auto
  next
    case part
    have "read_loop A body c = Some (Inr (c\<lparr>ch_parser := r, sk := s\<rparr>))"
      using A part(1) inp.pending_not_done [OF Cons.prems(3)] by (subst read_loop.simps) (simp add: recv_packet_def)
    then show ?thesis
      using part(2-4) J [OF Cons.prems(4)]
      by (intro exI [of _ "c\<lparr>ch_parser := r, sk := s\<rparr>"] exI [of _ "[]"] exI [of _ "p # ps"] exI [of _ bs1] exI [of _ u]) auto
  qed
qed

lemma read_loop_refines:
  fixes c :: "('s, 'w, 'x) channel_scheme"
  assumes A: "a_read A = rd" "a_size A = sz"
    and body: "\<And>pre p post c i u. qs = pre @ p # post \<Longrightarrow> rep (sk c) i u \<Longrightarrow> J c (fold f pre x0) u
      \<Longrightarrow> \<exists>c' u'. body (received p) c = Inr c' \<and> rep (sk c') i u' \<and> J c' (f p (fold f pre x0)) u'
        \<and> ch_parser c' = ch_parser c"
    and J: "\<And>c x u r s. J c x u \<Longrightarrow> J (c\<lparr>ch_parser := r, sk := s\<rparr>) x u"
    and h: "qs = pre @ ps" "\<forall>p \<in> set ps. packet_ok p" "rep (sk c) (concat (map encode ps)) u" "J c (fold f pre x0) u"
      "pstate (ch_parser c) = RECV_HEADER_STATE"
  shows "\<exists>c' u'. read_loop A body c = Some (Inr c') \<and> rep (sk c') [] u' \<and> J c' (fold f qs x0) u'
      \<and> pstate (ch_parser c') = RECV_HEADER_STATE"
proof -
  have "pending (ch_parser c) (concat (map encode ps)) [] ps" using h(2,5) by (intro pending_headerI) auto
  note pe = this
  have "\<exists>c' dn rest bs' u'. ps = dn @ rest \<and> read_loop A body c = Some (Inr c') \<and> rep (sk c') bs' u'
      \<and> J c' (fold f (pre @ dn) x0) u' \<and> pending (ch_parser c') bs' [] rest \<and> stalled (ch_parser c') bs'"
    by (rule read_loop_partial [where qs = qs, OF A _ _ h(1,3) pe]) (fact body J h(4))+
  then obtain c' dn rest bs' u' where
    c': "ps = dn @ rest" "read_loop A body c = Some (Inr c')" "rep (sk c') bs' u'"
      "J c' (fold f (pre @ dn) x0) u'" "pending (ch_parser c') bs' [] rest" "stalled (ch_parser c') bs'" by (elim exE conjE)
  have e: "rest = []" "bs' = []" "pstate (ch_parser c') = RECV_HEADER_STATE" using pending_stalled_done [OF c'(5,6)] by blast+
  have "qs = pre @ dn" using h(1) c'(1) e(1) by simp
  then show ?thesis using c'(2-4) e(2,3) by blast
qed

end

section \<open>What the two ends promise\<close>

text \<open>The calls that wait for their response.\<close>

definition pend :: "('s, 'w, 'x) channel_scheme \<Rightarrow> u64 \<Rightarrow> request_context option" where
  "pend c g = (case request_context c g of None \<Rightarrow> None | Some a \<Rightarrow> cells (contexts c) a)"

definition chan_wf :: "('s, 'w, 'x) channel_scheme \<Rightarrow> bool" where
  "chan_wf c \<longleftrightarrow> heap_wf (contexts c) \<and> ran (request_context c) = dom (cells (contexts c))
     \<and> (\<forall>g h a. request_context c g = Some a \<and> request_context c h = Some a \<longrightarrow> g = h)
     \<and> (\<forall>g \<in> dom (request_context c). g \<le> allocate_guid c)"

text \<open>The response to a call: parsed into its message, then the closure runs (\<open>runf\<close>).\<close>

definition finish_call :: "('s, 'w, 'x) rpc_api \<Rightarrow> (nat \<Rightarrow> 'w \<Rightarrow> 'w) \<Rightarrow> request_context \<Rightarrow> byte list \<Rightarrow> 'w \<Rightarrow> 'w" where
  "finish_call A runf x bs w =
     (let (ok, w) = a_parse A (rc_response x) bs w in
      if ok then (case rc_done x of None \<Rightarrow> w | Some d \<Rightarrow> runf d w) else w)"

text \<open>A packet on the client side, abstractly.\<close>

definition client_step :: "('s, 'w, 'x) rpc_api \<Rightarrow> (nat \<Rightarrow> 'w \<Rightarrow> 'w) \<Rightarrow> packet
    \<Rightarrow> (u64 \<Rightarrow> request_context option) \<times> 'w \<Rightarrow> (u64 \<Rightarrow> request_context option) \<times> 'w" where
  "client_step A runf p = (\<lambda>(P, w).
     if method_id p \<noteq> 0 then (P, w)
     else case P (guid p) of None \<Rightarrow> (P, w) | Some x \<Rightarrow> (P(guid p := None), finish_call A runf x (content p) w))"

text \<open>And on the server side: the bytes of the answer, none for an unknown method or a bad request.\<close>

definition reply :: "('s, 'w, 'x) rpc_api \<Rightarrow> method_map \<Rightarrow> (rpc_meta \<Rightarrow> byte list \<Rightarrow> byte list) \<Rightarrow> packet \<Rightarrow> packet list" where
  "reply A m answer p =
     (if method_id p = 0 then []
      else case m (method_id p) of
        None \<Rightarrow> []
      | Some meta \<Rightarrow> if a_valid A meta (content p) then [packet_new (guid p) None (answer meta (content p))] else [])"

text \<open>Closures that leave the channel alone, and a service that answers at once.\<close>

definition runs_app :: "('s, 'w, 'x) rpc_api \<Rightarrow> (nat \<Rightarrow> 'w \<Rightarrow> 'w) \<Rightarrow> bool" where
  "runs_app A runf \<longleftrightarrow> (\<forall>d c. a_run A d c = Inr (c\<lparr>app := runf d (app c)\<rparr>))"

definition answers :: "('s, 'w, 'x) rpc_api \<Rightarrow> (rpc_meta \<Rightarrow> byte list \<Rightarrow> byte list) \<Rightarrow> bool" where
  "answers A answer \<longleftrightarrow> (\<forall>meta req k c. a_call A meta req k c = k (answer meta req) c)"

lemma chan_wf_pend:
  "chan_wf c \<Longrightarrow> request_context c g = Some a \<Longrightarrow> \<exists>x. cells (contexts c) a = Some x \<and> pend c g = Some x"
  unfolding chan_wf_def pend_def by (metis domD option.simps(5) ranI)

lemma parser_sk_update [simp]:
  "chan_wf (c\<lparr>ch_parser := r\<rparr>) = chan_wf c" "pend (c\<lparr>ch_parser := r\<rparr>) = pend c"
  "chan_wf (c\<lparr>sk := s\<rparr>) = chan_wf c" "pend (c\<lparr>sk := s\<rparr>) = pend c"
  by (auto simp: chan_wf_def pend_def fun_eq_iff split: option.splits)

lemma handle_response_step:
  assumes wf: "chan_wf c" and A: "runs_app A runf"
  shows "\<exists>c'. handle_response A (received p) c = Inr c' \<and> chan_wf c' \<and> sk c' = sk c \<and> ch_parser c' = ch_parser c
    \<and> allocate_guid c' = allocate_guid c \<and> packet_queue c' = packet_queue c
    \<and> (pend c', app c') = client_step A runf p (pend c, app c)"
proof (cases "method_id p \<noteq> 0 \<or> request_context c (guid p) = None")
  case True
  then have "handle_response A (received p) c = Inr c" by (auto simp: handle_response_def received_def)
  moreover have "client_step A runf p (pend c, app c) = (pend c, app c)"
    using True by (auto simp: client_step_def pend_def)
  ultimately show ?thesis using wf by simp
next
  case False
  then obtain a where a: "method_id p = 0" "request_context c (guid p) = Some a" by auto
  obtain x where x: "cells (contexts c) a = Some x" "pend c (guid p) = Some x" using chan_wf_pend [OF wf a(2)] by blast
  obtain ok w where w: "a_parse A (rc_response x) (content p) (app c) = (ok, w)" by fastforce
  have hwf: "heap_wf (contexts c)" using wf by (simp add: chan_wf_def)
  let ?h = "if ok then (contexts c)\<lparr>cells := (cells (contexts c))(a \<mapsto> x\<lparr>rc_done := None\<rparr>)\<rparr> else contexts c"
  have h: "heap_wf ?h" "\<exists>v. cells ?h a = Some v" using heap_put_wf [OF hwf x(1)] hwf x(1) by auto
  obtain h' where h': "heap_free a ?h = Inr h'" "heap_wf h'" "cells h' = (cells ?h)(a := None)"
    using heap_free_ok [OF h(1)] h(2) by blast
  have cells: "cells h' = (cells (contexts c))(a := None)" using h'(3) by (auto split: if_splits)
  define c' where "c' = c\<lparr>app := finish_call A runf x (content p) (app c),
    request_context := (request_context c)(guid p := None), contexts := h'\<rparr>"
  have "handle_response A (received p) c = Inr c'"
    using a x(1) w h'(1) A unfolding c'_def
    by (cases ok; cases "rc_done x")
      (auto simp: handle_response_def received_def run_context_def finish_call_def runs_app_def)
  moreover have only: "request_context c g = Some a \<longleftrightarrow> g = guid p" for g
    using wf a(2) unfolding chan_wf_def by blast
  have "ran ((request_context c)(guid p := None)) = ran (request_context c) - {a}"
  proof (intro set_eqI iffI)
    fix b assume "b \<in> ran (request_context c) - {a}"
    then obtain g where g: "request_context c g = Some b" "b \<noteq> a" by (auto simp: ran_def)
    then have "g \<noteq> guid p" using a(2) by auto
    then show "b \<in> ran ((request_context c)(guid p := None))" using g(1) by (auto simp: ran_def)
  qed (use only in \<open>auto simp: ran_def split: if_splits\<close>)
  then have "ran ((request_context c)(guid p := None)) = dom (cells (contexts c)) - {a}"
    using wf by (simp add: chan_wf_def)
  then have "chan_wf c'"
    using wf h'(2) cells by (auto simp: chan_wf_def c'_def split: if_splits)
  moreover have "pend c' = (pend c)(guid p := None)"
    using only by (auto simp: pend_def c'_def cells fun_eq_iff split: option.splits)
  ultimately show ?thesis using a(1) x(2) by (intro exI [of _ c']) (simp add: client_step_def c'_def)
qed

context duplex begin

lemma channel_on_read_partial:
  assumes api: "a_read A = rd" "a_size A = sz" "runs_app A runf" and wf: "chan_wf c"
    and b: "rep (sk c) bs u" and pe: "pending (ch_parser c) bs fut ps"
  shows "\<exists>c' dn rest bs'. ps = dn @ rest \<and> channel_on_read A c = Inr c' \<and> chan_wf c' \<and> rep (sk c') bs' u
    \<and> pending (ch_parser c') bs' fut rest \<and> stalled (ch_parser c') bs'
    \<and> allocate_guid c' = allocate_guid c \<and> packet_queue c' = packet_queue c
    \<and> (pend c', app c') = fold (client_step A runf) dn (pend c, app c)"
proof -
  let ?f = "client_step A runf"
  let ?J = "\<lambda>c2 x u'. chan_wf c2 \<and> allocate_guid c2 = allocate_guid c \<and> packet_queue c2 = packet_queue c \<and> (pend c2, app c2) = x \<and> u' = u"
  have J0: "?J c (fold ?f [] (pend c, app c)) u" using wf by simp
  have "\<exists>c' dn rest bs' u'. ps = dn @ rest \<and> read_loop A (handle_response A) c = Some (Inr c') \<and> rep (sk c') bs' u'
    \<and> ?J c' (fold ?f ([] @ dn) (pend c, app c)) u' \<and> pending (ch_parser c') bs' fut rest \<and> stalled (ch_parser c') bs'"
  proof (rule read_loop_partial [where qs = ps and pre = "[]" and J = ?J and f = ?f and ps = ps, OF api(1,2) _ _ _ b pe J0])
    fix pre p post and c2 :: "('s, 'a, 'b) channel_scheme" and i u2
    assume "rep (sk c2) i u2" and J: "?J c2 (fold ?f pre (pend c, app c)) u2"
    moreover obtain c' where "handle_response A (received p) c2 = Inr c'" "chan_wf c'" "sk c' = sk c2"
      "ch_parser c' = ch_parser c2" "allocate_guid c' = allocate_guid c2" "packet_queue c' = packet_queue c2"
      "(pend c', app c') = ?f p (pend c2, app c2)"
      using handle_response_step [OF _ api(3), of c2 p] J by blast
    ultimately show "\<exists>c' u'. handle_response A (received p) c2 = Inr c' \<and> rep (sk c') i u'
      \<and> ?J c' (?f p (fold ?f pre (pend c, app c))) u' \<and> ch_parser c' = ch_parser c2" by auto
  next
    fix c2 :: "('s, 'a, 'b) channel_scheme" and x u2 r s
    assume "?J c2 x u2"
    then show "?J (c2\<lparr>ch_parser := r, sk := s\<rparr>) x u2" by simp
  qed simp
  then obtain c' dn rest bs' u' where "ps = dn @ rest" "read_loop A (handle_response A) c = Some (Inr c')" "rep (sk c') bs' u'"
    "?J c' (fold ?f ([] @ dn) (pend c, app c)) u'" "pending (ch_parser c') bs' fut rest" "stalled (ch_parser c') bs'"
    by blast
  then show ?thesis
    by (intro exI [of _ c'] exI [of _ dn] exI [of _ rest] exI [of _ bs']) (simp add: channel_on_read_def)
qed

lemma channel_on_read_step:
  assumes api: "a_read A = rd" "a_size A = sz" "runs_app A runf" and wf: "chan_wf c"
    and ok: "\<forall>p \<in> set ps. packet_ok p" and b: "rep (sk c) (concat (map encode ps)) u"
    and st: "pstate (ch_parser c) = RECV_HEADER_STATE"
  shows "\<exists>c'. channel_on_read A c = Inr c' \<and> chan_wf c' \<and> rep (sk c') [] u
    \<and> (pend c', app c') = fold (client_step A runf) ps (pend c, app c)"
proof -
  have "pending (ch_parser c) (concat (map encode ps)) [] ps" using ok st by (intro pending_headerI) auto
  from channel_on_read_partial [OF api wf b this] obtain c' dn rest bs' where
    c': "ps = dn @ rest" "channel_on_read A c = Inr c'" "chan_wf c'" "rep (sk c') bs' u" "pending (ch_parser c') bs' [] rest"
      "stalled (ch_parser c') bs'" "(pend c', app c') = fold (client_step A runf) dn (pend c, app c)" by blast
  from pending_stalled_done [OF c'(5,6)] c' show ?thesis by auto
qed

lemma session_step:
  assumes api: "a_write A = wr" "answers A answer" and i: "rep (sk c) i u" and e: "request_context c = Map.empty"
    and len: "length u + length (concat (map encode (reply A m answer p))) < 2 ^ 64"
  shows "\<exists>s. session_packet A m (received p) c = Inr (c\<lparr>sk := s\<rparr>) \<and> rep s i (u @ concat (map encode (reply A m answer p)))"
proof (cases "reply A m answer p")
  case Nil
  then have "session_packet A m (received p) c = Inr c"
    using e by (auto simp: session_packet_def run_service_def rpc_get_service_def reply_def received_def
        split: if_splits option.splits)
  then show ?thesis using i Nil by (intro exI [of _ "sk c"]) simp
next
  case (Cons q qs)
  then obtain meta where m: "method_id p \<noteq> 0" "m (method_id p) = Some meta" "a_valid A meta (content p)"
    and q: "q = packet_new (guid p) None (answer meta (content p))" "qs = []"
    by (auto simp: reply_def split: if_splits option.splits)
  obtain s where "send_packet wr q (sk c) = Inr s" "rep s i (u @ encode q)"
    using out.send_packet_rep [OF i, of q] len Cons q(2) by auto
  then show ?thesis
    using m q Cons api
    by (auto simp: session_packet_def run_service_def rpc_get_service_def received_def answers_def session_on_response_def)
qed

lemma session_on_read_partial:
  fixes c :: "('s, 'w, 'x) session_scheme"
  assumes api: "a_read A = rd" "a_size A = sz" "a_write A = wr" "answers A answer" and e: "request_context c = Map.empty"
    and b: "rep (sk c) bs u" and pe: "pending (ch_parser c) bs fut ps"
    and len: "length u + length (concat (map encode (concat (map (reply A (methods c) answer) ps)))) < 2 ^ 64"
  shows "\<exists>c' dn rest bs'. ps = dn @ rest \<and> session_on_read A t c = Inr c'
    \<and> rep (sk c') bs' (u @ concat (map encode (concat (map (reply A (methods c) answer) dn))))
    \<and> pending (ch_parser c') bs' fut rest \<and> stalled (ch_parser c') bs'
    \<and> app c' = app c \<and> last_read_time c' = t \<and> request_context c' = Map.empty \<and> methods c' = methods c"
proof -
  let ?f = "\<lambda>p x. x @ reply A (methods c) answer p"
  have fold: "fold ?f qs x0 = x0 @ concat (map (reply A (methods c) answer) qs)" for qs x0
    by (induction qs arbitrary: x0) simp_all
  let ?J = "\<lambda>c2 x u'. u' = u @ concat (map encode x) \<and> request_context c2 = Map.empty \<and> app c2 = app c
    \<and> last_read_time c2 = t \<and> methods c2 = methods c"
  let ?c = "c\<lparr>last_read_time := t\<rparr>"
  have "rep (sk ?c) bs u" "pending (ch_parser ?c) bs fut ps" "?J ?c (fold ?f [] []) u" using b pe e by simp_all
  note h = this
  have "\<exists>c' dn rest bs' u'. ps = dn @ rest \<and> read_loop A (session_packet A (methods c)) ?c = Some (Inr c')
    \<and> rep (sk c') bs' u' \<and> ?J c' (fold ?f ([] @ dn) []) u' \<and> pending (ch_parser c') bs' fut rest \<and> stalled (ch_parser c') bs'"
  proof (rule read_loop_partial [where qs = ps and pre = "[]" and J = ?J and f = ?f and ps = ps, OF api(1,2) _ _ _ h])
    fix pre p post and c2 :: "('s, 'w, 'x) session_scheme" and i u2
    assume ps: "ps = pre @ p # post" and r: "rep (sk c2) i u2" and J: "?J c2 (fold ?f pre []) u2"
    have "length u2 + length (concat (map encode (reply A (methods c) answer p))) < 2 ^ 64"
      using len ps J unfolding fold by simp
    from session_step [OF api(3,4) r _ this] J obtain s where
      "session_packet A (methods c) (received p) c2 = Inr (c2\<lparr>sk := s\<rparr>)"
      "rep s i (u2 @ concat (map encode (reply A (methods c) answer p)))" by auto
    then show "\<exists>c' u'. session_packet A (methods c) (received p) c2 = Inr c' \<and> rep (sk c') i u'
      \<and> ?J c' (fold ?f pre [] @ reply A (methods c) answer p) u' \<and> ch_parser c' = ch_parser c2"
      using J by (intro exI [of _ "c2\<lparr>sk := s\<rparr>"]
          exI [of _ "u2 @ concat (map encode (reply A (methods c) answer p))"]) simp
  next
    fix c2 :: "('s, 'w, 'x) session_scheme" and x u2 r s
    assume "?J c2 x u2"
    then show "?J (c2\<lparr>ch_parser := r, sk := s\<rparr>) x u2" by auto
  qed simp
  then obtain c' dn rest bs' u' where c': "ps = dn @ rest" "read_loop A (session_packet A (methods c)) ?c = Some (Inr c')"
    "rep (sk c') bs' u'" "?J c' (fold ?f ([] @ dn) []) u'" "pending (ch_parser c') bs' fut rest" "stalled (ch_parser c') bs'"
    by blast
  have "session_on_read A t c = Inr c'" using c'(2) by (simp add: session_on_read_def)
  then show ?thesis
    using c' unfolding fold by (intro exI [of _ c'] exI [of _ dn] exI [of _ rest] exI [of _ bs']) simp
qed

lemma session_on_read_step:
  fixes c :: "('s, 'w, 'x) session_scheme"
  assumes api: "a_read A = rd" "a_size A = sz" "a_write A = wr" "answers A answer" and e: "request_context c = Map.empty"
    and ok: "\<forall>p \<in> set ps. packet_ok p" and b: "rep (sk c) (concat (map encode ps)) u"
    and st: "pstate (ch_parser c) = RECV_HEADER_STATE"
    and len: "length u + length (concat (map encode (concat (map (reply A (methods c) answer) ps)))) < 2 ^ 64"
  shows "\<exists>c'. session_on_read A t c = Inr c' \<and> rep (sk c') [] (u @ concat (map encode (concat (map (reply A (methods c) answer) ps))))
    \<and> app c' = app c \<and> last_read_time c' = t"
proof -
  have "pending (ch_parser c) (concat (map encode ps)) [] ps" using ok st by (intro pending_headerI) auto
  from session_on_read_partial [OF api e b this len, of t] obtain c' dn rest bs' where
    c': "ps = dn @ rest" "session_on_read A t c = Inr c'"
      "rep (sk c') bs' (u @ concat (map encode (concat (map (reply A (methods c) answer) dn))))"
      "pending (ch_parser c') bs' [] rest" "stalled (ch_parser c') bs'" "app c' = app c" "last_read_time c' = t" by blast
  from pending_stalled_done [OF c'(4,5)] c' show ?thesis by auto
qed

end

section \<open>Calls and their responses\<close>

record rpc_call =
  call_name :: "byte list"
  call_req :: "byte list"
  call_ctl :: addr
  call_resp :: addr
  call_done :: "nat option"

fun call_all :: "('s, 'w, 'x) rpc_api \<Rightarrow> rpc_call list \<Rightarrow> ('s, 'w, 'x) channel_scheme \<Rightarrow> ('s, 'w, 'x) channel_scheme res" where
  "call_all A [] c = Inr c"
| "call_all A (x # xs) c =
     bindR (channel_call A (call_name x) (call_req x) (call_ctl x) (call_resp x) (call_done x) c) (call_all A xs)"

fun call_ids :: "u64 \<Rightarrow> rpc_call list \<Rightarrow> u64 list" where
  "call_ids g [] = []"
| "call_ids g (x # xs) = (g + 1) # call_ids (g + 1) xs"

text \<open>The request packets, the contexts that wait, and the answers.\<close>

fun requests :: "u64 \<Rightarrow> rpc_call list \<Rightarrow> packet list" where
  "requests g [] = []"
| "requests g (x # xs) = packet_new (g + 1) (Some (call_name x)) (call_req x) # requests (g + 1) xs"

definition context_of :: "rpc_call \<Rightarrow> request_context" where
  "context_of x = \<lparr>rc_controller = call_ctl x, rc_response = call_resp x, rc_done = call_done x\<rparr>"

fun waiting :: "u64 \<Rightarrow> rpc_call list \<Rightarrow> (u64 \<Rightarrow> request_context option) \<Rightarrow> u64 \<Rightarrow> request_context option" where
  "waiting g [] P = P"
| "waiting g (x # xs) P = waiting (g + 1) xs (P(g + 1 \<mapsto> context_of x))"

fun responses :: "(rpc_call \<Rightarrow> byte list option) \<Rightarrow> u64 \<Rightarrow> rpc_call list \<Rightarrow> packet list" where
  "responses f g [] = []"
| "responses f g (x # xs) =
     (case f x of None \<Rightarrow> [] | Some bs \<Rightarrow> [packet_new (g + 1) None bs]) @ responses f (g + 1) xs"

text \<open>The calls that no answer completes, and what the answers do to the application.\<close>

fun left_over :: "(rpc_call \<Rightarrow> byte list option) \<Rightarrow> u64 \<Rightarrow> rpc_call list
    \<Rightarrow> (u64 \<Rightarrow> request_context option) \<Rightarrow> u64 \<Rightarrow> request_context option" where
  "left_over f g [] P = P"
| "left_over f g (x # xs) P = left_over f (g + 1) xs (case f x of None \<Rightarrow> P(g + 1 \<mapsto> context_of x) | Some bs \<Rightarrow> P)"

definition complete_call :: "('s, 'w, 'x) rpc_api \<Rightarrow> (nat \<Rightarrow> 'w \<Rightarrow> 'w) \<Rightarrow> (rpc_call \<Rightarrow> byte list option) \<Rightarrow> rpc_call \<Rightarrow> 'w \<Rightarrow> 'w" where
  "complete_call A runf f x w = (case f x of None \<Rightarrow> w | Some bs \<Rightarrow> finish_call A runf (context_of x) bs w)"

lemma unat_succ: "unat g + 1 < 2 ^ 64 \<Longrightarrow> unat (g + 1 :: u64) = unat g + 1"
  by (simp add: unat_word_ariths)

lemma u64_ovf: "unat (g :: u64) + 1 < 2 ^ 64 \<Longrightarrow> g \<noteq> -1"
  using unat_succ [of g] by (metis add.commute add.right_inverse add_eq_0_iff_both_eq_0 one_neq_zero unat_eq_0)

lemma call_ids_bound:
  "unat g + length xs < 2 ^ 64 \<Longrightarrow> i \<in> set (call_ids g xs) \<Longrightarrow> unat g < unat i"
proof (induction xs arbitrary: g)
  case (Cons x xs)
  then have s: "unat (g + 1) = unat g + 1" by (intro unat_succ) simp
  have "unat (g + 1) + length xs < 2 ^ 64" using Cons.prems(1) s by simp
  from Cons.IH [OF this] Cons.prems(2) s show ?case by auto
qed simp

lemma waiting_update:
  "h \<notin> set (call_ids g xs) \<Longrightarrow> waiting g xs (P(h := v)) = (waiting g xs P)(h := v)"
proof (induction xs arbitrary: g P)
  case (Cons x xs)
  have c: "P(h := v, g + 1 \<mapsto> context_of x) = (P(g + 1 \<mapsto> context_of x))(h := v)"
    by (rule fun_upd_twist) (use Cons.prems in simp)
  show ?case unfolding waiting.simps c by (rule Cons.IH) (use Cons.prems in simp)
qed simp

lemma responses_consume:
  "unat g + length xs < 2 ^ 64 \<Longrightarrow> (\<forall>i \<in> set (call_ids g xs). P i = None)
    \<Longrightarrow> fold (client_step A runf) (responses f g xs) (waiting g xs P, w)
      = (left_over f g xs P, fold (complete_call A runf f) xs w)"
proof (induction xs arbitrary: g P w)
  case (Cons x xs)
  let ?P = "P(g + 1 \<mapsto> context_of x)"
  have s: "unat (g + 1) = unat g + 1" using Cons.prems(1) by (intro unat_succ) simp
  then have b: "unat (g + 1) + length xs < 2 ^ 64" using Cons.prems(1) by simp
  have ni: "g + 1 \<notin> set (call_ids (g + 1) xs)" using call_ids_bound [OF b, of "g + 1"] by auto
  have free: "\<forall>i \<in> set (call_ids (g + 1) xs). P i = None" "\<forall>i \<in> set (call_ids (g + 1) xs). ?P i = None"
    using Cons.prems(2) ni by auto
  show ?case
  proof (cases "f x")
    case None
    with Cons.IH [OF b free(2)] show ?thesis by (simp add: complete_call_def del: fun_upd_apply)
  next
    case (Some bs)
    have w: "waiting (g + 1) xs ?P = (waiting (g + 1) xs P)(g + 1 \<mapsto> context_of x)"
      by (rule waiting_update [OF ni])
    have n: "P(g + 1 := None) = P" using Cons.prems(2) by (auto simp: fun_eq_iff)
    have "client_step A runf (packet_new (g + 1) None bs) (waiting (g + 1) xs ?P, w)
      = ((waiting (g + 1) xs P)(g + 1 := None), finish_call A runf (context_of x) bs w)"
      unfolding w by (simp add: client_step_def packet_new_def)
    also have "(waiting (g + 1) xs P)(g + 1 := None) = waiting (g + 1) xs P"
      unfolding waiting_update [OF ni, of P None, symmetric] n by (rule refl)
    finally have h: "client_step A runf (packet_new (g + 1) None bs) (waiting (g + 1) xs ?P, w)
      = (waiting (g + 1) xs P, complete_call A runf f x w)" unfolding complete_call_def Some option.case .
    show ?thesis using Cons.IH [OF b free(1), of "complete_call A runf f x w"] Some h
      by (simp del: fun_upd_apply)
  qed
qed simp

lemma responses_ok: "(\<And>x bs. f x = Some bs \<Longrightarrow> length bs < 2 ^ 32) \<Longrightarrow> \<forall>p \<in> set (responses f g xs). packet_ok p"
  by (induction xs arbitrary: g) (auto intro: packet_new_ok split: option.splits)

lemma requests_ok: "(\<forall>x \<in> set xs. length (call_req x) < 2 ^ 32) \<Longrightarrow> \<forall>p \<in> set (requests g xs). packet_ok p"
  by (induction xs arbitrary: g) (auto intro: packet_new_ok)

text \<open>What a session sends back for a call: nothing when the method is unknown or the request does not parse.\<close>

definition answer_of :: "('s, 'w, 'x) rpc_api \<Rightarrow> method_map \<Rightarrow> (rpc_meta \<Rightarrow> byte list \<Rightarrow> byte list) \<Rightarrow> rpc_call \<Rightarrow> byte list option" where
  "answer_of B m answer x =
     (if HashString (call_name x) = 0 then None
      else case m (HashString (call_name x)) of
        None \<Rightarrow> None
      | Some meta \<Rightarrow> if a_valid B meta (call_req x) then Some (answer meta (call_req x)) else None)"

lemma replies_responses:
  "concat (map (reply B m answer) (requests g xs)) = responses (answer_of B m answer) g xs"
  by (induction xs arbitrary: g) (auto simp: reply_def packet_new_def answer_of_def split: option.splits)

lemma begin_add:
  fixes c :: "('s, 'w, 'x) channel_scheme"
  assumes wf: "chan_wf c" and ovf: "allocate_guid c \<noteq> -1"
  defines "g \<equiv> allocate_guid c + 1"
  shows "\<exists>c'. add_context g (call_ctl x) (call_resp x) (call_done x) (snd (begin_call (call_ctl x) c)) = c'
    \<and> chan_wf c' \<and> sk c' = sk c \<and> ch_parser c' = ch_parser c \<and> app c' = app c \<and> allocate_guid c' = g
    \<and> pend c' = (pend c)(g \<mapsto> context_of x) \<and> packet_queue c' = packet_queue c"
proof -
  have lt: "allocate_guid c < g" unfolding g_def by (rule u64_less_succ [OF ovf])
  have hw: "heap_wf (contexts c)" using wf by (simp add: chan_wf_def)
  obtain a h where a: "heap_alloc (context_of x) (contexts c) = (a, h)" by fastforce
  have fresh: "cells (contexts c) a = None" and h: "heap_wf h" "cells h = (cells (contexts c))(a \<mapsto> context_of x)"
    using heap_alloc_fresh [OF hw a] heap_wf_alloc [OF hw a] heap_alloc_cells [OF a] by auto
  have gn: "request_context c g = None"
  proof (rule ccontr)
    assume "request_context c g \<noteq> None"
    then have "g \<le> allocate_guid c" using wf by (auto simp: chan_wf_def)
    then show False using lt by simp
  qed
  have an: "request_context c i \<noteq> Some a" for i using fresh wf by (auto simp: chan_wf_def ran_def)
  define c1 where "c1 = snd (begin_call (call_ctl x) c)"
  define c' where "c' = c1\<lparr>contexts := h, request_context := (request_context c1)(g \<mapsto> a)\<rparr>"
  have run: "add_context g (call_ctl x) (call_resp x) (call_done x) c1 = c'"
    using a by (simp add: add_context_def c'_def context_of_def c1_def begin_call_def Let_def)
  have f: "request_context c' = (request_context c)(g \<mapsto> a)" "contexts c' = h" "allocate_guid c' = g"
    by (simp_all add: c'_def c1_def begin_call_def Let_def g_def)
  have "ran ((request_context c)(g \<mapsto> a)) = insert a (ran (request_context c))" using gn by (simp add: ran_map_upd)
  moreover have "\<forall>i \<in> dom (request_context c). i \<le> g" using wf lt unfolding chan_wf_def by (meson less_imp_le order_trans)
  ultimately have "chan_wf c'" using wf h an unfolding chan_wf_def f by auto
  moreover have "pend c' = (pend c)(g \<mapsto> context_of x)"
    using an by (auto simp: pend_def f h fun_eq_iff split: option.splits)
  ultimately show ?thesis
    using run f unfolding c1_def [symmetric] by (intro exI [of _ c']) (simp add: c'_def c1_def begin_call_def Let_def)
qed

context duplex begin

lemma call_all_step:
  fixes c :: "('s, 'w, 'x) channel_scheme"
  assumes api: "a_write A = wr" and st: "\<And>s i u. rep s i u \<Longrightarrow> a_status A s = SOCKET_CONNECTED"
  shows "chan_wf c \<Longrightarrow> rep (sk c) i u \<Longrightarrow> unat (allocate_guid c) + length xs < 2 ^ 64
    \<Longrightarrow> length u + length (concat (map encode (requests (allocate_guid c) xs))) < 2 ^ 64
    \<Longrightarrow> \<exists>c'. call_all A xs c = Inr c' \<and> chan_wf c' \<and> rep (sk c') i (u @ concat (map encode (requests (allocate_guid c) xs)))
      \<and> pend c' = waiting (allocate_guid c) xs (pend c) \<and> app c' = app c \<and> ch_parser c' = ch_parser c
      \<and> allocate_guid c' = allocate_guid c + of_nat (length xs) \<and> packet_queue c' = packet_queue c"
proof (induction xs arbitrary: c u)
  case Nil
  then show ?case by simp
next
  case (Cons x xs)
  let ?g = "allocate_guid c + 1"
  have un: "unat ?g = unat (allocate_guid c) + 1" using Cons.prems(3) by (intro unat_succ) simp
  have ovf: "allocate_guid c \<noteq> -1" using Cons.prems(3) by (intro u64_ovf) simp
  obtain c1 where c1: "add_context ?g (call_ctl x) (call_resp x) (call_done x) (snd (begin_call (call_ctl x) c)) = c1"
    "chan_wf c1" "sk c1 = sk c" "ch_parser c1 = ch_parser c" "app c1 = app c" "allocate_guid c1 = ?g"
    "pend c1 = (pend c)(?g \<mapsto> context_of x)" "packet_queue c1 = packet_queue c"
    using begin_add [OF Cons.prems(1) ovf, of x] by blast
  let ?p = "packet_new ?g (Some (call_name x)) (call_req x)"
  have l: "length u + length (encode ?p) < 2 ^ 64" using Cons.prems(4) by (simp del: length_encode)
  obtain s where s: "send_packet wr ?p (sk c) = Inr s" "rep s i (u @ encode ?p)"
    using out.send_packet_rep [OF Cons.prems(2) l] by blast
  have "fst (begin_call (call_ctl x) c) = ?g" by (simp add: begin_call_def Let_def)
  then have run: "channel_call A (call_name x) (call_req x) (call_ctl x) (call_resp x) (call_done x) c = Inr (c1\<lparr>sk := s\<rparr>)"
    using st [OF Cons.prems(2)] c1(1,3) s(1) api
    by (simp add: channel_call_def send_request_def Let_def split_beta)
  let ?c = "c1\<lparr>sk := s\<rparr>"
  have "chan_wf ?c" "rep (sk ?c) i (u @ encode ?p)" "unat (allocate_guid ?c) + length xs < 2 ^ 64"
    "length (u @ encode ?p) + length (concat (map encode (requests (allocate_guid ?c) xs))) < 2 ^ 64"
    using c1(2,6) s(2) Cons.prems(3,4) un by (simp_all del: length_encode)
  note IH = Cons.IH [OF this]
  have f: "allocate_guid ?c = ?g" "app ?c = app c" "ch_parser ?c = ch_parser c" "packet_queue ?c = packet_queue c"
    "pend ?c = (pend c)(?g \<mapsto> context_of x)"
    using c1(4-6,8) trans [OF parser_sk_update(4) c1(7)] by (simp, simp, simp, simp, blast)
  from IH obtain c' where "call_all A xs ?c = Inr c'" "chan_wf c'"
    "rep (sk c') i ((u @ encode ?p) @ concat (map encode (requests ?g xs)))"
    "pend c' = waiting ?g xs ((pend c)(?g \<mapsto> context_of x))" "app c' = app c" "ch_parser c' = ch_parser c"
    "allocate_guid c' = ?g + of_nat (length xs)" "packet_queue c' = packet_queue c"
    unfolding f by blast
  then show ?case using run by (simp add: add.assoc)
qed

end

section \<open>Calls made before the connection stands\<close>

lemma add_context_queue:
  "add_context g ctl resp dn (c\<lparr>packet_queue := q\<rparr>) = (add_context g ctl resp dn c)\<lparr>packet_queue := q\<rparr>"
  "packet_queue (add_context g ctl resp dn c) = packet_queue c"
  by (simp_all add: add_context_def split_beta)

lemma queue_update [simp]:
  "chan_wf (c\<lparr>packet_queue := q\<rparr>) = chan_wf c" "pend (c\<lparr>packet_queue := q\<rparr>) = pend c"
  by (auto simp: chan_wf_def pend_def fun_eq_iff split: option.splits)

lemma push_request_step:
  assumes wf: "chan_wf c" and ovf: "allocate_guid c \<noteq> -1"
  shows "\<exists>c'. push_request (call_name x) (call_req x) (call_ctl x) (call_resp x) (call_done x) c = c' \<and> chan_wf c' \<and> sk c' = sk c
    \<and> ch_parser c' = ch_parser c \<and> app c' = app c \<and> allocate_guid c' = allocate_guid c + 1
    \<and> pend c' = (pend c)(allocate_guid c + 1 \<mapsto> context_of x)
    \<and> packet_queue c' = packet_queue c @ requests (allocate_guid c) [x]"
proof -
  let ?g = "allocate_guid c + 1"
  from begin_add [OF assms, of x] obtain c1 where
    c1: "add_context ?g (call_ctl x) (call_resp x) (call_done x) (snd (begin_call (call_ctl x) c)) = c1"
    "chan_wf c1" "sk c1 = sk c" "app c1 = app c" "allocate_guid c1 = ?g" "pend c1 = (pend c)(?g \<mapsto> context_of x)"
    "ch_parser c1 = ch_parser c"
    by blast
  have b: "fst (begin_call (call_ctl x) c) = ?g" "packet_queue (snd (begin_call (call_ctl x) c)) = packet_queue c"
    by (simp_all add: begin_call_def Let_def)
  have "push_request (call_name x) (call_req x) (call_ctl x) (call_resp x) (call_done x) c
    = c1\<lparr>packet_queue := packet_queue c @ requests (allocate_guid c) [x]\<rparr>"
    using c1(1) b by (simp add: push_request_def split_beta add_context_queue)
  moreover have "pend (c1\<lparr>packet_queue := packet_queue c @ requests (allocate_guid c) [x]\<rparr>) = (pend c)(?g \<mapsto> context_of x)"
    using trans [OF queue_update(2) c1(6)] .
  ultimately show ?thesis using c1(2-5,7) by (simp del: requests.simps)
qed

lemma call_all_queued:
  assumes st: "a_status A s = SOCKET_CONNECTING"
  shows "chan_wf c \<Longrightarrow> sk c = s \<Longrightarrow> unat (allocate_guid c) + length xs < 2 ^ 64
    \<Longrightarrow> \<exists>c'. call_all A xs c = Inr c' \<and> chan_wf c' \<and> sk c' = s \<and> pend c' = waiting (allocate_guid c) xs (pend c)
      \<and> app c' = app c \<and> packet_queue c' = packet_queue c @ requests (allocate_guid c) xs
      \<and> ch_parser c' = ch_parser c \<and> allocate_guid c' = allocate_guid c + of_nat (length xs)"
proof (induction xs arbitrary: c)
  case (Cons x xs)
  let ?g = "allocate_guid c + 1"
  have un: "unat ?g = unat (allocate_guid c) + 1" using Cons.prems(3) by (intro unat_succ) simp
  have "allocate_guid c \<noteq> -1" using Cons.prems(3) by (intro u64_ovf) simp
  from push_request_step [OF Cons.prems(1) this, of x] obtain c1 where
    c1: "push_request (call_name x) (call_req x) (call_ctl x) (call_resp x) (call_done x) c = c1"
    "chan_wf c1" "sk c1 = sk c" "app c1 = app c" "allocate_guid c1 = ?g" "pend c1 = (pend c)(?g \<mapsto> context_of x)"
    "ch_parser c1 = ch_parser c" "packet_queue c1 = packet_queue c @ requests (allocate_guid c) [x]" by blast
  have run: "channel_call A (call_name x) (call_req x) (call_ctl x) (call_resp x) (call_done x) c = Inr c1"
    using st c1(1) Cons.prems(2) by (simp add: channel_call_def)
  have "chan_wf c1" "sk c1 = s" "unat (allocate_guid c1) + length xs < 2 ^ 64"
    using c1 Cons.prems(2,3) un by simp_all
  from Cons.IH [OF this] show ?case unfolding call_all.simps run using c1(4-8) by (auto simp: add.assoc simp del: fun_upd_apply)
qed simp

context duplex begin

lemma send_queue_step:
  assumes "a_write A = wr"
  shows "rep (sk c) i u \<Longrightarrow> chan_wf c \<Longrightarrow> packet_queue c = ps \<Longrightarrow> length u + length (concat (map encode ps)) < 2 ^ 64
    \<Longrightarrow> \<exists>c'. send_queue A ps c = Inr c' \<and> rep (sk c') i (u @ concat (map encode ps)) \<and> chan_wf c' \<and> pend c' = pend c
      \<and> app c' = app c \<and> packet_queue c' = [] \<and> ch_parser c' = ch_parser c \<and> allocate_guid c' = allocate_guid c"
proof (induction ps arbitrary: c u)
  case (Cons p ps)
  have "length u + length (encode p) < 2 ^ 64" using Cons.prems(4) by (simp del: length_encode)
  then obtain s where s: "send_packet wr p (sk c) = Inr s" "rep s i (u @ encode p)"
    using out.send_packet_rep [OF Cons.prems(1)] by blast
  let ?c = "c\<lparr>sk := s, packet_queue := ps\<rparr>"
  have "rep (sk ?c) i (u @ encode p)" "chan_wf ?c" "packet_queue ?c = ps"
    "length (u @ encode p) + length (concat (map encode ps)) < 2 ^ 64"
    using s Cons.prems(2,4) by (simp_all del: length_encode)
  from Cons.IH [OF this] show ?case using s(1) assms by auto
qed simp

end

section \<open>Properties\<close>

text \<open>A channel or session on a \<open>Socket\<close>.\<close>

definition sock_api :: "('k, 'v) ctx \<Rightarrow> (addr \<Rightarrow> byte list \<Rightarrow> 'w \<Rightarrow> bool \<times> 'w)
    \<Rightarrow> (nat \<Rightarrow> (('k, 'v) world, 'w, 'x) channel_scheme \<Rightarrow> (('k, 'v) world, 'w, 'x) channel_scheme res)
    \<Rightarrow> (rpc_meta \<Rightarrow> byte list \<Rightarrow> bool)
    \<Rightarrow> (rpc_meta \<Rightarrow> byte list
        \<Rightarrow> (byte list \<Rightarrow> (('k, 'v) world, 'w, 'x) channel_scheme \<Rightarrow> (('k, 'v) world, 'w, 'x) channel_scheme res)
        \<Rightarrow> (('k, 'v) world, 'w, 'x) channel_scheme \<Rightarrow> (('k, 'v) world, 'w, 'x) channel_scheme res)
    \<Rightarrow> (('k, 'v) world, 'w, 'x) rpc_api" where
  "sock_api C parse run valid call =
     \<lparr>a_read = socket_read, a_size = read_buffer_size, a_write = socket_write C, a_status = (\<lambda>m. status (sock m)),
      a_connect = socket_connect C, a_parse = parse, a_run = run, a_valid = valid, a_call = call\<rparr>"

lemma sock_api_sel [simp]:
  "a_read (sock_api C parse run valid call) = socket_read" "a_size (sock_api C parse run valid call) = read_buffer_size"
  "a_write (sock_api C parse run valid call) = socket_write C"
  "a_status (sock_api C parse run valid call) = (\<lambda>m. status (sock m))"
  by (simp_all add: sock_api_def)

lemma online_status: "online m i u \<Longrightarrow> status (sock m) = SOCKET_CONNECTED"
  by (simp add: online_def)

text \<open>
  \<open>Register\<close> enters every method of a service under the hash of its full name and keeps the
  methods known before; it asserts exactly when a hash was taken, by an earlier method of the same
  service or by another service.
\<close>

lemma register_all_or_assert:
  "rpc_register svc ns m =
     (if distinct (map HashString ns) \<and> HashString ` set ns \<inter> dom m = {}
      then Inr (m ++ map_of (map (\<lambda>n. (HashString n, \<lparr>meta_service = svc, meta_name = n\<rparr>)) ns))
      else Inl Assert_Failed)"
proof (induction ns arbitrary: m)
  case (Cons n ns)
  show ?case
  proof (cases "m (HashString n) = None")
    case True
    let ?e = "\<lparr>meta_service = svc, meta_name = n\<rparr>"
    have d: "HashString ` set ns \<inter> dom (m(HashString n \<mapsto> ?e)) = {} \<and> distinct (map HashString ns)
      \<longleftrightarrow> distinct (map HashString (n # ns)) \<and> HashString ` set (n # ns) \<inter> dom m = {}" (is "?p \<longleftrightarrow> ?q")
      using True by auto
    have u: "HashString n \<notin> HashString ` set ns \<Longrightarrow> m(HashString n \<mapsto> ?e) ++ map_of (map (\<lambda>n. (HashString n, \<lparr>meta_service = svc, meta_name = n\<rparr>)) ns)
      = m ++ map_of (map (\<lambda>n. (HashString n, \<lparr>meta_service = svc, meta_name = n\<rparr>)) (n # ns))"
      by (rule map_add_upd_left [THEN trans]) (auto simp: dom_map_of_conv_image_fst image_image)
    have r: "rpc_register svc (n # ns) m = rpc_register svc ns (m(HashString n \<mapsto> ?e))"
      using True by (simp del: fun_upd_apply)
    show ?thesis
    proof (cases ?q)
      case q: True
      with d have p: "distinct (map HashString ns) \<and> HashString ` set ns \<inter> dom (m(HashString n \<mapsto> ?e)) = {}" by blast
      have "HashString n \<notin> HashString ` set ns" using q by simp
      from u [OF this] show ?thesis unfolding r Cons.IH if_P [OF q] if_P [OF p] by (rule arg_cong)
    next
      case q: False
      with d have "\<not> (distinct (map HashString ns) \<and> HashString ` set ns \<inter> dom (m(HashString n \<mapsto> ?e)) = {})" by blast
      then show ?thesis unfolding r Cons.IH if_not_P [OF q] by (rule if_not_P)
    qed
  qed (auto simp: dom_def)
qed simp

text \<open>
  C15. Refinement of the client: \<open>OnRead\<close> on a connected socket whose read buffer holds whole packets
  takes all of them, and its effect on the calls that wait and on the application is that of the
  packets one after the other: a response parses into the message of its call, runs its closure when
  that worked, and completes the call either way; a request, a response to an unknown call or a
  second response to the same one changes nothing. No context leaks or is used after it was deleted,
  and nothing is written.
\<close>

theorem channel_read_refines:
  assumes A: "A = sock_api C parse run valid call" and "runs_app A runf" and "chan_wf c" and "\<forall>p \<in> set ps. packet_ok p"
    and "online (sk c) (concat (map encode ps)) u" and "pstate (ch_parser c) = RECV_HEADER_STATE"
  shows "\<exists>c'. channel_on_read A c = Inr c' \<and> chan_wf c' \<and> online (sk c') [] u
    \<and> (pend c', app c') = fold (client_step A runf) ps (pend c, app c)"
  unfolding A
  by (rule sock_duplex.channel_on_read_step [OF sock_api_sel(1,2) assms(2-6) [unfolded A]])

text \<open>
  Refinement of the server: \<open>OnRead\<close> of a session that has no calls of its own under way takes
  every request from the read buffer and appends the responses to the write buffer in order, under
  the guids of the requests; a request for an unknown method, or one that does not parse, gets no
  response at all.
\<close>

lemma session_answers:
  assumes A: "A = sock_api C parse run valid call" and "answers A answer" and "request_context c = Map.empty"
    and "\<forall>p \<in> set ps. packet_ok p" and "online (sk c) (concat (map encode ps)) u"
    and "pstate (ch_parser c) = RECV_HEADER_STATE"
    and "length u + length (concat (map encode (concat (map (reply A (methods c) answer) ps)))) < 2 ^ 64"
  shows "\<exists>c'. session_on_read A t c = Inr c'
    \<and> online (sk c') [] (u @ concat (map encode (concat (map (reply A (methods c) answer) ps))))
    \<and> app c' = app c \<and> last_read_time c' = t"
  unfolding A
  by (rule sock_duplex.session_on_read_step [OF sock_api_sel(1,2,3) assms(2-7) [unfolded A]])

text \<open>
  Calls made while the connection is being set up wait in a queue, and \<open>OnConnect\<close> without an
  error writes their requests in order after what the socket's buffer held, leaving the queue empty
  and every call waiting for its response under its id.
\<close>

lemma queued_calls_are_sent:
  assumes A: "A = sock_api C parse run valid call" and "status (sock (sk c)) = SOCKET_CONNECTING" and "chan_wf c" and "unat (allocate_guid c) + length xs < 2 ^ 64"
    and "length u + length (concat (map encode (packet_queue c @ requests (allocate_guid c) xs))) < 2 ^ 64"
    and "online m i u"
  shows "\<exists>c1 c2. call_all A xs c = Inr c1 \<and> sk c1 = sk c
    \<and> channel_on_connect A kOK (c1\<lparr>sk := m\<rparr>) = Inr c2
    \<and> online (sk c2) i (u @ concat (map encode (packet_queue c @ requests (allocate_guid c) xs)))
    \<and> packet_queue c2 = [] \<and> pend c2 = waiting (allocate_guid c) xs (pend c) \<and> app c2 = app c"
proof -
  obtain c1 where c1: "call_all A xs c = Inr c1" "chan_wf c1" "sk c1 = sk c" "pend c1 = waiting (allocate_guid c) xs (pend c)"
    "app c1 = app c" "packet_queue c1 = packet_queue c @ requests (allocate_guid c) xs"
    using call_all_queued [of A "sk c" c xs] A assms(2-4) by auto
  have "online (sk (c1\<lparr>sk := m\<rparr>)) i u" "chan_wf (c1\<lparr>sk := m\<rparr>)" "packet_queue (c1\<lparr>sk := m\<rparr>) = packet_queue c1"
    "length u + length (concat (map encode (packet_queue c1))) < 2 ^ 64"
    using assms(5,6) c1(2,6) by simp_all
  from sock_duplex.send_queue_step [where A = A and C = C, OF _ this] A obtain c2 where
    "send_queue A (packet_queue c1) (c1\<lparr>sk := m\<rparr>) = Inr c2" "online (sk c2) i (u @ concat (map encode (packet_queue c1)))"
    "pend c2 = pend c1" "app c2 = app c1" "packet_queue c2 = []" by auto
  then show ?thesis using c1 by (auto simp: channel_on_connect_def)
qed

text \<open>
  C4. End to end: a client makes any calls, its bytes reach a session, what the session writes
  reaches the client. Then each call that the session can answer is completed with the response to
  its own request, in the order of the calls, and exactly the calls it cannot answer (an unknown
  method, a request that does not parse, a name whose hash is 0) still wait: nothing tells the
  caller.
\<close>

theorem rpc_round_trip:
  fixes c :: "(('k, 'v) world, 'w, 'x) channel_scheme" and e :: "(('l, 'v2) world, 'w2, 'y) session_scheme"
    and xs :: "rpc_call list"
  assumes A: "A = sock_api C parse run valid call" "runs_app A runf"
    and B: "B = sock_api D parse2 run2 valid2 call2" "answers B answer"
    and sizes: "\<forall>x \<in> set xs. length (call_req x) < 2 ^ 32" "\<forall>meta req. length (answer meta req) < 2 ^ 32"
    and c: "chan_wf c" "pstate (ch_parser c) = RECV_HEADER_STATE" "online (sk c) [] []"
      "unat (allocate_guid c) + length xs < 2 ^ 64"
    and e: "request_context e = Map.empty" "pstate (ch_parser e) = RECV_HEADER_STATE"
    and qs: "qs = requests (allocate_guid c) xs" "length (concat (map encode qs)) < 2 ^ 64"
    and rs: "rs = responses (answer_of B (methods e) answer) (allocate_guid c) xs" "length (concat (map encode rs)) < 2 ^ 64"
    and net: "online m1 (concat (map encode qs)) []" "online m2 (concat (map encode rs)) []"
  shows "\<exists>c1 e1 c2. call_all A xs c = Inr c1 \<and> online (sk c1) [] (concat (map encode qs))
    \<and> session_on_read B t (e\<lparr>sk := m1\<rparr>) = Inr e1 \<and> online (sk e1) [] (concat (map encode rs))
    \<and> channel_on_read A (c1\<lparr>sk := m2\<rparr>) = Inr c2 \<and> online (sk c2) [] []
    \<and> pend c2 = left_over (answer_of B (methods e) answer) (allocate_guid c) xs (pend c)
    \<and> app c2 = fold (complete_call A runf (answer_of B (methods e) answer)) xs (app c)"
proof -
  let ?g = "allocate_guid c" and ?f = "answer_of B (methods e) answer"
  have "length ([] :: byte list) + length (concat (map encode (requests ?g xs))) < 2 ^ 64" using qs by simp
  then obtain c1 where c1: "call_all A xs c = Inr c1" "chan_wf c1" "online (sk c1) [] (concat (map encode qs))"
    "pend c1 = waiting ?g xs (pend c)" "app c1 = app c" "ch_parser c1 = ch_parser c"
    using sock_duplex.call_all_step [where A = A and C = C and c = c and xs = xs and i = "[]" and u = "[]", OF _ _ c(1,3,4)]
      A(1) qs(1) online_status by auto
  have r: "concat (map (reply B (methods e) answer) qs) = rs" unfolding qs(1) rs(1) by (rule replies_responses)
  have "\<exists>e1. session_on_read B t (e\<lparr>sk := m1\<rparr>) = Inr e1
    \<and> online (sk e1) [] ([] @ concat (map encode (concat (map (reply B (methods (e\<lparr>sk := m1\<rparr>)) answer) qs))))
    \<and> app e1 = app (e\<lparr>sk := m1\<rparr>) \<and> last_read_time e1 = t"
    by (rule sock_duplex.session_on_read_step [where C = D]) (use B e net(1) rs(2) r requests_ok [OF sizes(1)] qs(1) in simp_all)
  then obtain e1 where e1: "session_on_read B t (e\<lparr>sk := m1\<rparr>) = Inr e1" "online (sk e1) [] (concat (map encode rs))"
    using r by auto
  have ok: "\<forall>p \<in> set rs. packet_ok p"
    unfolding rs(1) by (rule responses_ok) (use sizes(2) in \<open>auto simp: answer_of_def split: if_splits option.splits\<close>)
  have "\<exists>c2. channel_on_read A (c1\<lparr>sk := m2\<rparr>) = Inr c2 \<and> chan_wf c2 \<and> online (sk c2) [] []
    \<and> (pend c2, app c2) = fold (client_step A runf) rs (pend (c1\<lparr>sk := m2\<rparr>), app (c1\<lparr>sk := m2\<rparr>))"
    by (rule sock_duplex.channel_on_read_step) (use A c1 c(2) net(2) ok in simp_all)
  then obtain c2 where c2: "channel_on_read A (c1\<lparr>sk := m2\<rparr>) = Inr c2" "online (sk c2) [] []"
    "(pend c2, app c2) = fold (client_step A runf) rs (waiting ?g xs (pend c), app c)"
    using c1(4,5) by auto
  have "\<forall>i \<in> set (call_ids ?g xs). pend c i = None"
    using call_ids_bound [OF c(4)] c(1) unfolding chan_wf_def pend_def
    by (metis domI leD option.case(1) option.exhaust word_less_nat_alt)
  from responses_consume [OF c(4) this] have
    "(pend c2, app c2) = (left_over ?f ?g xs (pend c), fold (complete_call A runf ?f) xs (app c))"
    unfolding c2(3) rs(1) .
  then show ?thesis using c1 e1 c2 by auto
qed

section \<open>Witnesses\<close>

text \<open>A service that answers with the request reversed; an application that notes messages and closures.\<close>

type_synonym demo_world = "(byte list \<times> byte list, int list) world"

definition demo_api :: "(demo_world, (nat \<times> byte list) list, 'x) rpc_api" where
  "demo_api = sock_api (log_ctx (loop_kernel False)) (\<lambda>a bs w. (True, w @ [(a, bs)]))
     (\<lambda>d c. Inr (c\<lparr>app := app c @ [(d, [])]\<rparr>)) (\<lambda>meta req. req \<noteq> [])
     (\<lambda>meta req k c. k (rev (take 100 req)) c)"

definition demo_run :: "nat \<Rightarrow> (nat \<times> byte list) list \<Rightarrow> (nat \<times> byte list) list" where
  "demo_run d w = w @ [(d, [])]"

definition demo_answer :: "rpc_meta \<Rightarrow> byte list \<Rightarrow> byte list" where
  "demo_answer meta req = rev (take 100 req)"

definition demo_calls :: "rpc_call list" where
  "demo_calls = [\<lparr>call_name = [101], call_req = [1, 2], call_ctl = 0, call_resp = 3, call_done = Some 5\<rparr>,
     \<lparr>call_name = [120], call_req = [7], call_ctl = 0, call_resp = 4, call_done = Some 6\<rparr>]"

definition demo_methods :: method_map where
  "demo_methods = [HashString [101] \<mapsto> \<lparr>meta_service = 7, meta_name = [101]\<rparr>]"

lemma demo_hashes: "HashString [101] \<noteq> 0" "HashString [120] \<noteq> 0" "HashString [120] \<noteq> HashString [101]"
  by code_simp+

lemma demo_runs: "runs_app demo_api demo_run"
  by (simp add: runs_app_def demo_api_def sock_api_def demo_run_def)

lemma demo_answers: "answers demo_api demo_answer"
  by (simp add: answers_def demo_api_def sock_api_def demo_answer_def)

lemma online_new: "length i < 2 ^ 64 \<Longrightarrow> \<exists>m :: demo_world. online m i []"
proof -
  assume l: "length i < 2 ^ 64"
  obtain r w P where t: "two_lists P r w [] []" using fresh_conn by blast
  obtain r' P' where "two_lists P' r' w i []"
  proof -
    obtain A B where ab: "bl_owned A (r, P) []" using t unfolding two_lists_def by blast
    from bl_owned_write [OF this, of i] l obtain l' P' where
      w: "bl_write i r P = Inr (length i, l', P')" by auto
    have "two_lists P' l' w i []"
    proof (rule two_lists_first [OF t])
      fix A assume "bl_owned A (r, P) []"
      from bl_owned_write [OF this, of i] l w show "\<exists>A'. bl_owned A' (l', P') i \<and> moved A P A' P'" by auto
    qed
    then show thesis by (rule that)
  qed
  then have "online (conn_world (conn r' w) P' 0 []) i []"
    by (simp add: online_def sock_ready_def sock_bufs_def conn_world_def conn_def)
  then show ?thesis by blast
qed

lemma channel_new_wf [simp]: "chan_wf (channel_new g ctl s w)" "pend (channel_new g ctl s w) = Map.empty"
  "sk (channel_new g ctl s w) = s" "app (channel_new g ctl s w) = w" "allocate_guid (channel_new g ctl s w) = 0"
  "pstate (ch_parser (channel_new g ctl s w)) = RECV_HEADER_STATE" "packet_queue (channel_new g ctl s w) = []"
  by (auto simp: channel_new_def chan_wf_def pend_def parser_new_def heap_empty_def heap_wf_def)

lemma session_new_sel [simp]: "request_context (session_new m ctl s w) = Map.empty"
  "pstate (ch_parser (session_new m ctl s w)) = RECV_HEADER_STATE" "methods (session_new m ctl s w) = m"
  "sk (session_new m ctl s w) = s" "app (session_new m ctl s w) = w"
  by (simp_all add: session_new_def channel_new_def parser_new_def channel.defs session.defs)

lemma demo_call_bytes: "length (concat (map encode (requests 0 demo_calls))) = 45"
  by (simp add: demo_calls_def packet_new_def kMetaSize_def)

lemma demo_answered: "answer_of demo_api demo_methods demo_answer x =
    (if HashString (call_name x) = HashString [101] \<and> call_req x \<noteq> [] then Some (rev (take 100 (call_req x))) else None)"
  using demo_hashes by (auto simp: answer_of_def demo_methods_def demo_api_def sock_api_def demo_answer_def)

lemma demo_responses: "responses (answer_of demo_api demo_methods demo_answer) 0 demo_calls = [packet_new 1 None [2, 1]]"
  using demo_hashes by (simp add: demo_answered demo_calls_def)

lemma demo_bounds: "\<forall>meta req. length (demo_answer meta req) < 2 ^ 32" "\<forall>x \<in> set demo_calls. length (call_req x) < 2 ^ 32"
  by (auto simp: demo_answer_def demo_calls_def)

lemma demo_left_over: "left_over (answer_of demo_api demo_methods demo_answer) 0 demo_calls Map.empty = [2 \<mapsto> context_of (demo_calls ! 1)]"
  using demo_hashes by (simp add: demo_answered demo_calls_def)

lemma demo_finish: "finish_call demo_api demo_run x bs w
    = w @ [(rc_response x, bs)] @ (case rc_done x of None \<Rightarrow> [] | Some d \<Rightarrow> [(d, [])])"
  by (simp add: finish_call_def demo_run_def demo_api_def sock_api_def split: option.splits)

lemma demo_effect: "fold (complete_call demo_api demo_run (answer_of demo_api demo_methods demo_answer)) demo_calls []
    = [(3, [2, 1]), (5, [])]"
  using demo_hashes
  by (simp add: complete_call_def demo_answered demo_calls_def demo_finish context_of_def)

theorem rpc_round_trip_witness:
  "\<exists>m0 m1 m2 c1 e1 c2. call_all demo_api demo_calls (channel_new 9 (\<lambda>_. controller_new) m0 []) = Inr c1
    \<and> session_on_read demo_api 77 ((session_new demo_methods (\<lambda>_. controller_new) m1 [])\<lparr>sk := m1\<rparr>) = Inr e1
    \<and> channel_on_read demo_api (c1\<lparr>sk := m2\<rparr>) = Inr c2
    \<and> pend c2 = [2 \<mapsto> context_of (demo_calls ! 1)] \<and> app c2 = [(3, [2, 1]), (5, [])]"
proof -
  let ?qs = "requests 0 demo_calls" and ?rs = "[packet_new 1 None [2, 1]]"
  have "length ([] :: byte list) < 2 ^ 64" "length (concat (map encode ?qs)) < 2 ^ 64"
    "length (concat (map encode ?rs)) < 2 ^ 64"
    unfolding demo_call_bytes by (simp_all add: kMetaSize_def packet_new_def)
  then obtain m0 m1 m2 :: demo_world where m: "online m0 [] []" "online m1 (concat (map encode ?qs)) []"
    "online m2 (concat (map encode ?rs)) []" using online_new by metis
  let ?A = "demo_api :: (demo_world, (nat \<times> byte list) list, unit) rpc_api"
    and ?B = "demo_api :: (demo_world, (nat \<times> byte list) list, unit session_ext) rpc_api"
  let ?c = "channel_new 9 (\<lambda>_. controller_new) m0 ([] :: (nat \<times> byte list) list)"
    and ?e = "session_new demo_methods (\<lambda>_. controller_new) m1 ([] :: (nat \<times> byte list) list)"
  have "\<exists>c1 e1 c2. call_all demo_api demo_calls ?c = Inr c1 \<and> online (sk c1) [] (concat (map encode ?qs))
    \<and> session_on_read demo_api 77 (?e\<lparr>sk := m1\<rparr>) = Inr e1 \<and> online (sk e1) [] (concat (map encode ?rs))
    \<and> channel_on_read demo_api (c1\<lparr>sk := m2\<rparr>) = Inr c2 \<and> online (sk c2) [] []
    \<and> pend c2 = left_over (answer_of ?B (methods ?e) demo_answer) (allocate_guid ?c) demo_calls (pend ?c)
    \<and> app c2 = fold (complete_call ?A demo_run (answer_of ?B (methods ?e) demo_answer)) demo_calls (app ?c)"
    by (rule rpc_round_trip [OF demo_api_def demo_runs demo_api_def demo_answers demo_bounds(2,1)])
      (use m in \<open>simp_all add: demo_responses demo_call_bytes\<close>, simp_all add: demo_calls_def kMetaSize_def packet_new_def)
  note r = this [unfolded session_new_sel channel_new_wf demo_left_over demo_effect]
  from r show ?thesis by blast
qed

text \<open>The same response twice and a stray request: the call is completed once.\<close>

theorem channel_read_refines_witness:
  "\<exists>c c' :: (demo_world, (nat \<times> byte list) list) channel. pend c = [1 \<mapsto> \<lparr>rc_controller = 0, rc_response = 3, rc_done = Some 5\<rparr>]
    \<and> channel_on_read demo_api c = Inr c' \<and> pend c' = Map.empty \<and> app c' = [(3, [8]), (5, [])]"
proof -
  let ?A = "demo_api :: (demo_world, (nat \<times> byte list) list, unit) rpc_api"
  let ?ps = "[packet_new 1 None [8], packet_new 1 None [9], packet_new 1 (Some [101]) [9]]"
  have "length (concat (map encode ?ps)) < 2 ^ 64" by (simp add: kMetaSize_def packet_new_def)
  then obtain m :: demo_world where m: "online m (concat (map encode ?ps)) []" using online_new by blast
  let ?x = "\<lparr>rc_controller = 0, rc_response = 3, rc_done = Some 5\<rparr>"
  let ?c0 = "channel_new 9 (\<lambda>_. controller_new) m ([] :: (nat \<times> byte list) list)"
  let ?y = "\<lparr>call_name = [], call_req = [], call_ctl = 0, call_resp = 3, call_done = Some 5\<rparr>"
  have y: "context_of ?y = ?x" by (simp add: context_of_def)
  define c where "c = add_context (allocate_guid ?c0 + 1) 0 3 (Some 5) (snd (begin_call 0 ?c0))"
  have c: "chan_wf c" "sk c = m" "ch_parser c = ch_parser ?c0" "app c = []" "pend c = [1 \<mapsto> ?x]"
    using begin_add [of ?c0 ?y] unfolding y by (simp_all add: c_def)
  have "\<exists>c'. channel_on_read demo_api c = Inr c' \<and> chan_wf c' \<and> online (sk c') [] []
    \<and> (pend c', app c') = fold (client_step ?A demo_run) ?ps (pend c, app c)"
    by (rule channel_read_refines [OF demo_api_def demo_runs c(1)])
      (use c m in \<open>auto intro: packet_new_ok simp: channel_new_wf\<close>)
  then obtain c' where c': "channel_on_read demo_api c = Inr c'"
    "(pend c', app c') = fold (client_step ?A demo_run) ?ps ([1 \<mapsto> ?x], [])" using c(4,5) by auto
  have "fold (client_step ?A demo_run) ?ps ([1 \<mapsto> ?x], []) = (Map.empty, [(3, [8]), (5, [])])"
    using demo_hashes
    by (simp add: client_step_def packet_new_def demo_finish fun_eq_iff)
  with c' c show ?thesis by (intro exI [of _ c] exI [of _ c']) auto
qed

text \<open>A request for a known method, one for an unknown method, one that does not parse.\<close>

lemma session_answers_witness:
  "\<exists>m1 e1. session_on_read demo_api 77 (session_new demo_methods (\<lambda>_. controller_new) m1 ([] :: (nat \<times> byte list) list)) = Inr e1
    \<and> online m1 (concat (map encode [packet_new 1 (Some [101]) [1, 2], packet_new 2 (Some [120]) [3], packet_new 3 (Some [101]) []])) []
    \<and> online (sk e1) [] (encode (packet_new 1 None [2, 1]))"
proof -
  let ?ps = "[packet_new 1 (Some [101]) [1, 2], packet_new 2 (Some [120]) [3], packet_new 3 (Some [101]) []]"
  let ?B = "demo_api :: (demo_world, (nat \<times> byte list) list, unit session_ext) rpc_api"
  have "length (concat (map encode ?ps)) < 2 ^ 64" by (simp add: kMetaSize_def packet_new_def)
  then obtain m :: demo_world where m: "online m (concat (map encode ?ps)) []" using online_new by blast
  let ?e = "session_new demo_methods (\<lambda>_. controller_new) m ([] :: (nat \<times> byte list) list)"
  have r: "concat (map (reply ?B demo_methods demo_answer) ?ps) = [packet_new 1 None [2, 1]]"
    using demo_hashes by (simp add: reply_def packet_new_def demo_methods_def demo_api_def sock_api_def demo_answer_def)
  have "\<exists>e1. session_on_read demo_api 77 ?e = Inr e1
    \<and> online (sk e1) [] ([] @ concat (map encode (concat (map (reply ?B (methods ?e) demo_answer) ?ps))))
    \<and> app e1 = app ?e \<and> last_read_time e1 = 77"
    by (rule session_answers [OF demo_api_def demo_answers])
      (use m in \<open>simp_all only: session_new_sel r, auto intro: packet_new_ok simp: kMetaSize_def\<close>, simp add: packet_new_def)
  then show ?thesis using m unfolding session_new_sel r by auto
qed

lemma queued_calls_are_sent_witness:
  "\<exists>m0 m c1 c2. call_all demo_api demo_calls (channel_new 9 (\<lambda>_. controller_new) m0 ([] :: (nat \<times> byte list) list)) = Inr c1
    \<and> sk c1 = m0 \<and> channel_on_connect demo_api kOK (c1\<lparr>sk := m\<rparr>) = Inr c2
    \<and> online (sk c2) [] (concat (map encode (requests 0 demo_calls))) \<and> packet_queue c2 = []"
proof -
  obtain m :: demo_world where m: "online m [] []" using online_new [of "[]"] by auto
  let ?m0 = "m\<lparr>sock := (sock m)\<lparr>status := SOCKET_CONNECTING\<rparr>\<rparr>"
  let ?c = "channel_new 9 (\<lambda>_. controller_new) ?m0 ([] :: (nat \<times> byte list) list)"
  have "\<exists>c1 c2. call_all demo_api demo_calls ?c = Inr c1 \<and> sk c1 = sk ?c
    \<and> channel_on_connect demo_api kOK (c1\<lparr>sk := m\<rparr>) = Inr c2
    \<and> online (sk c2) [] ([] @ concat (map encode (packet_queue ?c @ requests (allocate_guid ?c) demo_calls)))
    \<and> packet_queue c2 = [] \<and> pend c2 = waiting (allocate_guid ?c) demo_calls (pend ?c) \<and> app c2 = app ?c"
    by (rule queued_calls_are_sent [OF demo_api_def]) (use m in \<open>simp_all add: demo_call_bytes\<close>, simp add: demo_calls_def)
  then show ?thesis unfolding channel_new_wf append_Nil by blast
qed

end
