(* ===== verification/Server.thy ===== *)
theory Server
  imports Rpc
begin

text \<open>
  A connection of a server, from \<open>OnAccept\<close> of \<open>src/rpc/rpc_service.cc\<close> on: the \<open>RpcSession\<close>
  (\<open>rpc_session.cc\<close>, \<open>core/session.h\<close>) is the handler of its own socket, and the event loop calls
  \<open>In\<close> and \<open>Out\<close> of that socket while bytes arrive in pieces of any size.
\<close>

section \<open>A session as the handler of its socket\<close>

text \<open>
  \<open>RpcSession\<close> reaches the socket through \<open>socket_\<close>, and the socket the session through \<open>handler_\<close>. In a
  world of sockets the session is \<open>others\<close>, without the socket; in a session the socket is \<open>sk\<close>.
\<close>

type_synonym ('k, 'w) conn = "('k, (unit, 'w) session) world"

definition plug :: "'s \<Rightarrow> ('r, 'w) session \<Rightarrow> ('s, 'w) session" where
  "plug s c = \<lparr>ch_parser = ch_parser c, ch_guid = ch_guid c, allocate_guid = allocate_guid c, packet_queue = packet_queue c,
     request_context = request_context c, contexts = contexts c, controllers = controllers c, sk = s, app = app c,
     methods = methods c, last_read_time = last_read_time c, last_write_time = last_write_time c\<rparr>"

definition to_session :: "('k, 'w) conn \<Rightarrow> (('k, unit) world, 'w) session" where
  "to_session m = plug \<lparr>sock = sock m, blocks = blocks m, poll = poll m, kenv = kenv m, others = ()\<rparr> (others m)"

definition from_session :: "(('k, unit) world, 'w) session \<Rightarrow> ('k, 'w) conn" where
  "from_session c = \<lparr>sock = sock (sk c), blocks = blocks (sk c), poll = poll (sk c), kenv = kenv (sk c), others = plug () c\<rparr>"

definition session_on_error :: "int \<Rightarrow> 's \<Rightarrow> 's res" where
  "session_on_error err m = Inr m"

text \<open>The virtual methods of \<open>RpcSession\<close>; \<open>OnConnect\<close> is that of \<open>DataHandler\<close>. \<open>t\<close> is \<open>CurrentMs ()\<close>.\<close>

definition rpc_handler :: "(('k, unit) world, 'w, unit session_ext) rpc_api \<Rightarrow> u64 \<Rightarrow> ('k, (unit, 'w) session) data_handler" where
  "rpc_handler A t =
     \<lparr>on_write = (\<lambda>m. Inr (from_session (session_on_write t (to_session m)))),
      on_read = (\<lambda>m. bindR (session_on_read A t (to_session m)) (\<lambda>c. Inr (from_session c))),
      on_connect = (\<lambda>_ m. Inr m),
      on_error = session_on_error\<rparr>"

definition server_ctx :: "'k kernel \<Rightarrow> 'k epoll_kernel \<Rightarrow> addr \<Rightarrow> (('k, unit) world, 'w, unit session_ext) rpc_api \<Rightarrow> u64
    \<Rightarrow> ('k, (unit, 'w) session) ctx" where
  "server_ctx K P me A t = \<lparr>net = K, epk = P, handler = rpc_handler A t, self = me\<rparr>"

text \<open>\<open>NewSession (fd)\<close> and \<open>SetService\<close>; the constructor of \<open>Session\<close> makes the socket.\<close>

definition rpc_on_accept :: "'k kernel \<Rightarrow> method_map \<Rightarrow> (addr \<Rightarrow> rpc_controller) \<Rightarrow> 'w \<Rightarrow> int \<Rightarrow> epoll
    \<Rightarrow> bpool \<times> 'k env \<Rightarrow> ('k, 'w) conn res" where
  "rpc_on_accept K svc ctl w fd E = (\<lambda>(Q, s).
     bindR (socket_server K fd True Q s) (\<lambda>(k, Q, s).
     Inr \<lparr>sock = k, blocks = Q, poll = E, kenv = s, others = session_new svc ctl () w\<rparr>))"

text \<open>\<open>~RpcSession\<close> and \<open>~Session\<close>; nothing in the program runs them.\<close>

definition session_destroy :: "('k, 'w) ctx \<Rightarrow> ('k, 'w) world \<Rightarrow> (bpool \<times> epoll \<times> 'k env) res" where
  "session_destroy C m = bindR (socket_destroy C m) (\<lambda>m. Inr (blocks m, poll m, kenv m))"

lemma plug_sel [simp]:
  "ch_parser (plug s c) = ch_parser c" "request_context (plug s c) = request_context c" "methods (plug s c) = methods c"
  "sk (plug s c) = s" "app (plug s c) = app c"
  by (simp_all add: plug_def)

lemma to_session_sel [simp]:
  "ch_parser (to_session m) = ch_parser (others m)" "request_context (to_session m) = request_context (others m)"
  "methods (to_session m) = methods (others m)" "app (to_session m) = app (others m)"
  "sock (sk (to_session m)) = sock m" "blocks (sk (to_session m)) = blocks m" "kenv (sk (to_session m)) = kenv m"
  by (simp_all add: to_session_def)

lemma from_session_sel [simp]:
  "sock (from_session c) = sock (sk c)" "blocks (from_session c) = blocks (sk c)" "kenv (from_session c) = kenv (sk c)"
  "ch_parser (others (from_session c)) = ch_parser c" "request_context (others (from_session c)) = request_context c"
  "methods (others (from_session c)) = methods c" "app (others (from_session c)) = app c"
  by (simp_all add: from_session_def)

lemma server_ctx_sel [simp]: "net (server_ctx K P me A t) = K" "handler (server_ctx K P me A t) = rpc_handler A t"
  by (simp_all add: server_ctx_def)

section \<open>A write buffer in its first block\<close>

text \<open>\<open>in_block r n w\<close>: the list still has its first block, read up to \<open>r\<close> and filled up to \<open>n\<close>.\<close>

definition in_block :: "nat \<Rightarrow> nat \<Rightarrow> buffer_list \<Rightarrow> bool" where
  "in_block r n w \<longleftrightarrow> read_ptr w = write_ptr w \<and> read_inx w = r \<and> write_inx w = n"

lemma bl_write_in_block:
  assumes "bl_write d w P = Inr (k, w', P')" and "in_block r n w" and "n + length d < kBufferSize"
  shows "in_block r (n + length d) w'"
proof (cases "d = []")
  case True
  then show ?thesis using assms by (simp add: bl_write_def bl_write_loop.simps)
next
  case False
  have a: "add64 n (length d) = n + length d" using assms(3) by (simp add: kBufferSize_def)
  have "\<not> bl_writeable_size w < length d"
    using assms(2,3) by (simp add: in_block_def bl_writeable_size_def kBufferSize_def)
  then show ?thesis
    using assms False a
    by (auto simp: bl_write_def bl_write_loop.simps bl_write_advance_def in_block_def Let_def res_simps)
qed

lemma in_block_fits: "in_block r (r + length u) w \<Longrightarrow> r + length u < kBufferSize \<Longrightarrow> fits_block w u"
  by (simp add: in_block_def fits_block_def bl_current_read_size_def kBufferSize_def)

text \<open>After a part was sent: what is left ends where it ended, in one block, so it is the same block.\<close>

lemma in_block_sent:
  assumes w: "in_block r (r + length u) w" "u \<noteq> []" and e: "write_ptr w' = write_ptr w" "write_inx w' = write_inx w"
    and o: "bl_owned A (w', P') (drop n u)" and f: "fits_block w' (drop n u)" and n: "n \<le> length u"
  shows "in_block (r + n) (r + length u) w'"
proof -
  obtain xs z where rep: "bl_rep P' w' xs z (drop n u)" using o by (auto simp: bl_owned_def)
  have wi: "write_inx w' = r + length u" using w(1) e(2) by (simp add: in_block_def)
  have l: "length (drop n u) = kBufferSize * length xs + write_inx w' - read_inx w'" by (rule bl_rep_length [OF rep])
  have c: "length (drop n u) = (if xs = [] then length (drop n u) else kBufferSize - read_inx w')"
    using bl_rep_current(1) [OF rep] f by (simp add: fits_block_def)
  have ri: "read_inx w' < kBufferSize" "xs = [] \<longrightarrow> read_inx w' \<le> write_inx w'" using rep by (auto simp: bl_rep_def)
  have "xs = []"
  proof (rule ccontr)
    assume ne: "xs \<noteq> []"
    then obtain k where k: "length xs = Suc k" by (cases xs) auto
    have "0 < length u" using w(2) by simp
    then show False using l c ri(1) wi ne unfolding k by simp
  qed
  then show ?thesis
    using l ri wi n bl_rep_same_block [OF rep] by (simp add: in_block_def)
qed

section \<open>The socket of a session\<close>

text \<open>
  What the session needs of its socket while it answers, besides its buffers: the kernel and the descriptor stay
  as they are, and what is written goes behind \<open>r\<close> bytes that were sent.
\<close>

definition conn_rep :: "'k env \<Rightarrow> int \<Rightarrow> nat \<Rightarrow> ('k, 'w) world \<Rightarrow> byte list \<Rightarrow> byte list \<Rightarrow> bool" where
  "conn_rep s fd r m i u \<longleftrightarrow> online m i u \<and> kenv m = s \<and> sock_fd (sock m) = fd \<and> has_handler (sock m)
     \<and> (u \<noteq> [] \<longrightarrow> is_writable (sock m))
     \<and> (r + length u < kBufferSize \<longrightarrow> in_block r (r + length u) (write_list (sock m)))"

interpretation conn: duplex socket_read read_buffer_size "socket_write C" "conn_rep s fd r" for C s fd r
proof unfold_locales
  fix m :: "('a, 'b) world" and i u :: "byte list" and n
  assume m: "conn_rep s fd r m i u"
  then have "sock_bufs m i u" by (simp add: conn_rep_def online_def)
  from socket_read_bufs [OF this, of n] obtain l P where
    "socket_read n m = Inr (take n i, (with_sock (read_list_update (\<lambda>_. l)) m)\<lparr>blocks := P\<rparr>)"
    "sock_bufs ((with_sock (read_list_update (\<lambda>_. l)) m)\<lparr>blocks := P\<rparr>) (drop n i) u" by blast
  then show "\<exists>m'. socket_read n m = Inr (take n i, m') \<and> conn_rep s fd r m' (drop n i) u"
    using m by (intro exI conjI) (auto simp: conn_rep_def online_def sock_ready_def)
next
  fix m :: "('a, 'b) world" and i u :: "byte list"
  assume "conn_rep s fd r m i u"
  then have "sock_bufs m i u" by (simp add: conn_rep_def online_def)
  then show "read_buffer_size m = length i" by (rule sock_bufs_sizes)
next
  fix m :: "('a, 'b) world" and i u d :: "byte list"
  assume m: "conn_rep s fd r m i u" and l: "length u + length d < 2 ^ 64"
  then have b: "sock_bufs m i u" "sock_ready m" by (simp_all add: conn_rep_def online_def)
  from socket_write_bufs [OF b l, of C] obtain m' where
    m': "socket_write C d m = Inr m'" "sock_bufs m' i (u @ d)" "same_conn m m'" "is_writable (sock m')" by blast
  have "in_block r (r + length (u @ d)) (write_list (sock m'))" if "r + length (u @ d) < kBufferSize"
  proof -
    obtain k w P where w: "bl_write d (write_list (sock m)) (blocks m) = Inr (k, w, P)" "write_list (sock m') = w"
      using m'(1) by (auto simp: socket_write_def Let_def res_simps split: if_splits)
    have "in_block r (r + length u) (write_list (sock m))" using m that by (simp add: conn_rep_def)
    from bl_write_in_block [OF w(1) this] that show ?thesis by (simp add: w(2) add.assoc)
  qed
  then show "\<exists>m'. socket_write C d m = Inr m' \<and> conn_rep s fd r m' i (u @ d)"
    using m m' b(2) by (intro exI [of _ m']) (auto simp: conn_rep_def online_def same_conn_def sock_ready_def)
qed

section \<open>What holds of a connection\<close>

text \<open>
  The kernel keeps a stream socket \<open>fd\<close>: \<open>inbox\<close> is what has arrived and was not read, \<open>outbox\<close> what was
  taken from the program so far; reading does not touch the one, writing not the other.
\<close>

definition stream_conn :: "'k kernel \<Rightarrow> int \<Rightarrow> ('k \<Rightarrow> byte list) \<Rightarrow> ('k \<Rightarrow> byte list) \<Rightarrow> bool" where
  "stream_conn K fd inbox outbox \<longleftrightarrow> (\<exists>rank. stream_read K fd inbox rank False) \<and> (\<exists>rank. stream_write K fd outbox rank)
     \<and> (\<forall>n k. outbox (snd (k_read K fd n k)) = outbox k) \<and> (\<forall>seen n k. inbox (snd (k_write K fd seen n k)) = inbox k)"

text \<open>\<open>In\<close> and \<open>Out\<close> of the socket of such a connection, as far as the socket goes.\<close>

lemma sock_receives:
  assumes st: "stream_conn (net C) (sock_fd (sock m)) inbox outbox" and on: "status (sock m) = SOCKET_CONNECTED"
    and b: "sock_bufs m i u" and l: "length i + length (inbox (snd (kenv m))) < 2 ^ 31"
  obtains rl Q k m' where "m' = (with_sock (read_list_update (\<lambda>_. rl)) m)\<lparr>blocks := Q, kenv := (EAGAIN, k)\<rparr>"
    and "sock_bufs m' (i @ inbox (snd (kenv m))) u" and "inbox k = []" and "outbox k = outbox (snd (kenv m))"
    and "socket_in C m = (if i @ inbox (snd (kenv m)) \<noteq> [] \<and> has_handler (sock m) then on_read (handler C) m' else Inr m')"
proof -
  obtain rk where rd: "stream_read (net C) (sock_fd (sock m)) inbox rk False" using st unfolding stream_conn_def by blast
  have ko: "\<And>n k. outbox (snd (k_read (net C) (sock_fd (sock m)) n k)) = outbox k" using st unfolding stream_conn_def by blast
  have l2: "length i + length (inbox (snd (kenv m))) < 2 ^ 64" "length (inbox (snd (kenv m))) < 2 ^ 31" using l by simp_all
  obtain n rl Q k m' where m': "m' = (with_sock (read_list_update (\<lambda>_. rl)) m)\<lparr>blocks := Q, kenv := (EAGAIN, k)\<rparr>"
    "Recv (net C) (sock_fd (sock m)) (read_list (sock m), blocks m) (kenv m) = Inr (n, EAGAIN, (rl, Q), (EAGAIN, k))"
    "sock_bufs m' (i @ inbox (snd (kenv m))) u" "inbox k = []"
    "socket_in C m = (if i @ inbox (snd (kenv m)) \<noteq> [] \<and> has_handler (sock m) then on_read (handler C) m' else Inr m')"
    by (rule socket_in_moves [OF on rd b l2])
  have "outbox k = outbox (snd (kenv m))" using Recv_keeps [OF m'(2), of outbox] ko by simp
  then show ?thesis using that [OF m'(1,3,4) _ m'(5)] by blast
qed

lemma sock_sends:
  assumes st: "stream_conn (net C) (sock_fd (sock m)) inbox outbox" and on: "status (sock m) = SOCKET_CONNECTED"
    and b: "sock_bufs m i u" and w: "u \<noteq> [] \<longrightarrow> is_writable (sock m)"
    and blk: "in_block r (r + length u) (write_list (sock m))" and tot: "r + length u < kBufferSize"
  obtains j wl Q s m' where
    "m' = (with_sock (\<lambda>x. x\<lparr>write_list := wl, is_writable := drop j u \<noteq> []\<rparr>) m)\<lparr>blocks := Q, kenv := s\<rparr>"
    and "sock_bufs m' i (drop j u)" and "outbox (snd s) = outbox (snd (kenv m)) @ take j u" and "inbox (snd s) = inbox (snd (kenv m))"
    and "in_block (r + j) (r + length u) wl" and "j \<le> length u"
    and "socket_out C n m = on_write (handler C) m' \<or> socket_out C n m = Inr m'"
    and "roomy (net C) (sock_fd (sock m)) \<longrightarrow> drop j u = []"
proof (cases "u = []")
  case True
  let ?m = "(with_sock (\<lambda>x. x\<lparr>write_list := write_list (sock m), is_writable := drop 0 u \<noteq> []\<rparr>) m)\<lparr>blocks := blocks m, kenv := kenv m\<rparr>"
  have m: "?m = with_sock (is_writable_update (\<lambda>_. False)) m" using True by (cases m) simp
  have "bl_empty (write_list (sock m))"
    using sock_bufs_sizes(2) [OF b] True by (simp add: bl_empty_def write_buffer_size_def)
  then have "out_loop C n m = Some (Inr (False, n, ?m))" unfolding m by (simp add: out_loop.simps)
  then have "socket_out C n m = on_write (handler C) ?m \<or> socket_out C n m = Inr ?m" using on by (simp add: socket_out_def)
  then show ?thesis using b blk True by (intro that [where j = 0 and wl = "write_list (sock m)" and Q = "blocks m" and s = "kenv m" and m' = ?m]) (simp_all add: sock_bufs_def)
next
  case False
  obtain rk where wr: "stream_write (net C) (sock_fd (sock m)) outbox rk" using st unfolding stream_conn_def by blast
  have ki: "\<And>seen n k. inbox (snd (k_write (net C) (sock_fd (sock m)) seen n k)) = inbox k" using st unfolding stream_conn_def by blast
  have l: "length u < 2 ^ 31" using tot by (simp add: kBufferSize_def)
  obtain j err e wl Q k m' where
    m': "m' = (with_sock (\<lambda>x. x\<lparr>write_list := wl, is_writable := drop j u \<noteq> []\<rparr>) m)\<lparr>blocks := Q, kenv := (e, k)\<rparr>"
    "Send (net C) (sock_fd (sock m)) (write_list (sock m), blocks m) (kenv m) = Inr (int j, err, (wl, Q), (e, k))"
    "sock_bufs m' i (drop j u)" "outbox k = outbox (snd (kenv m)) @ take j u" "j \<le> length u"
    "socket_out C n m = (if 0 < j \<and> has_handler (sock m) then on_write (handler C) m' else Inr m')"
    "fits_block wl (drop j u)" "drop j u \<noteq> [] \<longrightarrow> err = EAGAIN"
    by (rule socket_out_moves [OF on wr b in_block_fits [OF blk tot] False l w [rule_format, OF False], where ?n0.0 = n])
  have room: "drop j u = []" if "roomy (net C) (sock_fd (sock m))" using Send_roomy [OF m'(2) that] m'(8) by blast
  have sd: "inbox k = inbox (snd (kenv m))" "write_ptr wl = write_ptr (write_list (sock m))" "write_inx wl = write_inx (write_list (sock m))"
    using Send_keeps [OF m'(2), of inbox] ki by simp_all
  obtain B where o: "bl_owned B (wl, Q) (drop j u)" using m'(1,3) by (auto simp: sock_bufs_def two_lists_def)
  have "in_block (r + j) (r + length u) wl" by (rule in_block_sent [OF blk False sd(2,3) o m'(7,5)])
  then show ?thesis using m'(4,6) sd(1) room by (intro that [OF m'(1,3) _ _ _ m'(5)]) auto
qed

definition replies :: "(('k, unit) world, 'w, unit session_ext) rpc_api \<Rightarrow> method_map \<Rightarrow> (rpc_meta \<Rightarrow> byte list \<Rightarrow> byte list)
    \<Rightarrow> packet list \<Rightarrow> byte list" where
  "replies A svc answer ps = concat (map encode (concat (map (reply A svc answer) ps)))"

text \<open>
  The requests \<open>dn\<close> were answered, \<open>rest\<close> are still to be read: \<open>i\<close> of them is in the read buffer, \<open>fut\<close> has not
  arrived. \<open>u\<close> is in the write buffer.
\<close>

definition conn_at :: "('k \<Rightarrow> byte list) \<Rightarrow> ('k \<Rightarrow> byte list) \<Rightarrow> (('k, unit) world, 'w, unit session_ext) rpc_api
    \<Rightarrow> method_map \<Rightarrow> (rpc_meta \<Rightarrow> byte list \<Rightarrow> byte list) \<Rightarrow> int
    \<Rightarrow> packet list \<Rightarrow> packet list \<Rightarrow> byte list \<Rightarrow> byte list \<Rightarrow> byte list \<Rightarrow> ('k, 'w) conn \<Rightarrow> bool" where
  "conn_at inbox outbox A svc answer fd dn rest i u fut m \<longleftrightarrow>
     sock_bufs m i u \<and> pending (ch_parser (others m)) i (inbox (snd (kenv m)) @ fut) rest \<and> stalled (ch_parser (others m)) i
     \<and> outbox (snd (kenv m)) @ u = replies A svc answer dn
     \<and> status (sock m) = SOCKET_CONNECTED \<and> sock_fd (sock m) = fd \<and> has_handler (sock m) \<and> handle (sock m) \<noteq> Indeterminate
     \<and> (u \<noteq> [] \<longrightarrow> is_writable (sock m))
     \<and> in_block (length (outbox (snd (kenv m)))) (length (outbox (snd (kenv m))) + length u) (write_list (sock m))
     \<and> request_context (others m) = Map.empty \<and> methods (others m) = svc"

lemma replies_append [simp]: "replies A svc answer (ps @ qs) = replies A svc answer ps @ replies A svc answer qs"
  by (simp add: replies_def)

lemma pending_bytes: "pending r bs fut ps \<Longrightarrow> length bs + length fut \<le> length (concat (map encode ps))"
proof (cases ps)
  case (Cons p qs)
  assume h: "pending r bs fut ps"
  then have "length (bs @ fut) \<le> length (concat (map encode ps))"
    unfolding Cons by (auto split: recv_state.splits dest: arg_cong [where f = length])
  then show ?thesis by simp
qed simp

text \<open>\<open>In\<close> reads all that has arrived and answers the requests that are complete.\<close>

lemma serve_in:
  assumes st: "stream_conn K fd inbox outbox" and A: "A = sock_api D parse run valid call" and ans: "answers A answer"
    and at: "conn_at inbox outbox A svc answer fd dn rest i u fut m" and hp: "has_poller (sock m)"
    and l: "length (concat (map encode rest)) < 2 ^ 31" and lr: "length (replies A svc answer (dn @ rest)) < kBufferSize"
  shows "\<exists>m' dn2 rest' i' u'. socket_in (server_ctx K P me A t) m = Inr m' \<and> rest = dn2 @ rest'
    \<and> conn_at inbox outbox A svc answer fd (dn @ dn2) rest' i' u' fut m' \<and> inbox (snd (kenv m')) = []
    \<and> outbox (snd (kenv m')) = outbox (snd (kenv m)) \<and> has_poller (sock m')"
proof -
  note at' = at [unfolded conn_at_def]
  let ?in = "inbox (snd (kenv m))" and ?C = "server_ctx K P me A t"
  have bl: "length i + length ?in + length fut \<le> length (concat (map encode rest))"
    using pending_bytes [of _ i "?in @ fut" rest] at' by fastforce
  have pre: "stream_conn (net ?C) (sock_fd (sock m)) inbox outbox" "status (sock m) = SOCKET_CONNECTED" "sock_bufs m i u"
    "length i + length ?in < 2 ^ 31"
    using at' st bl l by auto
  obtain rl Q k m1 where m1: "m1 = (with_sock (read_list_update (\<lambda>_. rl)) m)\<lparr>blocks := Q, kenv := (EAGAIN, k)\<rparr>"
    "sock_bufs m1 (i @ ?in) u" "inbox k = []" "outbox k = outbox (snd (kenv m))"
    "socket_in ?C m = (if i @ ?in \<noteq> [] \<and> has_handler (sock m) then on_read (handler ?C) m1 else Inr m1)"
    by (rule sock_receives [OF pre])
  note ok = m1(4)
  let ?r = "length (outbox k)"
  have p1: "pending (ch_parser (others m1)) (i @ ?in) fut rest" using at' m1(1) by (simp add: pending_append)
  have o1: "outbox k @ u = replies A svc answer dn" using at' ok by simp
  have c1: "status (sock m1) = SOCKET_CONNECTED" "sock_fd (sock m1) = fd" "has_handler (sock m1)" "handle (sock m1) \<noteq> Indeterminate"
    "u \<noteq> [] \<longrightarrow> is_writable (sock m1)" "in_block ?r (?r + length u) (write_list (sock m1))"
    "request_context (others m1) = Map.empty" "methods (others m1) = svc" "kenv m1 = (EAGAIN, k)" "has_poller (sock m1)"
    using at' m1(1) ok hp by simp_all
  show ?thesis
  proof (cases "i @ ?in = []")
    case True
    have "conn_at inbox outbox A svc answer fd (dn @ []) rest i u fut m1"
      using at' c1 o1 m1(1,2,3) p1 True unfolding conn_at_def by simp
    moreover have "socket_in ?C m = Inr m1" using m1(5) True by simp
    ultimately show ?thesis using c1(9,10) m1(3,4) by (intro exI [of _ m1] exI [of _ "[]"] exI [of _ rest] exI [of _ i] exI [of _ u]) simp
  next
    case False
    then have run: "socket_in ?C m = bindR (session_on_read A t (to_session m1)) (\<lambda>c. Inr (from_session c))"
      using m1(5) at' by (simp add: rpc_handler_def)
    have rep: "conn_rep (EAGAIN, k) fd ?r (sk (to_session m1)) (i @ ?in) u"
      using c1 m1(2) by (simp add: conn_rep_def online_def sock_ready_def sock_bufs_def)
    have pe: "pending (ch_parser (to_session m1)) (i @ ?in) fut rest" using p1 by simp
    have api: "a_read A = socket_read" "a_size A = read_buffer_size" "a_write A = socket_write D" unfolding A by simp_all
    have tot: "?r + length u + length (replies A svc answer rest) < kBufferSize"
      using lr arg_cong [OF o1, of length] by simp
    then have len: "length u + length (concat (map encode (concat (map (reply A (methods (to_session m1)) answer) rest)))) < 2 ^ 64"
      using c1(8) by (simp add: replies_def kBufferSize_def)
    have rc: "request_context (to_session m1) = Map.empty" using c1(7) by simp
    from conn.session_on_read_partial [OF api ans rc rep pe len, of t] obtain c dn2 rest' i' where
      c: "rest = dn2 @ rest'" "session_on_read A t (to_session m1) = Inr c"
        "conn_rep (EAGAIN, k) fd ?r (sk c) i' (u @ replies A svc answer dn2)"
        "pending (ch_parser c) i' fut rest'" "stalled (ch_parser c) i'" "request_context c = Map.empty" "methods c = svc"
      unfolding replies_def to_session_sel c1(8) by blast
    let ?u = "u @ replies A svc answer dn2"
    have "?r + length ?u < kBufferSize" using tot c(1) by simp
    then have "conn_at inbox outbox A svc answer fd (dn @ dn2) rest' i' ?u fut (from_session c)"
      using c o1 m1(3) by (auto simp: conn_at_def conn_rep_def online_def sock_ready_def sock_bufs_def)
    moreover have "inbox (snd (kenv (from_session c))) = []" "has_poller (sock (from_session c))"
      "outbox (snd (kenv (from_session c))) = outbox (snd (kenv m))"
      using c(3) m1(3,4) by (simp_all add: conn_rep_def online_def sock_ready_def)
    ultimately show ?thesis using run c(1,2) by auto
  qed
qed

text \<open>\<open>Out\<close> hands over a prefix of the write buffer and keeps the rest.\<close>

lemma conn_at_on_write:
  assumes "conn_at inbox outbox A svc answer fd dn rest i u fut m"
  shows "\<exists>m'. on_write (rpc_handler A t) m = Inr m' \<and> conn_at inbox outbox A svc answer fd dn rest i u fut m'
    \<and> sock m' = sock m \<and> kenv m' = kenv m"
  using assms
  by (intro exI [of _ "from_session (session_on_write t (to_session m))"])
    (simp add: rpc_handler_def conn_at_def sock_bufs_def session_on_write_def)

lemma serve_out:
  assumes st: "stream_conn K fd inbox outbox" and at: "conn_at inbox outbox A svc answer fd dn rest i u fut m"
    and lr: "length (replies A svc answer dn) < kBufferSize"
  shows "\<exists>m' j. socket_out (server_ctx K P me A t) n0 m = Inr m' \<and> conn_at inbox outbox A svc answer fd dn rest i (drop j u) fut m'
    \<and> outbox (snd (kenv m')) = outbox (snd (kenv m)) @ take j u \<and> inbox (snd (kenv m')) = inbox (snd (kenv m))
    \<and> has_poller (sock m') = has_poller (sock m) \<and> (is_writable (sock m') \<longleftrightarrow> drop j u \<noteq> [])
    \<and> (roomy K fd \<longrightarrow> drop j u = [])"
proof -
  let ?C = "server_ctx K P me A t"
  note at' = at [unfolded conn_at_def]
  let ?r = "length (outbox (snd (kenv m)))"
  have pre: "stream_conn (net ?C) (sock_fd (sock m)) inbox outbox" "status (sock m) = SOCKET_CONNECTED" "sock_bufs m i u"
    "u \<noteq> [] \<longrightarrow> is_writable (sock m)" "in_block ?r (?r + length u) (write_list (sock m))"
    using at' st by auto
  have tot: "?r + length u < kBufferSize" using lr at' by (metis length_append)
  obtain j wl Q s m1 where
    m1: "m1 = (with_sock (\<lambda>x. x\<lparr>write_list := wl, is_writable := drop j u \<noteq> []\<rparr>) m)\<lparr>blocks := Q, kenv := s\<rparr>"
    "sock_bufs m1 i (drop j u)" "outbox (snd s) = outbox (snd (kenv m)) @ take j u" "inbox (snd s) = inbox (snd (kenv m))"
    "in_block (?r + j) (?r + length u) wl" "j \<le> length u"
    "socket_out ?C n0 m = on_write (handler ?C) m1 \<or> socket_out ?C n0 m = Inr m1"
    "roomy (net ?C) (sock_fd (sock m)) \<longrightarrow> drop j u = []"
    by (rule sock_sends [OF pre tot, where n = n0])
  have "drop j u = []" if "roomy K fd" using m1(8) that at' by simp
  note room = this
  have c: "conn_at inbox outbox A svc answer fd dn rest i (drop j u) fut m1"
    using at' m1(1-6) by (simp add: conn_at_def)
  then obtain m' where "socket_out ?C n0 m = Inr m'" "conn_at inbox outbox A svc answer fd dn rest i (drop j u) fut m'"
    "sock m' = sock m1" "kenv m' = kenv m1"
    using m1(7) conn_at_on_write [OF c, of t] by auto
  then show ?thesis using m1(1,3,4) room by (intro exI [of _ m'] exI [of _ j]) simp
qed

section \<open>The life of a connection\<close>

text \<open>
  \<open>conn_step \<dots> d m m'\<close>: a step in which the bytes \<open>d\<close> come. The thread that owns the connection registers it
  (\<open>SetPoller\<close>); then the event loop calls \<open>In\<close> and \<open>Out\<close>, at any time and in any order. Between the calls more
  bytes may come, the thread may do anything with its poller, and with the pool of blocks what leaves the two
  buffers as they are; the connection may go to another thread.
\<close>

definition meanwhile :: "('k \<Rightarrow> byte list) \<Rightarrow> ('k \<Rightarrow> byte list) \<Rightarrow> byte list \<Rightarrow> ('k, 'w) world \<Rightarrow> ('k, 'w) world \<Rightarrow> bool" where
  "meanwhile inbox outbox d m m' \<longleftrightarrow> sock m' = sock m \<and> others m' = others m
     \<and> inbox (snd (kenv m')) = inbox (snd (kenv m)) @ d \<and> outbox (snd (kenv m')) = outbox (snd (kenv m))
     \<and> (\<forall>rs ws. sock_bufs m rs ws \<longrightarrow> sock_bufs m' rs ws)"

inductive conn_step :: "'k kernel \<Rightarrow> 'k epoll_kernel \<Rightarrow> ('k \<Rightarrow> byte list) \<Rightarrow> ('k \<Rightarrow> byte list)
    \<Rightarrow> (('k, unit) world, 'w, unit session_ext) rpc_api \<Rightarrow> byte list \<Rightarrow> ('k, 'w) conn \<Rightarrow> ('k, 'w) conn \<Rightarrow> bool"
  for K :: "'k kernel" and P :: "'k epoll_kernel" and inbox :: "'k \<Rightarrow> byte list" and outbox :: "'k \<Rightarrow> byte list"
    and A :: "(('k, unit) world, 'w, unit session_ext) rpc_api" where
  Registered: "socket_set_poller (server_ctx K P me A t) m = Inr m' \<Longrightarrow> inbox (snd (kenv m')) = inbox (snd (kenv m))
    \<Longrightarrow> outbox (snd (kenv m')) = outbox (snd (kenv m)) \<Longrightarrow> conn_step K P inbox outbox A [] m m'"
| Meanwhile: "meanwhile inbox outbox d m m' \<Longrightarrow> conn_step K P inbox outbox A d m m'"
| Input: "has_poller (sock m) \<Longrightarrow> socket_in (server_ctx K P me A t) m = Inr m' \<Longrightarrow> conn_step K P inbox outbox A [] m m'"
| Output: "has_poller (sock m) \<Longrightarrow> socket_out (server_ctx K P me A t) n m = Inr m' \<Longrightarrow> conn_step K P inbox outbox A [] m m'"

text \<open>\<open>conn_reach \<dots> bs m\<close>: a connection to which the bytes \<open>bs\<close> have come since it was accepted can be in the state \<open>m\<close>.\<close>

inductive conn_reach :: "'k kernel \<Rightarrow> 'k epoll_kernel \<Rightarrow> ('k \<Rightarrow> byte list) \<Rightarrow> ('k \<Rightarrow> byte list)
    \<Rightarrow> (('k, unit) world, 'w, unit session_ext) rpc_api \<Rightarrow> method_map \<Rightarrow> int \<Rightarrow> byte list \<Rightarrow> ('k, 'w) conn \<Rightarrow> bool"
  for K :: "'k kernel" and P :: "'k epoll_kernel" and inbox :: "'k \<Rightarrow> byte list" and outbox :: "'k \<Rightarrow> byte list"
    and A :: "(('k, unit) world, 'w, unit session_ext) rpc_api" and svc :: method_map and fd :: int where
  Accepted: "rpc_on_accept K svc ctl w fd E (Q, s) = Inr m \<Longrightarrow> bpool_wf Q \<Longrightarrow> outbox (snd (kenv m)) = []
    \<Longrightarrow> conn_reach K P inbox outbox A svc fd (inbox (snd (kenv m))) m"
| Step: "conn_reach K P inbox outbox A svc fd bs m \<Longrightarrow> conn_step K P inbox outbox A d m m'
    \<Longrightarrow> conn_reach K P inbox outbox A svc fd (bs @ d) m'"

lemma accepted_at:
  assumes run: "rpc_on_accept K svc ctl w fd E (Q, s) = Inr m" and wf: "bpool_wf Q" and o: "outbox (snd (kenv m)) = []"
    and ok: "\<forall>q \<in> set qs. packet_ok q" and b: "inbox (snd (kenv m)) @ fut = concat (map encode qs)"
  shows "conn_at inbox outbox A svc answer fd [] qs [] [] fut m"
proof -
  obtain r Q1 where r: "bl_new Q = (r, Q1)" by fastforce
  obtain v Q2 where v: "bl_new Q1 = (v, Q2)" by fastforce
  have m: "read_list (sock m) = r" "write_list (sock m) = v" "blocks m = Q2" "status (sock m) = SOCKET_CONNECTED" "sock_fd (sock m) = fd"
    "has_handler (sock m)" "handle (sock m) = Null" "others m = session_new svc ctl () w"
    using run r v by (auto simp: rpc_on_accept_def socket_server_def Let_def res_simps)
  have "in_block 0 0 v" using v by (auto simp: in_block_def bl_new_def split: prod.splits)
  moreover have "two_lists Q2 r v [] []" by (rule two_lists_new [OF wf r v])
  moreover have "pending (ch_parser (others m)) [] (inbox (snd (kenv m)) @ fut) qs"
    using ok b by (intro pending_headerI) (simp_all add: m(8))
  ultimately show ?thesis
    using m o by (simp add: conn_at_def sock_bufs_def replies_def stalled_def kMetaSize_def)
qed

lemma registered_at:
  assumes "conn_at inbox outbox A svc answer fd dn rest i u fut m" and run: "socket_set_poller C m = Inr m'"
    and "inbox (snd (kenv m')) = inbox (snd (kenv m))" and "outbox (snd (kenv m')) = outbox (snd (kenv m))"
  shows "conn_at inbox outbox A svc answer fd dn rest i u fut m'"
proof -
  obtain h F s where a: "epoll_add (epk C) (sock_fd (sock m)) (self C) (poll m, kenv m) = Inr (h, F, s)"
    and m': "m' = (with_sock (\<lambda>k. k\<lparr>has_poller := True, handle := h\<rparr>) m)\<lparr>poll := F, kenv := s\<rparr>"
    using run by (auto simp: socket_set_poller_def res_simps)
  have "h \<noteq> Indeterminate"
    using a by (auto simp: epoll_add_def Let_def res_simps split: prod.splits option.splits)
  then show ?thesis using assms(1,3,4) unfolding m' by (simp add: conn_at_def sock_bufs_def)
qed

lemma meanwhile_at:
  "conn_at inbox outbox A svc answer fd dn rest i u (d @ fut) m \<Longrightarrow> meanwhile inbox outbox d m m'
    \<Longrightarrow> conn_at inbox outbox A svc answer fd dn rest i u fut m'"
  by (auto simp: conn_at_def meanwhile_def)

text \<open>What a step does to the requests and to what was sent.\<close>

lemma conn_step_at:
  assumes st: "stream_conn K fd inbox outbox" and A: "A = sock_api D parse run valid call" and ans: "answers A answer"
    and at: "conn_at inbox outbox A svc answer fd dn rest i u (d @ fut) m" and step: "conn_step K P inbox outbox A d m m'"
    and l: "length (concat (map encode rest)) < 2 ^ 31" and lr: "length (replies A svc answer (dn @ rest)) < kBufferSize"
  shows "\<exists>dn2 rest' i' u' o'. rest = dn2 @ rest' \<and> conn_at inbox outbox A svc answer fd (dn @ dn2) rest' i' u' fut m'
    \<and> outbox (snd (kenv m')) = outbox (snd (kenv m)) @ o'"
  using step
proof cases
  case (Registered me t)
  with registered_at [OF at this(2-4)] show ?thesis by (intro exI [of _ "[]"] exI [of _ rest] exI [of _ i] exI [of _ u]) simp
next
  case Meanwhile
  with meanwhile_at [OF at this] show ?thesis
    by (intro exI [of _ "[]"] exI [of _ rest] exI [of _ i] exI [of _ u]) (simp add: meanwhile_def)
next
  case (Input me t)
  have d: "conn_at inbox outbox A svc answer fd dn rest i u fut m" using at Input(1) by simp
  from serve_in [OF st A ans d Input(2) l lr, of P me t] Input(3) obtain dn2 rest' i' u' where
    "rest = dn2 @ rest'" "conn_at inbox outbox A svc answer fd (dn @ dn2) rest' i' u' fut m'" "outbox (snd (kenv m')) = outbox (snd (kenv m))"
    by auto
  then show ?thesis by (intro exI [of _ dn2] exI [of _ rest'] exI [of _ i'] exI [of _ u'] exI [of _ "[] :: byte list"]) simp
next
  case (Output me t n)
  have d: "conn_at inbox outbox A svc answer fd dn rest i u fut m" using at Output(1) by simp
  have "length (replies A svc answer dn) < kBufferSize" using lr by simp
  from serve_out [OF st d this, of P me t n] Output(3) obtain j where
    "conn_at inbox outbox A svc answer fd dn rest i (drop j u) fut m'" "outbox (snd (kenv m')) = outbox (snd (kenv m)) @ take j u"
    by auto
  then have "rest = [] @ rest \<and> conn_at inbox outbox A svc answer fd (dn @ []) rest i (drop j u) fut m'
    \<and> outbox (snd (kenv m')) = outbox (snd (kenv m)) @ take j u" by simp
  then show ?thesis by blast
qed

lemma conn_reach_at:
  assumes st: "stream_conn K fd inbox outbox" and A: "A = sock_api D parse run valid call" and ans: "answers A answer"
    and ok: "\<forall>q \<in> set qs. packet_ok q" and l: "length (concat (map encode qs)) < 2 ^ 31"
    and lr: "length (replies A svc answer qs) < kBufferSize"
  shows "conn_reach K P inbox outbox A svc fd bs m \<Longrightarrow> bs @ fut = concat (map encode qs)
    \<Longrightarrow> \<exists>dn rest i u. qs = dn @ rest \<and> conn_at inbox outbox A svc answer fd dn rest i u fut m"
proof (induction arbitrary: fut rule: conn_reach.induct)
  case (Accepted ctl w E Q s m)
  have "conn_at inbox outbox A svc answer fd [] qs [] [] fut m"
    by (rule accepted_at [where inbox = inbox and outbox = outbox, OF Accepted(1-3) ok Accepted(4)])
  then show ?case by (intro exI [of _ "[]"] exI [of _ qs] exI) auto
next
  case (Step bs m d m')
  have "bs @ d @ fut = concat (map encode qs)" using Step.prems by simp
  from Step.IH [OF this] obtain dn rest i u where
    h: "qs = dn @ rest" "conn_at inbox outbox A svc answer fd dn rest i u (d @ fut) m" by blast
  have "length (concat (map encode rest)) < 2 ^ 31" "length (replies A svc answer (dn @ rest)) < kBufferSize"
    using l lr h(1) by simp_all
  from conn_step_at [OF st A ans h(2) Step(2) this] h(1) show ?case by (metis append.assoc)
qed

text \<open>The requests that are complete in the first \<open>n\<close> bytes.\<close>

fun arrived :: "nat \<Rightarrow> packet list \<Rightarrow> packet list" where
  "arrived n [] = []"
| "arrived n (p # ps) = (if length (encode p) \<le> n then p # arrived (n - length (encode p)) ps else [])"

lemma arrived_append: "arrived (length (concat (map encode dn)) + n) (dn @ rest) = dn @ arrived n rest"
  by (induction dn) simp_all

lemma arrived_stalled:
  assumes "pending r i fut rest" and "stalled r i" and "n + length fut = length (concat (map encode rest))"
  shows "arrived n rest = []"
proof (cases rest)
  case (Cons p ps)
  show ?thesis
  proof (cases "pstate r")
    case RECV_HEADER_STATE
    then have "length (i @ fut) = length (concat (map encode rest))" "length i < kMetaSize"
      using assms(1,2) Cons by (auto simp: stalled_def)
    then show ?thesis using assms(3) Cons by simp
  next
    case RECV_PACKET_STATE
    then have p: "packet_ok p" "header_of (packet r) p" "i @ fut = content p @ concat (map encode ps)"
      and s: "length i < unat (pkt_size (packet r))" using assms(1,2) Cons by (auto simp: stalled_def)
    then have "length i < length (content p)" by (simp add: packet_ok_def header_of_def)
    moreover have "length i + length fut = length (content p) + length (concat (map encode ps))"
      using arg_cong [OF p(3), of length] by simp
    ultimately show ?thesis using assms(3) Cons by simp
  next
    case RECV_DONE
    then show ?thesis using assms(1) Cons by simp
  qed
qed simp


text \<open>
  A connection that fails is closed, but nobody learns of it: \<open>OnError\<close> of a session does nothing and \<open>close\<close>
  does not set \<open>status_\<close>, so the socket counts as connected, and the session and its buffers stay for good.
\<close>

lemma failed_connection_stays:
  assumes "status (sock m) = SOCKET_CONNECTED" and "has_handler (sock m)"
    and "Recv K (sock_fd (sock m)) (read_list (sock m), blocks m) (kenv m) = Inr (n, err, (l, Q), s)"
    and "err \<noteq> kOK" and "\<not> IsIOTryAgain err" and "socket_in (server_ctx K P me A t) m = Inr m'"
  shows "sock m' = (sock m)\<lparr>read_list := l\<rparr> \<and> status (sock m') = SOCKET_CONNECTED \<and> blocks m' = Q \<and> others m' = others m"
  using assms
  by (auto simp: socket_in_def in_loop.simps [of _ m] rpc_handler_def session_on_error_def socket_close_def socket_del_def Let_def res_simps)

section \<open>Properties\<close>

text \<open>
  C3. A connection is served: in any order of calls of \<open>In\<close> and \<open>Out\<close> and however the network cut the requests \<open>qs\<close>, \<open>In\<close> of
  the socket returns, and then the bytes sent and the bytes in the write buffer together are exactly the
  replies to the requests that have arrived completely, in order, each answered once; \<open>Out\<close> returns,
  hands the kernel a prefix of the write buffer and keeps the rest, and leaves the socket marked as long as
  there is one. This holds as long as all the replies of the connection together fit into one block of the write buffer
  (4096 bytes) and the requests are less than \<open>2^31\<close> bytes, when the service answers within the call, on a kernel that is a
  byte stream and never closes the connection.
\<close>

theorem connection_served:
  assumes "stream_conn K fd inbox outbox" and "A = sock_api D parse run valid call" and "answers A answer"
    and "conn_reach K P inbox outbox A svc fd bs m" and "has_poller (sock m)"
    and "bs @ fut = concat (map encode qs)" and "\<forall>q \<in> set qs. packet_ok q"
    and "length (concat (map encode qs)) < 2 ^ 31" and "length (replies A svc answer qs) < kBufferSize"
  shows "(\<exists>m' rs u. socket_in (server_ctx K P me A t) m = Inr m' \<and> sock_bufs m' rs u
      \<and> outbox (snd (kenv m')) @ u = replies A svc answer (arrived (length bs) qs))
    \<and> (\<exists>m' rs u j. sock_bufs m rs u \<and> socket_out (server_ctx K P me A t) n m = Inr m' \<and> sock_bufs m' rs (drop j u)
      \<and> outbox (snd (kenv m')) = outbox (snd (kenv m)) @ take j u \<and> (is_writable (sock m') \<longleftrightarrow> drop j u \<noteq> []))"
proof -
  obtain dn rest i u where h: "qs = dn @ rest" "conn_at inbox outbox A svc answer fd dn rest i u fut m"
    using conn_reach_at [OF assms(1-3,7-9,4,6)] by blast
  have l: "length (concat (map encode rest)) < 2 ^ 31" "length (replies A svc answer (dn @ rest)) < kBufferSize"
    "length (replies A svc answer dn) < kBufferSize" using assms(8,9) h(1) by simp_all
  obtain m1 dn2 rest' i' u' where m1: "socket_in (server_ctx K P me A t) m = Inr m1" "rest = dn2 @ rest'"
    "conn_at inbox outbox A svc answer fd (dn @ dn2) rest' i' u' fut m1" "inbox (snd (kenv m1)) = []"
    using serve_in [OF assms(1-3) h(2) assms(5) l(1,2), of P me t] by blast
  have q: "qs = (dn @ dn2) @ rest'" using h(1) m1(2) by simp
  define k where "k = length (concat (map encode rest')) - length fut"
  have p: "pending (ch_parser (others m1)) i' fut rest'" "stalled (ch_parser (others m1)) i'" using m1(3,4) by (simp_all add: conn_at_def)
  have "length fut \<le> length (concat (map encode rest'))" using pending_bytes [OF p(1)] by simp
  then have k: "k + length fut = length (concat (map encode rest'))" by (simp add: k_def)
  have "length bs + length fut = length (concat (map encode qs))" using arg_cong [OF assms(6), of length] by simp
  then have bs: "length bs = length (concat (map encode (dn @ dn2))) + k" using k unfolding q by simp
  have "arrived (length bs) qs = dn @ dn2"
    unfolding bs q arrived_append arrived_stalled [OF p k] by simp
  then have "\<exists>m' rs u. socket_in (server_ctx K P me A t) m = Inr m' \<and> sock_bufs m' rs u
      \<and> outbox (snd (kenv m')) @ u = replies A svc answer (arrived (length bs) qs)"
    using m1(1,3) by (auto simp: conn_at_def)
  moreover have "sock_bufs m i u" using h(2) by (simp add: conn_at_def)
  moreover have "\<exists>m' j. socket_out (server_ctx K P me A t) n m = Inr m' \<and> sock_bufs m' i (drop j u)
      \<and> outbox (snd (kenv m')) = outbox (snd (kenv m)) @ take j u \<and> (is_writable (sock m') \<longleftrightarrow> drop j u \<noteq> [])"
    using serve_out [OF assms(1) h(2) l(3), of P me t n] by (auto simp: conn_at_def)
  ultimately show ?thesis by blast
qed

text \<open>
  Two requests, of which 30 bytes have come when the connection is registered: one is complete. The kernel takes ten
  bytes of its reply.
\<close>

definition demo_server :: "((byte list \<times> byte list, unit) world, unit, unit session_ext) rpc_api" where
  "demo_server = sock_api \<lparr>net = slow_kernel, epk = quiet_epoll,
       handler = \<lparr>on_write = Inr, on_read = Inr, on_connect = (\<lambda>_. Inr), on_error = (\<lambda>_. Inr)\<rparr>, self = 9\<rparr>
     (\<lambda>_ _ w. (True, w)) (\<lambda>_. Inr) (\<lambda>meta req. req \<noteq> []) (\<lambda>meta req k. k (rev (take 100 req)))"

definition demo_requests :: "packet list" where
  "demo_requests = [packet_new 1 (Some [101]) [1, 2], packet_new 2 (Some [101]) [3]]"

lemma slow_stream: "stream_conn slow_kernel fd fst snd"
proof -
  have r: "k_read slow_kernel fd n k = k_read (loop_kernel False) fd n k" for n k by (simp add: slow_kernel_def)
  have "stream_read slow_kernel fd fst (length \<circ> fst) False"
    using loop_kernel_reads [of False fd] unfolding stream_read_def r .
  then show ?thesis
    using slow_kernel_writes [of fd] unfolding stream_conn_def
    by (auto simp: slow_kernel_def loop_kernel_def split: prod.splits)
qed

lemma demo_server_answers: "answers demo_server demo_answer"
  by (simp add: answers_def demo_server_def sock_api_def demo_answer_def)

lemma demo_replies: "replies demo_server demo_methods demo_answer demo_requests
    = encode (packet_new 1 None [2, 1]) @ encode (packet_new 2 None [3])"
  using demo_hashes
  by (simp add: replies_def demo_requests_def reply_def packet_new_def demo_methods_def demo_server_def sock_api_def demo_answer_def)

lemma demo_first_reply: "replies demo_server demo_methods demo_answer (arrived 30 demo_requests) = encode (packet_new 1 None [2, 1])"
  using demo_hashes
  by (simp add: replies_def demo_requests_def reply_def packet_new_def demo_methods_def demo_server_def sock_api_def demo_answer_def
      kMetaSize_def)

text \<open>A connection is accepted and registered, with the bytes of \<open>k\<close> in the kernel.\<close>

lemma demo_connected:
  fixes ctl :: "addr \<Rightarrow> rpc_controller" and w :: 'w
  assumes K: "k_getpeername K fd = (\<lambda>k. (Inr ([], 0), k))"
  obtains m0 m where "rpc_on_accept K svc ctl w fd ex_epoll (pool_init buffer_new, (0, k)) = Inr m0" and "kenv m0 = (0, k)"
    and "socket_set_poller (server_ctx K quiet_epoll me A t) m0 = Inr m" and "kenv m = (0, k)" and "has_poller (sock m)"
proof -
  obtain r Q1 where r: "bl_new (pool_init buffer_new) = (r, Q1)" by fastforce
  obtain v Q2 where v: "bl_new Q1 = (v, Q2)" by fastforce
  obtain m0 :: "('a, 'w) conn" where m0: "rpc_on_accept K svc ctl w fd ex_epoll (pool_init buffer_new, (0, k)) = Inr m0"
    "kenv m0 = (0, k)" "poll m0 = ex_epoll" "\<not> has_poller (sock m0)"
    by (auto simp: rpc_on_accept_def socket_server_def GetEndpointByFd_def syscall_def K
        endpoint_init_def endpoint_string_ok Let_def r v)
  obtain ee h where ee: "heap_alloc \<lparr>ee_fd = sock_fd (sock m0), ee_events = EPOLLOUT OR EPOLLIN OR EPOLLET, ee_event = me\<rparr>
      (ep_entries ex_epoll) = (ee, h)" by fastforce
  obtain m where "socket_set_poller (server_ctx K quiet_epoll me A t) m0 = Inr m" "kenv m = (0, k)" "has_poller (sock m)"
    by (auto simp: socket_set_poller_def epoll_add_def server_ctx_def quiet_epoll_def syscall_def m0(2,3,4) guardR_def Let_def ee)
  then show ?thesis by (rule that [OF m0(1,2)])
qed

theorem connection_served_witness:
  "\<exists>m m' u. conn_reach slow_kernel quiet_epoll fst snd demo_server demo_methods 5 (take 30 (concat (map encode demo_requests))) m
    \<and> socket_in (server_ctx slow_kernel quiet_epoll 9 demo_server 77) m = Inr m'
    \<and> snd (snd (kenv m')) @ u = encode (packet_new 1 None [2, 1])"
proof -
  let ?bs = "take 30 (concat (map encode demo_requests))"
  have K: "k_getpeername slow_kernel 5 = (\<lambda>k. (Inr ([], 0), k))" by (simp add: slow_kernel_def loop_kernel_def)
  let ?C = "server_ctx slow_kernel quiet_epoll 9 demo_server 77"
  obtain m0 m :: "(byte list \<times> byte list, unit) conn" where m0:
    "rpc_on_accept slow_kernel demo_methods (\<lambda>_. controller_new) () 5 ex_epoll (pool_init buffer_new, (0, (?bs, []))) = Inr m0"
    "kenv m0 = (0, (?bs, []))" and m: "socket_set_poller ?C m0 = Inr m" "kenv m = (0, (?bs, []))" "has_poller (sock m)"
    by (rule demo_connected [OF K])
  have "conn_reach slow_kernel quiet_epoll fst snd demo_server demo_methods 5 (fst (snd (kenv m0))) m0"
    by (rule conn_reach.Accepted [OF m0(1) bpool_wf_init]) (simp add: m0(2))
  then have r0: "conn_reach slow_kernel quiet_epoll fst snd demo_server demo_methods 5 ?bs m0" by (simp add: m0(2))
  have "conn_step slow_kernel quiet_epoll fst snd demo_server [] m0 m"
    by (rule conn_step.Registered [OF m(1)]) (simp_all add: m(2) m0(2))
  from conn_reach.Step [OF r0 this] have rm: "conn_reach slow_kernel quiet_epoll fst snd demo_server demo_methods 5 ?bs m" by simp
  have l: "length (concat (map encode demo_requests)) = 45" by (simp add: demo_requests_def packet_new_def kMetaSize_def)
  have lr: "length (replies demo_server demo_methods demo_answer demo_requests) < kBufferSize"
    unfolding demo_replies by (simp add: packet_new_def kMetaSize_def kBufferSize_def)
  have b: "?bs @ drop 30 (concat (map encode demo_requests)) = concat (map encode demo_requests)" by (rule append_take_drop_id)
  have ok: "\<forall>q \<in> set demo_requests. packet_ok q" by (auto simp: demo_requests_def intro: packet_new_ok)
  have l31: "length (concat (map encode demo_requests)) < 2 ^ 31" using l by simp
  have a: "length ?bs = 30" using l by simp
  from connection_served [OF slow_stream demo_server_def demo_server_answers rm m(3) b ok l31 lr,
      where me = 9 and t = 77 and n = 0, THEN conjunct1, unfolded a demo_first_reply]
  show ?thesis using rm by blast
qed

end
