(* ===== verification/Client.thy ===== *)
theory Client
  imports Server
begin

text \<open>
  A connection of a client: the \<open>RpcChannel\<close> of \<open>src/rpc/rpc_channel.cc\<close> on its own socket. The application
  calls methods at any time, before, while and after the connection is set up; the event loop calls \<open>In\<close>
  and \<open>Out\<close>.
\<close>

section \<open>A channel as the handler of its socket\<close>

type_synonym ('k, 'w) link = "('k, (unit, 'w) channel) world"

definition fit :: "'s \<Rightarrow> ('r, 'w) channel \<Rightarrow> ('s, 'w) channel" where
  "fit s c = \<lparr>ch_parser = ch_parser c, ch_guid = ch_guid c, allocate_guid = allocate_guid c, packet_queue = packet_queue c,
     request_context = request_context c, contexts = contexts c, controllers = controllers c, sk = s, app = app c\<rparr>"

definition to_channel :: "('k, 'w) link \<Rightarrow> (('k, unit) world, 'w) channel" where
  "to_channel m = fit \<lparr>sock = sock m, blocks = blocks m, poll = poll m, kenv = kenv m, others = ()\<rparr> (others m)"

definition from_channel :: "(('k, unit) world, 'w) channel \<Rightarrow> ('k, 'w) link" where
  "from_channel c = \<lparr>sock = sock (sk c), blocks = blocks (sk c), poll = poll (sk c), kenv = kenv (sk c), others = fit () c\<rparr>"

definition channel_on_write :: "'s \<Rightarrow> 's res" where
  "channel_on_write m = Inr m"

definition channel_on_error :: "int \<Rightarrow> 's \<Rightarrow> 's res" where
  "channel_on_error err m = Inr m"

definition channel_handler :: "(('k, unit) world, 'w, unit) rpc_api \<Rightarrow> ('k, (unit, 'w) channel) data_handler" where
  "channel_handler A =
     \<lparr>on_write = channel_on_write,
      on_read = (\<lambda>m. bindR (channel_on_read A (to_channel m)) (\<lambda>c. Inr (from_channel c))),
      on_connect = (\<lambda>err m. bindR (channel_on_connect A err (to_channel m)) (\<lambda>c. Inr (from_channel c))),
      on_error = channel_on_error\<rparr>"

definition client_ctx :: "'k kernel \<Rightarrow> 'k epoll_kernel \<Rightarrow> addr \<Rightarrow> (('k, unit) world, 'w, unit) rpc_api \<Rightarrow> ('k, (unit, 'w) channel) ctx" where
  "client_ctx K P me A = \<lparr>net = K, epk = P, handler = channel_handler A, self = me\<rparr>"

text \<open>
  What the channel calls on its socket while the socket is not in the event loop: of the handler only \<open>OnConnect\<close> of
  a connection that failed is called then, which in \<open>RpcChannel\<close> only logs.
\<close>

definition idle_handler :: "('k, 'w) data_handler" where
  "idle_handler = \<lparr>on_write = Inr, on_read = Inr, on_connect = (\<lambda>_. Inr), on_error = (\<lambda>_. Inr)\<rparr>"

definition plain_ctx :: "'k kernel \<Rightarrow> 'k epoll_kernel \<Rightarrow> addr \<Rightarrow> ('k, unit) ctx" where
  "plain_ctx K P me = \<lparr>net = K, epk = P, handler = idle_handler, self = me\<rparr>"

definition rpc_channel_new :: "'k kernel \<Rightarrow> endpoint \<Rightarrow> u64 \<Rightarrow> (addr \<Rightarrow> rpc_controller) \<Rightarrow> 'w \<Rightarrow> epoll
    \<Rightarrow> bpool \<times> 'k env \<Rightarrow> ('k, 'w) link" where
  "rpc_channel_new K ep g ctl w E = (\<lambda>(Q, s).
     case socket_client K ep True True Q s of (k, Q, s) \<Rightarrow>
       \<lparr>sock = k, blocks = Q, poll = E, kenv = s, others = channel_new g ctl () w\<rparr>)"

definition rpc_call :: "(('k, unit) world, 'w, unit) rpc_api \<Rightarrow> rpc_call \<Rightarrow> ('k, 'w) link \<Rightarrow> ('k, 'w) link res" where
  "rpc_call A x m =
     bindR (channel_call A (call_name x) (call_req x) (call_ctl x) (call_resp x) (call_done x) (to_channel m)) (\<lambda>c. Inr (from_channel c))"

lemma fit_sel [simp]:
  "ch_parser (fit s c) = ch_parser c" "request_context (fit s c) = request_context c" "contexts (fit s c) = contexts c"
  "allocate_guid (fit s c) = allocate_guid c" "packet_queue (fit s c) = packet_queue c" "sk (fit s c) = s" "app (fit s c) = app c"
  "chan_wf (fit s c) = chan_wf c" "pend (fit s c) = pend c"
  by (auto simp: fit_def chan_wf_def pend_def fun_eq_iff split: option.splits)

lemma to_channel_sel [simp]:
  "ch_parser (to_channel m) = ch_parser (others m)" "allocate_guid (to_channel m) = allocate_guid (others m)"
  "packet_queue (to_channel m) = packet_queue (others m)" "app (to_channel m) = app (others m)"
  "chan_wf (to_channel m) = chan_wf (others m)" "pend (to_channel m) = pend (others m)"
  "sock (sk (to_channel m)) = sock m" "blocks (sk (to_channel m)) = blocks m" "kenv (sk (to_channel m)) = kenv m"
  by (simp_all add: to_channel_def)

lemma from_channel_sel [simp]:
  "sock (from_channel c) = sock (sk c)" "blocks (from_channel c) = blocks (sk c)" "kenv (from_channel c) = kenv (sk c)"
  "ch_parser (others (from_channel c)) = ch_parser c" "allocate_guid (others (from_channel c)) = allocate_guid c"
  "packet_queue (others (from_channel c)) = packet_queue c" "app (others (from_channel c)) = app c"
  "chan_wf (others (from_channel c)) = chan_wf c" "pend (others (from_channel c)) = pend c"
  by (simp_all add: from_channel_def)

lemma client_ctx_sel [simp]: "net (client_ctx K P me A) = K" "handler (client_ctx K P me A) = channel_handler A"
  by (simp_all add: client_ctx_def)

section \<open>Calls and answers in parts\<close>

lemma requests_append: "requests g (xs @ ys) = requests g xs @ requests (g + of_nat (length xs)) ys"
  by (induction xs arbitrary: g) (simp_all add: add.assoc)

lemma responses_append: "responses f g (xs @ ys) = responses f g xs @ responses f (g + of_nat (length xs)) ys"
  by (induction xs arbitrary: g) (simp_all add: add.assoc)

lemma waiting_append: "waiting g (xs @ ys) P = waiting (g + of_nat (length xs)) ys (waiting g xs P)"
  by (induction xs arbitrary: g P) (simp_all add: add.assoc)

lemma left_over_append: "left_over f g (xs @ ys) P = left_over f (g + of_nat (length xs)) ys (left_over f g xs P)"
  by (induction xs arbitrary: g P) (simp_all add: add.assoc)

text \<open>A part of the stream of answers from its start is the answers to the first calls.\<close>

lemma responses_split:
  "responses f g xs = dn @ rest \<Longrightarrow> \<exists>k \<le> length xs. dn = responses f g (take k xs) \<and> rest = responses f (g + of_nat k) (drop k xs)"
proof (induction xs arbitrary: g dn)
  case (Cons x xs)
  show ?case
  proof (cases "f x")
    case None
    then obtain k where "k \<le> length xs" "dn = responses f (g + 1) (take k xs)" "rest = responses f (g + 1 + of_nat k) (drop k xs)"
      using Cons.IH [of "g + 1" dn] Cons.prems by auto
    then show ?thesis using None by (intro exI [of _ "Suc k"]) (simp add: add.assoc)
  next
    case (Some bs)
    show ?thesis
    proof (cases dn)
      case Nil
      then show ?thesis using Cons.prems by (intro exI [of _ 0]) simp
    next
      case (Cons d ds)
      then have d: "d = packet_new (g + 1) None bs" "responses f (g + 1) xs = ds @ rest" using Cons.prems Some by simp_all
      from Cons.IH [OF d(2)] obtain k where "k \<le> length xs" "ds = responses f (g + 1) (take k xs)"
        "rest = responses f (g + 1 + of_nat k) (drop k xs)" by blast
      then show ?thesis using Some d(1) Cons by (intro exI [of _ "Suc k"]) (simp add: add.assoc)
    qed
  qed
qed simp

lemma call_ids_le: "unat g + length xs < 2 ^ 64 \<Longrightarrow> i \<in> set (call_ids g xs) \<Longrightarrow> unat i \<le> unat g + length xs"
proof (induction xs arbitrary: g)
  case (Cons x xs)
  then have s: "unat (g + 1) = unat g + 1" by (intro unat_succ) simp
  have "unat (g + 1) + length xs < 2 ^ 64" using Cons.prems(1) s by simp
  from Cons.IH [OF this] Cons.prems(2) s show ?case by auto
qed simp

lemma left_over_dom: "left_over f g xs P i \<noteq> None \<Longrightarrow> P i \<noteq> None \<or> i \<in> set (call_ids g xs)"
proof (induction xs arbitrary: g P)
  case (Cons x xs)
  then show ?case by (cases "f x") (fastforce split: if_splits)+
qed simp

lemma waiting_other: "i \<notin> set (call_ids g xs) \<Longrightarrow> waiting g xs P i = P i"
  by (induction xs arbitrary: g P) auto

lemma responses_ids: "p \<in> set (responses f g xs) \<Longrightarrow> guid p \<in> set (call_ids g xs)"
  by (induction xs arbitrary: g) (auto simp: packet_new_def split: option.splits)

text \<open>An answer does not touch calls with other ids.\<close>

lemma client_step_frame:
  assumes "guid p \<notin> set (call_ids g xs)"
  shows "client_step A runf p (waiting g xs P, w) = apfst (waiting g xs) (client_step A runf p (P, w))"
  using waiting_other [OF assms, of P] waiting_update [OF assms, of P None]
  by (simp add: client_step_def split: option.splits)

lemma client_fold_frame:
  "\<forall>p \<in> set ps. guid p \<notin> set (call_ids g xs)
    \<Longrightarrow> fold (client_step A runf) ps (waiting g xs P, w) = apfst (waiting g xs) (fold (client_step A runf) ps (P, w))"
proof (induction ps arbitrary: P w)
  case (Cons p ps)
  obtain P' w' where s: "client_step A runf p (P, w) = (P', w')" by fastforce
  have "client_step A runf p (waiting g xs P, w) = (waiting g xs P', w')"
    using client_step_frame [of p g xs A runf P w] Cons.prems s by simp
  then show ?case using Cons.IH [of P' w'] Cons.prems s by simp
qed simp

text \<open>The answers to the first \<open>k\<close> of the calls that wait complete those.\<close>

lemma responses_consume_part:
  assumes n: "unat g + length xs < 2 ^ 64" and k: "k \<le> length xs" and free: "\<forall>i \<in> set (call_ids g xs). P i = None"
  shows "fold (client_step A runf) (responses f g (take k xs)) (waiting g xs P, w)
    = (waiting (g + of_nat k) (drop k xs) (left_over f g (take k xs) P), fold (complete_call A runf f) (take k xs) w)"
proof -
  let ?ys = "take k xs" and ?zs = "drop k xs" and ?h = "g + of_nat k :: u64"
  have l: "length ?ys = k" using k by simp
  have e: "waiting g xs P = waiting ?h ?zs (waiting g ?ys P)"
    using waiting_append [of g ?ys ?zs P] l by simp
  have ny: "unat g + length ?ys < 2 ^ 64" using n by simp
  have uh: "unat ?h = unat g + k"
  proof -
    have "unat (of_nat k :: u64) = k" using n k by (simp add: unat_of_nat)
    then show ?thesis using n k by (simp add: unat_word_ariths)
  qed
  have nz: "unat ?h + length ?zs < 2 ^ 64" using n k uh by simp
  have "\<forall>p \<in> set (responses f g ?ys). guid p \<notin> set (call_ids ?h ?zs)"
  proof
    fix p assume "p \<in> set (responses f g ?ys)"
    then have "unat (guid p) \<le> unat g + length ?ys" by (intro call_ids_le [OF ny] responses_ids)
    then show "guid p \<notin> set (call_ids ?h ?zs)" using call_ids_bound [OF nz, of "guid p"] uh l by auto
  qed
  note fr = client_fold_frame [OF this, of A runf "waiting g ?ys P" w]
  have "call_ids g xs = call_ids g ?ys @ call_ids ?h ?zs"
  proof -
    have "call_ids g (ys @ zs) = call_ids g ys @ call_ids (g + of_nat (length ys)) zs" for g ys zs
      by (induction ys arbitrary: g) (simp_all add: add.assoc)
    from this [of g ?ys ?zs] show ?thesis using l by simp
  qed
  then have "\<forall>i \<in> set (call_ids g ?ys). P i = None" using free by simp
  from responses_consume [OF ny this, of A runf f w] fr e show ?thesis by simp
qed

section \<open>What holds of a channel\<close>

text \<open>
  The calls \<open>xs\<close> were made, and the answers to the first \<open>n\<close> of them were received: those that have one are
  completed, the others wait. \<open>f\<close> gives the answer to a call, if there is one.
\<close>

definition link_calls :: "('s, 'w, 'x) rpc_api \<Rightarrow> (nat \<Rightarrow> 'w \<Rightarrow> 'w) \<Rightarrow> (rpc_call \<Rightarrow> byte list option) \<Rightarrow> 'w
    \<Rightarrow> rpc_call list \<Rightarrow> nat \<Rightarrow> (u64 \<Rightarrow> request_context option) \<Rightarrow> 'w \<Rightarrow> bool" where
  "link_calls A runf f w0 xs n P w \<longleftrightarrow> n \<le> length xs
     \<and> P = waiting (of_nat n) (drop n xs) (left_over f 0 (take n xs) Map.empty)
     \<and> w = fold (complete_call A runf f) (take n xs) w0"

lemma link_calls_snoc:
  assumes "link_calls A runf f w0 xs n P w"
  shows "link_calls A runf f w0 (xs @ [x]) n (P(of_nat (length xs) + 1 \<mapsto> context_of x)) w"
proof -
  have n: "n \<le> length xs" using assms by (simp add: link_calls_def)
  have "(of_nat n :: u64) + of_nat (length (drop n xs)) = of_nat (length xs)"
    unfolding of_nat_add [symmetric] using n by simp
  then show ?thesis using assms n waiting_append [of "of_nat n" "drop n xs" "[x]"]
    by (simp add: link_calls_def)
qed

lemma link_calls_answers:
  assumes c: "link_calls A runf f w0 xs n P w" and l: "length xs < 2 ^ 64"
    and d: "responses f (of_nat n) (drop n xs) = dn @ rest"
  shows "\<exists>n' P' w'. fold (client_step A runf) dn (P, w) = (P', w') \<and> link_calls A runf f w0 xs n' P' w' \<and> n \<le> n'
    \<and> rest = responses f (of_nat n') (drop n' xs)"
proof -
  let ?L = "left_over f 0 (take n xs) Map.empty"
  have c': "n \<le> length xs" "P = waiting (of_nat n) (drop n xs) ?L" "w = fold (complete_call A runf f) (take n xs) w0"
    using c by (simp_all add: link_calls_def)
  obtain k where k: "k \<le> length (drop n xs)" "dn = responses f (of_nat n) (take k (drop n xs))"
    "rest = responses f (of_nat n + of_nat k) (drop k (drop n xs))" using responses_split [OF d] by blast
  have un: "unat (of_nat n :: u64) = n" using c'(1) l by (simp add: unat_of_nat)
  have b: "unat (of_nat n :: u64) + length (drop n xs) < 2 ^ 64" using un c'(1) l by simp
  have free: "\<forall>i \<in> set (call_ids (of_nat n) (drop n xs)). ?L i = None"
  proof
    fix i assume i: "i \<in> set (call_ids (of_nat n) (drop n xs))"
    show "?L i = None"
    proof (rule ccontr)
      assume "?L i \<noteq> None"
      then have "i \<in> set (call_ids 0 (take n xs))" using left_over_dom [of f 0 "take n xs" Map.empty i] by simp
      from call_ids_le [OF _ this] have "unat i \<le> n" using c'(1) l by simp
      then show False using call_ids_bound [OF b i] un by simp
    qed
  qed
  let ?w = "fold (complete_call A runf f) (take k (drop n xs)) w"
  let ?P = "waiting (of_nat n + of_nat k) (drop k (drop n xs)) (left_over f (of_nat n) (take k (drop n xs)) ?L)"
  have s: "fold (client_step A runf) dn (P, w) = (?P, ?w)"
    using responses_consume_part [OF b k(1) free, of A runf f w] unfolding k(2) c'(2) .
  have t: "take (n + k) xs = take n xs @ take k (drop n xs)" by (rule take_add)
  have lt: "(of_nat (length (take n xs)) :: u64) = of_nat n" using c'(1) by simp
  have "left_over f 0 (take (n + k) xs) Map.empty = left_over f (of_nat n) (take k (drop n xs)) ?L"
    unfolding t left_over_append lt by simp
  moreover have "?w = fold (complete_call A runf f) (take (n + k) xs) w0" unfolding t c'(3) by simp
  ultimately have "link_calls A runf f w0 xs (n + k) ?P ?w"
    using k(1) c'(1) by (simp add: link_calls_def add.commute)
  then show ?thesis using s k(3) by (intro exI [of _ "n + k"] exI [of _ ?P] exI [of _ ?w]) (simp add: add.commute)
qed

text \<open>
  \<open>i\<close> is in the read buffer and \<open>fut\<close> has not arrived; \<open>u\<close> is in the write buffer. Before the connection stands
  the requests are in the queue.
\<close>

definition link_at :: "('k \<Rightarrow> byte list) \<Rightarrow> ('k \<Rightarrow> byte list) \<Rightarrow> (('k, unit) world, 'w, unit) rpc_api
    \<Rightarrow> (nat \<Rightarrow> 'w \<Rightarrow> 'w) \<Rightarrow> (rpc_call \<Rightarrow> byte list option) \<Rightarrow> 'w \<Rightarrow> int
    \<Rightarrow> rpc_call list \<Rightarrow> nat \<Rightarrow> byte list \<Rightarrow> byte list \<Rightarrow> byte list \<Rightarrow> ('k, 'w) link \<Rightarrow> bool" where
  "link_at inbox outbox A runf f w0 fd xs n i u fut m \<longleftrightarrow>
     sock_bufs m i u \<and> pending (ch_parser (others m)) i (inbox (snd (kenv m)) @ fut) (responses f (of_nat n) (drop n xs))
     \<and> stalled (ch_parser (others m)) i
     \<and> sock_fd (sock m) = fd \<and> has_handler (sock m) \<and> sock_ready m \<and> (u \<noteq> [] \<longrightarrow> is_writable (sock m))
     \<and> in_block (length (outbox (snd (kenv m)))) (length (outbox (snd (kenv m))) + length u) (write_list (sock m))
     \<and> chan_wf (others m) \<and> allocate_guid (others m) = of_nat (length xs)
     \<and> link_calls A runf f w0 xs n (pend (others m)) (app (others m))
     \<and> (case status (sock m) of
          SOCKET_INIT \<Rightarrow> xs = [] \<and> packet_queue (others m) = [] \<and> outbox (snd (kenv m)) = [] \<and> u = [] \<and> sock_type (sock m) = CLIENT_SOCKET
        | SOCKET_CONNECTING \<Rightarrow> packet_queue (others m) = requests 0 xs \<and> outbox (snd (kenv m)) = [] \<and> u = []
        | SOCKET_CONNECTED \<Rightarrow> packet_queue (others m) = [] \<and> outbox (snd (kenv m)) @ u = concat (map encode (requests 0 xs))
        | SOCKET_CLOSED \<Rightarrow> outbox (snd (kenv m)) = [] \<and> u = [])"

lemma link_rep:
  "link_at inbox outbox A runf f w0 fd xs n i u fut m \<Longrightarrow> status (sock m) = SOCKET_CONNECTED
    \<Longrightarrow> conn_rep (kenv m) fd (length (outbox (snd (kenv m)))) (sk (to_channel m)) i u"
  by (simp add: link_at_def conn_rep_def online_def sock_ready_def sock_bufs_def)

text \<open>\<open>In\<close> receives all that has arrived.\<close>

lemma link_in:
  assumes st: "stream_conn K fd inbox outbox" and A: "A = sock_api (plain_ctx K P me0) parse run valid call" and run: "runs_app A runf"
    and at: "link_at inbox outbox A runf f w0 fd xs n i u fut m" and l: "length xs < 2 ^ 64"
    and lb: "length (concat (map encode (responses f 0 xs))) < 2 ^ 31" and lr: "length (concat (map encode (requests 0 xs))) < kBufferSize"
  shows "\<exists>m' n' i' u'. socket_in (client_ctx K P me A) m = Inr m' \<and> link_at inbox outbox A runf f w0 fd xs n' i' u' fut m'
    \<and> (status (sock m) = SOCKET_CONNECTED \<longrightarrow> inbox (snd (kenv m')) = []) \<and> outbox (snd (kenv m')) = outbox (snd (kenv m))
    \<and> status (sock m') = status (sock m)"
proof (cases "status (sock m) = SOCKET_CONNECTED")
  case False
  then show ?thesis using at by (intro exI [of _ m] exI [of _ n] exI [of _ i] exI [of _ u]) (simp add: socket_in_def)
next
  case True
  note at' = at [unfolded link_at_def]
  let ?in = "inbox (snd (kenv m))" and ?C = "client_ctx K P me A" and ?ps = "responses f (of_nat n) (drop n xs)"
  have n: "n \<le> length xs" using at' by (simp add: link_calls_def)
  have "responses f 0 xs = responses f 0 (take n xs) @ ?ps"
    using responses_append [of f 0 "take n xs" "drop n xs"] n by simp
  then have "length (concat (map encode ?ps)) \<le> length (concat (map encode (responses f 0 xs)))" by simp
  moreover have "length i + length ?in + length fut \<le> length (concat (map encode ?ps))"
    using pending_bytes [of _ i "?in @ fut" ?ps] at' by fastforce
  ultimately have bl: "length i + length ?in < 2 ^ 31" using lb by linarith
  have pre: "stream_conn (net ?C) (sock_fd (sock m)) inbox outbox" "sock_bufs m i u" using at' st by auto
  obtain rl Q k m1 where m1: "m1 = (with_sock (read_list_update (\<lambda>_. rl)) m)\<lparr>blocks := Q, kenv := (EAGAIN, k)\<rparr>"
    "sock_bufs m1 (i @ ?in) u" "inbox k = []" "outbox k = outbox (snd (kenv m))"
    "socket_in ?C m = (if i @ ?in \<noteq> [] \<and> has_handler (sock m) then on_read (handler ?C) m1 else Inr m1)"
    by (rule sock_receives [OF pre(1) True pre(2) bl])
  let ?r = "length (outbox k)"
  have p1: "pending (ch_parser (others m1)) (i @ ?in) fut ?ps" using at' m1(1) by (simp add: pending_append)
  have o1: "outbox k @ u = concat (map encode (requests 0 xs))" "packet_queue (others m1) = []" using at' m1(1,4) True by simp_all
  have c1: "status (sock m1) = SOCKET_CONNECTED" "sock_fd (sock m1) = fd" "has_handler (sock m1)" "sock_ready m1"
    "u \<noteq> [] \<longrightarrow> is_writable (sock m1)" "in_block ?r (?r + length u) (write_list (sock m1))" "kenv m1 = (EAGAIN, k)"
    "chan_wf (others m1)" "allocate_guid (others m1) = of_nat (length xs)"
    "link_calls A runf f w0 xs n (pend (others m1)) (app (others m1))"
    using at' m1(1,4) True by (simp_all add: sock_ready_def)
  show ?thesis
  proof (cases "i @ ?in = []")
    case e: True
    have "link_at inbox outbox A runf f w0 fd xs n i u fut m1"
      using at' c1 o1 m1(1,2,3) p1 e unfolding link_at_def by simp
    then show ?thesis using m1(3,4,5) e c1(1,7) True
      by (intro exI [of _ m1] exI [of _ n] exI [of _ i] exI [of _ u]) simp
  next
    case False
    then have rd: "socket_in ?C m = bindR (channel_on_read A (to_channel m1)) (\<lambda>c. Inr (from_channel c))"
      using m1(5) at' by (simp add: channel_handler_def)
    have rep: "conn_rep (EAGAIN, k) fd ?r (sk (to_channel m1)) (i @ ?in) u"
      using c1 m1(2) by (simp add: conn_rep_def online_def sock_ready_def sock_bufs_def)
    have pe: "pending (ch_parser (to_channel m1)) (i @ ?in) fut ?ps" using p1 by simp
    have api: "a_read A = socket_read" "a_size A = read_buffer_size" unfolding A by simp_all
    have wf: "chan_wf (to_channel m1)" using c1(8) by simp
    from conn.channel_on_read_partial [OF api run wf rep pe] obtain c dn rest i' where
      c: "?ps = dn @ rest" "channel_on_read A (to_channel m1) = Inr c" "chan_wf c" "conn_rep (EAGAIN, k) fd ?r (sk c) i' u"
        "pending (ch_parser c) i' fut rest" "stalled (ch_parser c) i'" "allocate_guid c = of_nat (length xs)" "packet_queue c = []"
        "(pend c, app c) = fold (client_step A runf) dn (pend (others m1), app (others m1))"
      unfolding to_channel_sel c1(9) o1(2) by blast
    obtain n' P' w' where n': "fold (client_step A runf) dn (pend (others m1), app (others m1)) = (P', w')"
      "link_calls A runf f w0 xs n' P' w'" "rest = responses f (of_nat n') (drop n' xs)"
      using link_calls_answers [OF c1(10) l c(1)] by blast
    have tot: "?r + length u < kBufferSize" using lr arg_cong [OF o1(1), of length] by simp
    have s: "sock_bufs (sk c) i' u" "status (sock (sk c)) = SOCKET_CONNECTED" "sock_ready (sk c)" "kenv (sk c) = (EAGAIN, k)"
      "sock_fd (sock (sk c)) = fd" "has_handler (sock (sk c))" "u \<noteq> [] \<longrightarrow> is_writable (sock (sk c))"
      "in_block ?r (?r + length u) (write_list (sock (sk c)))"
      using c(4) tot by (simp_all add: conn_rep_def online_def)
    have "link_at inbox outbox A runf f w0 fd xs n' i' u fut (from_channel c)"
      unfolding link_at_def using c(3,5-8) c(9) n' s o1(1) m1(3) by (simp add: sock_bufs_def sock_ready_def)
    then show ?thesis using rd c(2) s(2,4) m1(3,4) True
      by (intro exI [of _ "from_channel c"] exI [of _ n'] exI [of _ i'] exI [of _ u]) simp
  qed
qed

text \<open>\<open>Out\<close>: when the connection comes up the queue goes to the write buffer first.\<close>

lemma socket_out_connecting:
  assumes "status (sock m) = SOCKET_CONNECTING" and "has_handler (sock m)"
    and "on_connect (handler C) kOK (with_sock (status_update (\<lambda>_. SOCKET_CONNECTED)) m) = Inr m'" and "status (sock m') = SOCKET_CONNECTED"
  shows "socket_out C n m = socket_out C n m'"
  using assms by (simp add: socket_out_def)

lemma link_connected:
  assumes A: "A = sock_api (plain_ctx K P me0) parse run valid call"
    and at: "link_at inbox outbox A runf f w0 fd xs n i u fut m" and c: "status (sock m) = SOCKET_CONNECTING"
    and lr: "length (concat (map encode (requests 0 xs))) < kBufferSize"
  shows "\<exists>m'. on_connect (channel_handler A) kOK (with_sock (status_update (\<lambda>_. SOCKET_CONNECTED)) m) = Inr m'
    \<and> link_at inbox outbox A runf f w0 fd xs n i (concat (map encode (requests 0 xs))) fut m'
    \<and> status (sock m') = SOCKET_CONNECTED \<and> kenv m' = kenv m"
proof -
  note at' = at [unfolded link_at_def]
  let ?m = "with_sock (status_update (\<lambda>_. SOCKET_CONNECTED)) m" and ?q = "requests 0 xs"
  have e: "u = []" "outbox (snd (kenv m)) = []" "packet_queue (others m) = ?q" using at' c by simp_all
  have rep: "conn_rep (kenv m) fd 0 (sk (to_channel ?m)) i []"
    using at' e by (simp add: conn_rep_def online_def sock_ready_def sock_bufs_def)
  have q: "packet_queue (to_channel ?m) = ?q" "chan_wf (to_channel ?m)" using at' e by simp_all
  have w: "a_write A = socket_write (plain_ctx K P me0)" by (simp add: A)
  have l: "length ([] :: byte list) + length (concat (map encode ?q)) < 2 ^ 64" using lr by (simp add: kBufferSize_def)
  from conn.send_queue_step [OF w rep q(2,1) l] obtain c' where
    c': "send_queue A ?q (to_channel ?m) = Inr c'" "conn_rep (kenv m) fd 0 (sk c') i (concat (map encode ?q))" "chan_wf c'"
      "pend c' = pend (others m)" "app c' = app (others m)" "packet_queue c' = []" "ch_parser c' = ch_parser (others m)"
      "allocate_guid c' = allocate_guid (others m)" by auto
  have s: "sock_bufs (sk c') i (concat (map encode ?q))" "status (sock (sk c')) = SOCKET_CONNECTED" "sock_ready (sk c')"
    "kenv (sk c') = kenv m" "sock_fd (sock (sk c')) = fd" "has_handler (sock (sk c'))"
    "concat (map encode ?q) \<noteq> [] \<longrightarrow> is_writable (sock (sk c'))"
    "in_block 0 (0 + length (concat (map encode ?q))) (write_list (sock (sk c')))"
    using c'(2) lr by (simp_all add: conn_rep_def online_def del: length_concat)
  have "link_at inbox outbox A runf f w0 fd xs n i (concat (map encode ?q)) fut (from_channel c')"
    unfolding link_at_def using at' c'(3-8) s e by (simp add: sock_bufs_def sock_ready_def)
  moreover have "on_connect (channel_handler A) kOK ?m = Inr (from_channel c')"
    using c'(1) q(1) by (simp add: channel_handler_def channel_on_connect_def)
  ultimately show ?thesis using s(2,4) by (intro exI [of _ "from_channel c'"]) simp
qed

lemma link_out_online:
  assumes st: "stream_conn K fd inbox outbox" and at: "link_at inbox outbox A runf f w0 fd xs n i u fut m"
    and on: "status (sock m) = SOCKET_CONNECTED" and lr: "length (concat (map encode (requests 0 xs))) < kBufferSize"
  shows "\<exists>m' j. socket_out (client_ctx K P me A) n0 m = Inr m' \<and> link_at inbox outbox A runf f w0 fd xs n i (drop j u) fut m'
    \<and> outbox (snd (kenv m')) = outbox (snd (kenv m)) @ take j u \<and> status (sock m') = SOCKET_CONNECTED
    \<and> (roomy K fd \<longrightarrow> drop j u = [])"
proof -
  let ?C = "client_ctx K P me A" and ?r = "length (outbox (snd (kenv m)))"
  note at' = at [unfolded link_at_def]
  have pre: "stream_conn (net ?C) (sock_fd (sock m)) inbox outbox" "sock_bufs m i u"
    "u \<noteq> [] \<longrightarrow> is_writable (sock m)" "in_block ?r (?r + length u) (write_list (sock m))"
    using at' st by auto
  have o: "outbox (snd (kenv m)) @ u = concat (map encode (requests 0 xs))" using at' on by simp
  have tot: "?r + length u < kBufferSize" using lr o by (metis length_append)
  obtain j wl Q s m1 where
    m1: "m1 = (with_sock (\<lambda>x. x\<lparr>write_list := wl, is_writable := drop j u \<noteq> []\<rparr>) m)\<lparr>blocks := Q, kenv := s\<rparr>"
    "sock_bufs m1 i (drop j u)" "outbox (snd s) = outbox (snd (kenv m)) @ take j u" "inbox (snd s) = inbox (snd (kenv m))"
    "in_block (?r + j) (?r + length u) wl" "j \<le> length u"
    "socket_out ?C n0 m = on_write (handler ?C) m1 \<or> socket_out ?C n0 m = Inr m1"
    "roomy (net ?C) (sock_fd (sock m)) \<longrightarrow> drop j u = []"
    by (rule sock_sends [OF pre(1) on pre(2-4) tot, where n = n0])
  have room: "drop j u = []" if "roomy K fd" using m1(8) that at' by simp
  have c: "link_at inbox outbox A runf f w0 fd xs n i (drop j u) fut m1"
    using at' on m1(1-6) o by (simp add: link_at_def sock_ready_def)
  have "socket_out ?C n0 m = Inr m1" using m1(7) by (auto simp: channel_handler_def channel_on_write_def)
  then show ?thesis using c m1(1,3) on room by (intro exI [of _ m1] exI [of _ j]) simp
qed

lemma link_out:
  assumes st: "stream_conn K fd inbox outbox" and A: "A = sock_api (plain_ctx K P me0) parse run valid call"
    and at: "link_at inbox outbox A runf f w0 fd xs n i u fut m" and lr: "length (concat (map encode (requests 0 xs))) < kBufferSize"
  shows "\<exists>m' u' j. socket_out (client_ctx K P me A) n0 m = Inr m' \<and> link_at inbox outbox A runf f w0 fd xs n i u' fut m'
    \<and> outbox (snd (kenv m')) = outbox (snd (kenv m)) @ j
    \<and> (status (sock m') = SOCKET_CONNECTED \<longleftrightarrow> status (sock m) \<in> {SOCKET_CONNECTING, SOCKET_CONNECTED})
    \<and> (roomy K fd \<and> status (sock m') = SOCKET_CONNECTED \<longrightarrow> u' = [])"
proof (cases "status (sock m)")
  case SOCKET_CONNECTED
  from link_out_online [OF st at this lr, of P me n0] SOCKET_CONNECTED show ?thesis by auto
next
  case SOCKET_CONNECTING
  from link_connected [OF A at this lr] obtain m1 where
    m1: "on_connect (channel_handler A) kOK (with_sock (status_update (\<lambda>_. SOCKET_CONNECTED)) m) = Inr m1"
      "link_at inbox outbox A runf f w0 fd xs n i (concat (map encode (requests 0 xs))) fut m1"
      "status (sock m1) = SOCKET_CONNECTED" "kenv m1 = kenv m" by blast
  have "socket_out (client_ctx K P me A) n0 m = socket_out (client_ctx K P me A) n0 m1"
    by (rule socket_out_connecting [OF SOCKET_CONNECTING _ _ m1(3)]) (use at m1(1) in \<open>simp_all add: link_at_def\<close>)
  with link_out_online [OF st m1(2,3) lr, of P me n0] m1(4) SOCKET_CONNECTING show ?thesis by auto
next
  case SOCKET_INIT
  then show ?thesis using at by (intro exI [of _ m] exI [of _ u] exI [of _ "[]"]) (simp add: socket_out_def)
next
  case SOCKET_CLOSED
  then show ?thesis using at by (intro exI [of _ m] exI [of _ u] exI [of _ "[]"]) (simp add: socket_out_def)
qed

text \<open>A call.\<close>

lemma pending_more:
  assumes "pending r i fut ps" and "\<forall>q \<in> set qs. packet_ok q"
  shows "pending r i (fut @ concat (map encode qs)) (ps @ qs)"
proof (cases ps)
  case Nil
  then show ?thesis using assms by (intro pending_headerI) auto
next
  case (Cons p ps')
  then show ?thesis using assms by (auto split: recv_state.splits)
qed

lemma socket_connect_effect:
  assumes "socket_connect (plain_ctx K P me) m = Inr m'" and "status (sock m) = SOCKET_INIT"
  shows "blocks m' = blocks m \<and> (\<exists>st \<in> {SOCKET_CONNECTING, SOCKET_CLOSED}. sock m' = (sock m)\<lparr>status := st\<rparr>)"
  using assms by (auto simp: socket_connect_def plain_ctx_def idle_handler_def Let_def res_simps split: if_splits)

lemma link_guid:
  assumes at: "link_at inbox outbox A runf f w0 fd xs n i u fut m" and l: "length (xs @ [x]) < 2 ^ 64"
  shows "allocate_guid (others m) = of_nat (length xs)" and "unat (allocate_guid (others m)) = length xs"
    and "allocate_guid (others m) \<noteq> -1" and "requests 0 (xs @ [x]) = requests 0 xs @ requests (allocate_guid (others m)) [x]"
proof -
  show g: "allocate_guid (others m) = of_nat (length xs)" using at by (simp add: link_at_def)
  show u: "unat (allocate_guid (others m)) = length xs" using l g by (simp add: unat_of_nat)
  show "allocate_guid (others m) \<noteq> -1" using l u by (intro u64_ovf) simp
  show "requests 0 (xs @ [x]) = requests 0 xs @ requests (allocate_guid (others m)) [x]"
    using requests_append [of 0 xs "[x]"] g by simp
qed

text \<open>What a call has to leave for the channel to be right after it.\<close>

lemma link_grown:
  assumes at: "link_at inbox outbox A runf f w0 fd xs n i u fut m" and ok: "\<forall>q \<in> set (responses f (of_nat (length xs)) [x]). packet_ok q"
    and k: "inbox (snd (kenv m')) = inbox (snd (kenv m))" "outbox (snd (kenv m')) = outbox (snd (kenv m))"
    and "sock_bufs m' i u'" and "ch_parser (others m') = ch_parser (others m)" and "sock_fd (sock m') = fd" and "has_handler (sock m')"
    and "sock_ready m'" and "u' \<noteq> [] \<longrightarrow> is_writable (sock m')"
    and "in_block (length (outbox (snd (kenv m)))) (length (outbox (snd (kenv m))) + length u') (write_list (sock m'))"
    and "chan_wf (others m')" and "allocate_guid (others m') = allocate_guid (others m) + 1"
    and "pend (others m') = (pend (others m))(allocate_guid (others m) + 1 \<mapsto> context_of x)" and "app (others m') = app (others m)"
    and "case status (sock m') of
          SOCKET_INIT \<Rightarrow> False
        | SOCKET_CONNECTING \<Rightarrow> packet_queue (others m') = requests 0 (xs @ [x]) \<and> outbox (snd (kenv m)) = [] \<and> u' = []
        | SOCKET_CONNECTED \<Rightarrow> packet_queue (others m') = [] \<and> outbox (snd (kenv m)) @ u' = concat (map encode (requests 0 (xs @ [x])))
        | SOCKET_CLOSED \<Rightarrow> outbox (snd (kenv m)) = [] \<and> u' = []"
  shows "link_at inbox outbox A runf f w0 fd (xs @ [x]) n i u' (fut @ concat (map encode (responses f (of_nat (length xs)) [x]))) m'"
proof -
  note at' = at [unfolded link_at_def]
  let ?rx = "responses f (of_nat (length xs)) [x]"
  have n: "n \<le> length xs" using at' by (simp add: link_calls_def)
  have g: "allocate_guid (others m) = of_nat (length xs)" using at' by simp
  have "(of_nat n :: u64) + of_nat (length (drop n xs)) = of_nat (length xs)"
    unfolding of_nat_add [symmetric] using n by simp
  then have rs: "responses f (of_nat n) (drop n (xs @ [x])) = responses f (of_nat n) (drop n xs) @ ?rx"
    using responses_append [of f "of_nat n" "drop n xs" "[x]"] n by simp
  have pe: "pending (ch_parser (others m)) i (inbox (snd (kenv m)) @ fut @ concat (map encode ?rx)) (responses f (of_nat n) (drop n (xs @ [x])))"
    using pending_more [OF _ ok, of "ch_parser (others m)" i "inbox (snd (kenv m)) @ fut" "responses f (of_nat n) (drop n xs)"] at'
    unfolding rs by simp
  have lc: "link_calls A runf f w0 (xs @ [x]) n ((pend (others m))(allocate_guid (others m) + 1 \<mapsto> context_of x)) (app (others m))"
    using link_calls_snoc [of A runf f w0 xs n] at' unfolding g by blast
  show ?thesis using assms pe lc at' g unfolding link_at_def by (simp split: socket_status.splits)
qed

lemma link_called_connected:
  assumes A: "A = sock_api (plain_ctx K P me0) parse run valid call"
    and at: "link_at inbox outbox A runf f w0 fd xs n i u fut m" and st: "status (sock m) = SOCKET_CONNECTED"
    and c: "channel_call A (call_name x) (call_req x) (call_ctl x) (call_resp x) (call_done x) (to_channel m) = Inr c"
    and k: "inbox (snd (kenv (from_channel c))) = inbox (snd (kenv m))" "outbox (snd (kenv (from_channel c))) = outbox (snd (kenv m))"
    and l: "length (xs @ [x]) < 2 ^ 64" and lr: "length (concat (map encode (requests 0 (xs @ [x])))) < kBufferSize"
    and ok: "\<forall>q \<in> set (responses f (of_nat (length xs)) [x]). packet_ok q"
  shows "\<exists>u'. link_at inbox outbox A runf f w0 fd (xs @ [x]) n i u' (fut @ concat (map encode (responses f (of_nat (length xs)) [x]))) (from_channel c)"
proof -
  note at' = at [unfolded link_at_def] and gd = link_guid [OF at l]
  let ?g = "allocate_guid (others m)" and ?r = "length (outbox (snd (kenv m)))"
  let ?u = "u @ concat (map encode (requests ?g [x]))"
  have o: "packet_queue (others m) = []" "outbox (snd (kenv m)) @ u = concat (map encode (requests 0 xs))" using at' st by simp_all
  have o2: "outbox (snd (kenv m)) @ ?u = concat (map encode (requests 0 (xs @ [x])))" using o(2) unfolding gd(4) by simp
  have tot: "?r + length ?u < kBufferSize" using lr unfolding o2 [symmetric] by (simp only: length_append)
  have lu: "length u + length (concat (map encode (requests (allocate_guid (to_channel m)) [x]))) < 2 ^ 64"
    using tot by (simp add: kBufferSize_def del: requests.simps)
  have ul: "unat (allocate_guid (to_channel m)) + length [x] < 2 ^ 64" using gd(2) l by simp
  have w: "a_write A = socket_write (plain_ctx K P me0)" "a_status A = (\<lambda>m. status (sock m))" by (simp_all add: A)
  have wf: "chan_wf (to_channel m)" using at' by simp
  from conn.call_all_step [where A = A and C = "plain_ctx K P me0", OF w(1) _ wf link_rep [OF at st] ul lu]
  obtain c' where c': "call_all A [x] (to_channel m) = Inr c'" "chan_wf c'" "conn_rep (kenv m) fd ?r (sk c') i ?u"
    "pend c' = waiting ?g [x] (pend (others m))" "app c' = app (others m)" "ch_parser c' = ch_parser (others m)"
    "allocate_guid c' = ?g + 1" "packet_queue c' = []"
    unfolding to_channel_sel w(2) o(1) by (auto simp: conn_rep_def online_def simp del: requests.simps waiting.simps)
  have cc: "c = c'" using c c'(1) by simp
  have s: "sock_bufs (sk c) i ?u" "status (sock (sk c)) = SOCKET_CONNECTED" "sock_ready (sk c)"
    "sock_fd (sock (sk c)) = fd" "has_handler (sock (sk c))" "?u \<noteq> [] \<longrightarrow> is_writable (sock (sk c))"
    "in_block ?r (?r + length ?u) (write_list (sock (sk c)))"
    using c'(3) tot unfolding conn_rep_def online_def cc by blast+
  have "link_at inbox outbox A runf f w0 fd (xs @ [x]) n i ?u (fut @ concat (map encode (responses f (of_nat (length xs)) [x]))) (from_channel c)"
  proof (rule link_grown [OF at ok k])
    show "sock_bufs (from_channel c) i ?u" using s(1) unfolding sock_bufs_def from_channel_sel .
    show "sock_ready (from_channel c)" using s(3) by (simp add: sock_ready_def)
    show "case status (sock (from_channel c)) of SOCKET_INIT \<Rightarrow> False
      | SOCKET_CONNECTING \<Rightarrow> packet_queue (others (from_channel c)) = requests 0 (xs @ [x]) \<and> outbox (snd (kenv m)) = [] \<and> ?u = []
      | SOCKET_CONNECTED \<Rightarrow> packet_queue (others (from_channel c)) = [] \<and> outbox (snd (kenv m)) @ ?u = concat (map encode (requests 0 (xs @ [x])))
      | SOCKET_CLOSED \<Rightarrow> outbox (snd (kenv m)) = [] \<and> ?u = []"
      unfolding from_channel_sel s(2) socket_status.case using c'(8) [folded cc] o2 by blast
    show "pend (others (from_channel c)) = (pend (others m))(?g + 1 \<mapsto> context_of x)" using c'(4) unfolding cc from_channel_sel waiting.simps .
  qed (use c'(2,5-7) s(4-7) in \<open>simp_all only: cc from_channel_sel\<close>)
  then show ?thesis by blast
qed

text \<open>Before the connection stands a call is queued; the first one starts to connect.\<close>

lemma link_called_queued:
  assumes A: "A = sock_api (plain_ctx K P me0) parse run valid call"
    and at: "link_at inbox outbox A runf f w0 fd xs n i u fut m" and st: "status (sock m) \<in> {SOCKET_INIT, SOCKET_CONNECTING}"
    and c: "channel_call A (call_name x) (call_req x) (call_ctl x) (call_resp x) (call_done x) (to_channel m) = Inr c"
    and k: "inbox (snd (kenv (from_channel c))) = inbox (snd (kenv m))" "outbox (snd (kenv (from_channel c))) = outbox (snd (kenv m))"
    and l: "length (xs @ [x]) < 2 ^ 64" and ok: "\<forall>q \<in> set (responses f (of_nat (length xs)) [x]). packet_ok q"
  shows "link_at inbox outbox A runf f w0 fd (xs @ [x]) n i [] (fut @ concat (map encode (responses f (of_nat (length xs)) [x]))) (from_channel c)"
proof -
  note at' = at [unfolded link_at_def] and gd = link_guid [OF at l]
  let ?g = "allocate_guid (others m)"
  have e: "packet_queue (others m) = requests 0 xs" "outbox (snd (kenv m)) = []" "u = []" using at' st by auto
  have wf: "chan_wf (to_channel m)" using at' by simp
  from push_request_step [OF wf, of x] gd(3) obtain c' where
    c': "push_request (call_name x) (call_req x) (call_ctl x) (call_resp x) (call_done x) (to_channel m) = c'" "chan_wf c'"
      "sk c' = sk (to_channel m)" "ch_parser c' = ch_parser (others m)" "app c' = app (others m)" "allocate_guid c' = ?g + 1"
      "pend c' = (pend (others m))(?g + 1 \<mapsto> context_of x)" "packet_queue c' = requests 0 (xs @ [x])"
    unfolding to_channel_sel e(1) gd(4) by blast
  have w: "a_status A = (\<lambda>m. status (sock m))" "a_connect A = socket_connect (plain_ctx K P me0)" by (simp_all add: A sock_api_def)
  have "\<exists>s. c = c'\<lparr>sk := s\<rparr> \<and> blocks s = blocks m \<and> (\<exists>q \<in> {SOCKET_CONNECTING, SOCKET_CLOSED}. sock s = (sock m)\<lparr>status := q\<rparr>)"
  proof (cases "status (sock m)")
    case SOCKET_INIT
    then obtain s where s: "socket_connect (plain_ctx K P me0) (sk (to_channel m)) = Inr s" "c = c'\<lparr>sk := s\<rparr>"
      using c c'(1,3) by (auto simp: channel_call_def w res_simps)
    from socket_connect_effect [OF s(1)] SOCKET_INIT s(2) show ?thesis by auto
  next
    case SOCKET_CONNECTING
    then have "c = c'" using c c'(1) by (simp add: channel_call_def w)
    then show ?thesis using SOCKET_CONNECTING c'(3) by (intro exI [of _ "sk c'"]) simp
  qed (use st in auto)
  then obtain s q where s: "c = c'\<lparr>sk := s\<rparr>" "blocks s = blocks m" "q \<in> {SOCKET_CONNECTING, SOCKET_CLOSED}"
    "sock s = (sock m)\<lparr>status := q\<rparr>" by blast
  show ?thesis
    by (rule link_grown [OF at ok k]) (use at' c'(2-8) e s in \<open>auto simp: sock_bufs_def sock_ready_def\<close>)
qed

lemma link_called:
  assumes A: "A = sock_api (plain_ctx K P me0) parse run valid call"
    and at: "link_at inbox outbox A runf f w0 fd xs n i u fut m" and opn: "status (sock m) \<noteq> SOCKET_CLOSED"
    and run: "rpc_call A x m = Inr m'" and k: "inbox (snd (kenv m')) = inbox (snd (kenv m))" "outbox (snd (kenv m')) = outbox (snd (kenv m))"
    and l: "length (xs @ [x]) < 2 ^ 64" and lr: "length (concat (map encode (requests 0 (xs @ [x])))) < kBufferSize"
    and ok: "\<forall>q \<in> set (responses f (of_nat (length xs)) [x]). packet_ok q"
  shows "\<exists>u'. link_at inbox outbox A runf f w0 fd (xs @ [x]) n i u' (fut @ concat (map encode (responses f (of_nat (length xs)) [x]))) m'"
proof -
  obtain c where c: "channel_call A (call_name x) (call_req x) (call_ctl x) (call_resp x) (call_done x) (to_channel m) = Inr c"
    "m' = from_channel c" using run by (auto simp: rpc_call_def res_simps)
  note k' = k [unfolded c(2)]
  show ?thesis
  proof (cases "status (sock m) = SOCKET_CONNECTED")
    case True
    show ?thesis unfolding c(2) by (rule link_called_connected [OF A at True c(1) k' l lr ok])
  next
    case False
    then have "status (sock m) \<in> {SOCKET_INIT, SOCKET_CONNECTING}" using opn by (cases "status (sock m)") simp_all
    from link_called_queued [OF A at this c(1) k' l ok] show ?thesis unfolding c(2) by blast
  qed
qed

section \<open>The life of a channel\<close>

lemma created_at:
  assumes m: "rpc_channel_new K ep g ctl w0 E (Q, s) = m" and wf: "bpool_wf Q"
    and e: "inbox (snd (kenv m)) = []" "outbox (snd (kenv m)) = []"
  shows "link_at inbox outbox A runf f w0 (sock_fd (sock m)) [] 0 [] [] [] m"
proof -
  obtain fd s' where t: "TcpSocket K s = (fd, s')" by (metis surj_pair)
  obtain r Q1 where r: "bl_new Q = (r, Q1)" by (metis surj_pair)
  obtain v Q2 where v: "bl_new Q1 = (v, Q2)" by (metis surj_pair)
  have m': "read_list (sock m) = r" "write_list (sock m) = v" "blocks m = Q2" "status (sock m) = SOCKET_INIT" "has_handler (sock m)"
    "sock_ready m" "sock_type (sock m) = CLIENT_SOCKET" "others m = channel_new g ctl () w0"
    using m t r v by (auto simp: rpc_channel_new_def socket_client_def sock_ready_def)
  have "in_block 0 0 v" using v by (auto simp: in_block_def bl_new_def split: prod.splits)
  moreover have "two_lists Q2 r v [] []" by (rule two_lists_new [OF wf r v])
  ultimately show ?thesis
    using m' e by (simp add: link_at_def sock_bufs_def stalled_def kMetaSize_def link_calls_def)
qed

text \<open>
  \<open>link_step \<dots> xs d m m'\<close>: a step in which the calls \<open>xs\<close> are made and the bytes \<open>d\<close> come. The application calls
  a method; the event loop calls \<open>In\<close> and \<open>Out\<close>; in between as for a session (\<open>meanwhile\<close>). After a call on a closed
  socket, which drops it, the state is the same.
\<close>

inductive link_step :: "'k kernel \<Rightarrow> 'k epoll_kernel \<Rightarrow> ('k \<Rightarrow> byte list) \<Rightarrow> ('k \<Rightarrow> byte list)
    \<Rightarrow> (('k, unit) world, 'w, unit) rpc_api \<Rightarrow> rpc_call list \<Rightarrow> byte list \<Rightarrow> ('k, 'w) link \<Rightarrow> ('k, 'w) link \<Rightarrow> bool"
  for K :: "'k kernel" and P :: "'k epoll_kernel" and inbox :: "'k \<Rightarrow> byte list" and outbox :: "'k \<Rightarrow> byte list"
    and A :: "(('k, unit) world, 'w, unit) rpc_api" where
  Called: "status (sock m) \<noteq> SOCKET_CLOSED \<Longrightarrow> rpc_call A x m = Inr m' \<Longrightarrow> inbox (snd (kenv m')) = inbox (snd (kenv m))
    \<Longrightarrow> outbox (snd (kenv m')) = outbox (snd (kenv m)) \<Longrightarrow> link_step K P inbox outbox A [x] [] m m'"
| Between: "meanwhile inbox outbox d m m' \<Longrightarrow> link_step K P inbox outbox A [] d m m'"
| Received: "socket_in (client_ctx K P me A) m = Inr m' \<Longrightarrow> link_step K P inbox outbox A [] [] m m'"
| Sent: "socket_out (client_ctx K P me A) n m = Inr m' \<Longrightarrow> link_step K P inbox outbox A [] [] m m'"

lemma dropped_call:
  assumes "a_status A (sk (to_channel m)) = SOCKET_CLOSED"
  shows "rpc_call A x m = Inr m"
  using assms by (cases m, cases "others m") (simp add: rpc_call_def channel_call_def from_channel_def to_channel_def fit_def)

lemma link_more:
  "link_at inbox outbox A runf f w0 fd xs n i u (d @ fut) m \<Longrightarrow> meanwhile inbox outbox d m m'
    \<Longrightarrow> link_at inbox outbox A runf f w0 fd xs n i u fut m'"
  by (auto simp: link_at_def meanwhile_def sock_ready_def split: socket_status.splits)

lemma link_step_at:
  assumes st: "stream_conn K fd inbox outbox" and A: "A = sock_api (plain_ctx K P me0) parse run valid call" and run: "runs_app A runf"
    and at: "link_at inbox outbox A runf f w0 fd xs n i u (d @ fut) m" and step: "link_step K P inbox outbox A ys d m m'"
    and l: "length (xs @ ys) < 2 ^ 64" and lb: "length (concat (map encode (responses f 0 (xs @ ys)))) < 2 ^ 31"
    and lr: "length (concat (map encode (requests 0 (xs @ ys)))) < kBufferSize"
    and ok: "\<forall>q \<in> set (responses f (of_nat (length xs)) ys). packet_ok q"
  shows "\<exists>n' i' u' o'. link_at inbox outbox A runf f w0 fd (xs @ ys) n' i' u' (fut @ concat (map encode (responses f (of_nat (length xs)) ys))) m'
    \<and> outbox (snd (kenv m')) = outbox (snd (kenv m)) @ o'"
  using step
proof cases
  case (Called x)
  have p: "link_at inbox outbox A runf f w0 fd xs n i u fut m" using at Called(2) by simp
  from link_called [OF A p Called(3-6)] l lr ok Called(1) obtain u' where
    "link_at inbox outbox A runf f w0 fd (xs @ ys) n i u' (fut @ concat (map encode (responses f (of_nat (length xs)) ys))) m'" by blast
  then show ?thesis using Called(6) by (metis append_Nil2)
next
  case Between
  then have "link_at inbox outbox A runf f w0 fd (xs @ ys) n i u (fut @ concat (map encode (responses f (of_nat (length xs)) ys))) m'"
    using link_more [OF at] by simp
  then show ?thesis using Between by (metis append_Nil2 meanwhile_def)
next
  case (Received me)
  have p: "link_at inbox outbox A runf f w0 fd xs n i u fut m" using at Received(2) by simp
  have b: "length xs < 2 ^ 64" "length (concat (map encode (responses f 0 xs))) < 2 ^ 31"
    "length (concat (map encode (requests 0 xs))) < kBufferSize" using l lb lr Received(1) by simp_all
  from link_in [OF st A run p b, of me] Received(3) obtain n' i' u' where
    "link_at inbox outbox A runf f w0 fd xs n' i' u' fut m'" "\<exists>o'. outbox (snd (kenv m')) = outbox (snd (kenv m)) @ o'" by auto
  then show ?thesis unfolding Received(1) append_Nil2 responses.simps list.map concat.simps by blast
next
  case (Sent me k)
  have p: "link_at inbox outbox A runf f w0 fd xs n i u fut m" using at Sent(2) by simp
  have b: "length (concat (map encode (requests 0 xs))) < kBufferSize" using lr Sent(1) by simp
  from link_out [OF st A p b, of me k] Sent(3) obtain u' o' where
    "link_at inbox outbox A runf f w0 fd xs n i u' fut m'" "outbox (snd (kenv m')) = outbox (snd (kenv m)) @ o'" by auto
  then show ?thesis unfolding Sent(1) append_Nil2 responses.simps list.map concat.simps by blast
qed

end
