(* ===== verification/Delivery.thy ===== *)
theory Delivery
  imports Client "HOL-Library.Sublist"
begin

text \<open>
  Both ends of an RPC connection: a channel (theory \<open>Client\<close>) and the session that serves it (theory \<open>Server\<close>), each
  on its own machine, and the network between them, which delivers to one end what the other has sent, in order
  and in pieces of any size.
\<close>

section \<open>Two machines and a network\<close>

record ('k, 'a) host =
  h_kernel :: "'k kernel"
  h_epoll :: "'k epoll_kernel"
  h_inbox :: "'k \<Rightarrow> byte list"
  h_outbox :: "'k \<Rightarrow> byte list"
  h_api :: 'a

type_synonym ('k, 'w) client_host = "('k, (('k, unit) world, 'w, unit) rpc_api) host"
type_synonym ('k, 'w) server_host = "('k, (('k, unit) world, 'w, unit session_ext) rpc_api) host"

definition sent :: "('k, 'a) host \<Rightarrow> ('k, 'w) world \<Rightarrow> byte list" where
  "sent H m = h_outbox H (snd (kenv m))"

text \<open>
  \<open>both_ends \<dots> xs a b m v\<close>: the calls \<open>xs\<close> were made, the bytes \<open>a\<close> have come to the server and \<open>b\<close> to the
  client; \<open>m\<close> is the channel and \<open>v\<close> the session, once the connection was accepted.
\<close>

inductive both_ends :: "('k, 'w) client_host \<Rightarrow> ('l, 'v) server_host \<Rightarrow> method_map \<Rightarrow> 'w \<Rightarrow> int \<Rightarrow> int
    \<Rightarrow> rpc_call list \<Rightarrow> byte list \<Rightarrow> byte list \<Rightarrow> ('k, 'w) link \<Rightarrow> ('l, 'v) conn option \<Rightarrow> bool"
  for C :: "('k, 'w) client_host" and S :: "('l, 'v) server_host" and svc :: method_map and w0 :: 'w and fdC :: int and fdS :: int where
  Created: "rpc_channel_new (h_kernel C) ep g ctl w0 E (Q, s) = m \<Longrightarrow> bpool_wf Q \<Longrightarrow> sock_fd (sock m) = fdC
    \<Longrightarrow> h_inbox C (snd (kenv m)) = [] \<Longrightarrow> sent C m = [] \<Longrightarrow> both_ends C S svc w0 fdC fdS [] [] [] m None"
| Accepting: "both_ends C S svc w0 fdC fdS xs a b m None \<Longrightarrow> rpc_on_accept (h_kernel S) svc ctl w fdS E (Q, s) = Inr v \<Longrightarrow> bpool_wf Q
    \<Longrightarrow> sent S v = [] \<Longrightarrow> prefix (h_inbox S (snd (kenv v))) (sent C m)
    \<Longrightarrow> both_ends C S svc w0 fdC fdS xs (h_inbox S (snd (kenv v))) b m (Some v)"
| At_Client: "both_ends C S svc w0 fdC fdS xs a b m v \<Longrightarrow> link_step (h_kernel C) (h_epoll C) (h_inbox C) (h_outbox C) (h_api C) ys d m m'
    \<Longrightarrow> prefix (b @ d) (case v of None \<Rightarrow> [] | Some v \<Rightarrow> sent S v)
    \<Longrightarrow> both_ends C S svc w0 fdC fdS (xs @ ys) a (b @ d) m' v"
| At_Server: "both_ends C S svc w0 fdC fdS xs a b m (Some v) \<Longrightarrow> conn_step (h_kernel S) (h_epoll S) (h_inbox S) (h_outbox S) (h_api S) d v v'
    \<Longrightarrow> prefix (a @ d) (sent C m) \<Longrightarrow> both_ends C S svc w0 fdC fdS xs (a @ d) b m (Some v')"

text \<open>The bytes of the requests and of the answers.\<close>

definition asked :: "rpc_call list \<Rightarrow> byte list" where
  "asked xs = concat (map encode (requests 0 xs))"

definition answered :: "(rpc_call \<Rightarrow> byte list option) \<Rightarrow> rpc_call list \<Rightarrow> byte list" where
  "answered f xs = concat (map encode (responses f 0 xs))"

lemma asked_append: "asked (xs @ ys) = asked xs @ concat (map encode (requests (of_nat (length xs)) ys))"
  by (simp add: asked_def requests_append)

lemma answered_append: "answered f (xs @ ys) = answered f xs @ concat (map encode (responses f (of_nat (length xs)) ys))"
  by (simp add: answered_def responses_append)

lemma replies_answered: "replies B svc answer (requests 0 xs) = answered (answer_of B svc answer) xs"
  by (simp add: replies_def answered_def replies_responses)

lemma requests_length: "length xs \<le> length (concat (map encode (requests g xs)))"
proof (induction xs arbitrary: g)
  case (Cons x xs)
  from Cons [of "g + 1"] show ?case by (simp add: kMetaSize_def)
qed simp

lemma requests_fit: "length (concat (map encode (requests g xs))) < 2 ^ 32 \<Longrightarrow> \<forall>q \<in> set (requests g xs). packet_ok q"
proof (induction xs arbitrary: g)
  case (Cons x xs)
  from Cons.IH [of "g + 1"] Cons.prems show ?case by (simp add: packet_new_ok packet_new_def packet_ok_def)
qed simp

lemma responses_fit: "length (concat (map encode (responses f g xs))) < 2 ^ 32 \<Longrightarrow> \<forall>q \<in> set (responses f g xs). packet_ok q"
proof (induction xs arbitrary: g)
  case (Cons x xs)
  from Cons.IH [of "g + 1"] Cons.prems show ?case
    by (auto simp: packet_new_def packet_ok_def split: option.splits)
qed simp

section \<open>What holds of both ends\<close>

lemma conn_at_more:
  "conn_at inbox outbox A svc answer fd dn rest i u fut m \<Longrightarrow> \<forall>q \<in> set qs. packet_ok q
    \<Longrightarrow> conn_at inbox outbox A svc answer fd dn (rest @ qs) i u (fut @ concat (map encode qs)) m"
  using pending_more [of "ch_parser (others m)" i "inbox (snd (kenv m)) @ fut" rest qs] by (simp add: conn_at_def)

lemma link_sent: "link_at inbox outbox A runf f w0 fd xs n i u fut m \<Longrightarrow> prefix (outbox (snd (kenv m))) (asked xs)"
  by (cases "status (sock m)") (auto simp: link_at_def asked_def intro: prefixI [OF sym])

lemma conn_sent:
  "conn_at inbox outbox A svc answer fd dn rest i u fut m \<Longrightarrow> requests 0 xs = dn @ rest
    \<Longrightarrow> prefix (outbox (snd (kenv m))) (answered (answer_of A svc answer) xs)"
proof -
  assume h: "conn_at inbox outbox A svc answer fd dn rest i u fut m" "requests 0 xs = dn @ rest"
  have "answered (answer_of A svc answer) xs = replies A svc answer dn @ replies A svc answer rest"
    unfolding replies_answered [symmetric] h(2) by simp
  also have "\<dots> = outbox (snd (kenv m)) @ u @ replies A svc answer rest" using h(1) by (simp add: conn_at_def)
  finally show ?thesis by simp
qed

definition both_at :: "('k, 'w) client_host \<Rightarrow> ('l, 'v) server_host \<Rightarrow> method_map \<Rightarrow> (nat \<Rightarrow> 'w \<Rightarrow> 'w) \<Rightarrow> (rpc_meta \<Rightarrow> byte list \<Rightarrow> byte list)
    \<Rightarrow> 'w \<Rightarrow> int \<Rightarrow> int \<Rightarrow> rpc_call list \<Rightarrow> byte list \<Rightarrow> byte list \<Rightarrow> ('k, 'w) link \<Rightarrow> ('l, 'v) conn option \<Rightarrow> bool" where
  "both_at C S svc runf answer w0 fdC fdS xs a b m v \<longleftrightarrow>
     (\<exists>n i u fut. link_at (h_inbox C) (h_outbox C) (h_api C) runf (answer_of (h_api S) svc answer) w0 fdC xs n i u fut m
        \<and> b @ fut = answered (answer_of (h_api S) svc answer) xs)
     \<and> (\<forall>s. v = Some s \<longrightarrow> (\<exists>dn rest i u fut. requests 0 xs = dn @ rest \<and> a @ fut = asked xs
          \<and> conn_at (h_inbox S) (h_outbox S) (h_api S) svc answer fdS dn rest i u fut s))
     \<and> prefix a (sent C m) \<and> prefix b (case v of None \<Rightarrow> [] | Some v \<Rightarrow> sent S v)"

text \<open>What is assumed of the two machines.\<close>

definition good_hosts :: "('k, 'w) client_host \<Rightarrow> ('l, 'v) server_host \<Rightarrow> (nat \<Rightarrow> 'w \<Rightarrow> 'w) \<Rightarrow> (rpc_meta \<Rightarrow> byte list \<Rightarrow> byte list)
    \<Rightarrow> int \<Rightarrow> int \<Rightarrow> bool" where
  "good_hosts C S runf answer fdC fdS \<longleftrightarrow>
     stream_conn (h_kernel C) fdC (h_inbox C) (h_outbox C) \<and> stream_conn (h_kernel S) fdS (h_inbox S) (h_outbox S)
     \<and> (\<exists>me parse run valid call. h_api C = sock_api (plain_ctx (h_kernel C) (h_epoll C) me) parse run valid call)
     \<and> (\<exists>D parse run valid call. h_api S = sock_api D parse run valid call)
     \<and> runs_app (h_api C) runf \<and> answers (h_api S) answer"

lemma both_at_sent:
  assumes "both_at C S svc runf answer w0 fdC fdS xs a b m v"
  shows "prefix (sent C m) (asked xs)"
    and "v = Some s \<Longrightarrow> prefix (sent S s) (answered (answer_of (h_api S) svc answer) xs)"
proof -
  obtain n i u fut where "link_at (h_inbox C) (h_outbox C) (h_api C) runf (answer_of (h_api S) svc answer) w0 fdC xs n i u fut m"
    using assms unfolding both_at_def by blast
  from link_sent [OF this] show "prefix (sent C m) (asked xs)" unfolding sent_def .
next
  assume "v = Some s"
  then obtain dn rest i u fut where s: "requests 0 xs = dn @ rest"
    "conn_at (h_inbox S) (h_outbox S) (h_api S) svc answer fdS dn rest i u fut s" using assms unfolding both_at_def by blast
  from conn_sent [OF s(2,1)] show "prefix (sent S s) (answered (answer_of (h_api S) svc answer) xs)" unfolding sent_def .
qed

lemma both_at_accepting:
  assumes c: "both_at C S svc runf answer w0 fdC fdS xs a b m None"
    and v: "rpc_on_accept (h_kernel S) svc ctl w fdS E (Q, s) = Inr v" "bpool_wf Q" "sent S v = []"
    and i: "prefix (h_inbox S (snd (kenv v))) (sent C m)" and la: "length (asked xs) < kBufferSize"
  shows "both_at C S svc runf answer w0 fdC fdS xs (h_inbox S (snd (kenv v))) b m (Some v)"
proof -
  let ?i = "h_inbox S (snd (kenv v))"
  have "prefix ?i (asked xs)" using i both_at_sent(1) [OF c] by (rule prefix_order.order_trans)
  then obtain fut where fut: "?i @ fut = asked xs" by (auto simp: prefix_def)
  have "length (concat (map encode (requests 0 xs))) < 2 ^ 32" using la by (simp add: asked_def kBufferSize_def)
  from accepted_at [OF v(1,2) _ requests_fit [OF this], of "h_outbox S" "h_inbox S" fut "h_api S" answer] fut v(3)
  have "conn_at (h_inbox S) (h_outbox S) (h_api S) svc answer fdS [] (requests 0 xs) [] [] fut v"
    by (simp add: asked_def sent_def)
  moreover have "b = []" using c unfolding both_at_def by simp
  ultimately show ?thesis using c fut i unfolding both_at_def by (metis append_Nil option.inject prefix_bot.bot_least)
qed

text \<open>More calls: the server has more to come.\<close>

lemma both_at_more:
  assumes "both_at C S svc runf answer w0 fdC fdS xs a b m (Some s)"
    and "length (concat (map encode (requests (of_nat (length xs)) ys))) < 2 ^ 32"
  shows "\<exists>dn rest i u fut. requests 0 (xs @ ys) = dn @ rest \<and> a @ fut = asked (xs @ ys)
    \<and> conn_at (h_inbox S) (h_outbox S) (h_api S) svc answer fdS dn rest i u fut s"
proof -
  let ?qs = "requests (of_nat (length xs)) ys"
  obtain dn rest i u fut where s: "requests 0 xs = dn @ rest" "a @ fut = asked xs"
    "conn_at (h_inbox S) (h_outbox S) (h_api S) svc answer fdS dn rest i u fut s" using assms(1) unfolding both_at_def by blast
  have "requests 0 (xs @ ys) = dn @ rest @ ?qs" "a @ fut @ concat (map encode ?qs) = asked (xs @ ys)"
    using s(1,2) by (simp_all add: requests_append asked_append flip: append_assoc)
  then show ?thesis using conn_at_more [OF s(3) requests_fit [OF assms(2)]] by blast
qed

lemma calls_fit:
  assumes la: "length (asked (xs @ ys)) < kBufferSize" and lr: "length (answered f (xs @ ys)) < kBufferSize"
  shows "length (xs @ ys) < 2 ^ 64" and "length (concat (map encode (responses f 0 (xs @ ys)))) < 2 ^ 31"
    and "length (concat (map encode (requests 0 (xs @ ys)))) < kBufferSize"
    and "length (concat (map encode (responses f (of_nat (length xs)) ys))) < 2 ^ 32"
    and "length (concat (map encode (requests (of_nat (length xs)) ys))) < 2 ^ 32"
proof -
  have "length (concat (map encode (responses f (of_nat (length xs)) ys))) \<le> length (answered f (xs @ ys))"
    "length (concat (map encode (requests (of_nat (length xs)) ys))) \<le> length (asked (xs @ ys))"
    unfolding answered_append asked_append by simp_all
  then show "length (concat (map encode (responses f (of_nat (length xs)) ys))) < 2 ^ 32"
    "length (concat (map encode (requests (of_nat (length xs)) ys))) < 2 ^ 32"
    using la lr by (simp_all add: kBufferSize_def)
  show "length (xs @ ys) < 2 ^ 64"
    using requests_length [of "xs @ ys" 0] la unfolding asked_def by (simp add: kBufferSize_def)
qed (use la lr in \<open>simp_all add: asked_def answered_def kBufferSize_def\<close>)

lemma both_at_link_step:
  assumes hosts: "good_hosts C S runf answer fdC fdS" and ih: "both_at C S svc runf answer w0 fdC fdS xs a b m v"
    and step: "link_step (h_kernel C) (h_epoll C) (h_inbox C) (h_outbox C) (h_api C) ys d m m'"
    and pre: "prefix (b @ d) (case v of None \<Rightarrow> [] | Some v \<Rightarrow> sent S v)"
    and la: "length (asked (xs @ ys)) < kBufferSize" and lr: "length (answered (answer_of (h_api S) svc answer) (xs @ ys)) < kBufferSize"
  shows "both_at C S svc runf answer w0 fdC fdS (xs @ ys) a (b @ d) m' v"
proof -
  let ?f = "answer_of (h_api S) svc answer" and ?rs = "responses (answer_of (h_api S) svc answer) (of_nat (length xs)) ys"
  obtain n i u fut where at: "link_at (h_inbox C) (h_outbox C) (h_api C) runf ?f w0 fdC xs n i u fut m"
    and b: "b @ fut = answered ?f xs" using ih unfolding both_at_def by blast
  have "prefix (case v of None \<Rightarrow> [] | Some v \<Rightarrow> sent S v) (answered ?f xs)"
    using both_at_sent(2) [OF ih] by (simp split: option.splits)
  with pre have "prefix (b @ d) (answered ?f xs)" by (rule prefix_order.order_trans)
  then obtain fut' where fut: "fut = d @ fut'" unfolding b [symmetric] by (auto simp: prefix_def)
  obtain me parse run valid call where A: "h_api C = sock_api (plain_ctx (h_kernel C) (h_epoll C) me) parse run valid call"
    and st: "stream_conn (h_kernel C) fdC (h_inbox C) (h_outbox C)" and runs: "runs_app (h_api C) runf"
    using hosts unfolding good_hosts_def by blast
  note l = calls_fit [OF la lr]
  have at': "link_at (h_inbox C) (h_outbox C) (h_api C) runf ?f w0 fdC xs n i u (d @ fut') m" using at unfolding fut .
  from link_step_at [OF st A runs at' step l(1-3) responses_fit [OF l(4)]] obtain n' i' u' o' where
    "link_at (h_inbox C) (h_outbox C) (h_api C) runf ?f w0 fdC (xs @ ys) n' i' u' (fut' @ concat (map encode ?rs)) m'"
    and o': "sent C m' = sent C m @ o'" unfolding sent_def by blast
  then have "\<exists>n i u fut. link_at (h_inbox C) (h_outbox C) (h_api C) runf ?f w0 fdC (xs @ ys) n i u fut m'
    \<and> (b @ d) @ fut = answered ?f (xs @ ys)"
    unfolding answered_append b [symmetric] fut by (intro exI [of _ n'] exI [of _ i'] exI [of _ u'] exI [of _ "fut' @ concat (map encode ?rs)"]) simp
  moreover have "\<exists>dn rest i u fut. requests 0 (xs @ ys) = dn @ rest \<and> a @ fut = asked (xs @ ys)
      \<and> conn_at (h_inbox S) (h_outbox S) (h_api S) svc answer fdS dn rest i u fut s" if "v = Some s" for s
    by (rule both_at_more [OF ih [unfolded that] l(5)])
  moreover have "prefix a (sent C m')" using ih unfolding both_at_def o' by (blast intro: prefix_prefix)
  ultimately show ?thesis using pre unfolding both_at_def by (intro conjI allI impI)
qed

lemma both_at_conn_step:
  assumes hosts: "good_hosts C S runf answer fdC fdS" and ih: "both_at C S svc runf answer w0 fdC fdS xs a b m (Some v)"
    and step: "conn_step (h_kernel S) (h_epoll S) (h_inbox S) (h_outbox S) (h_api S) d v v'" and pre: "prefix (a @ d) (sent C m)"
    and la: "length (asked xs) < kBufferSize" and lr: "length (answered (answer_of (h_api S) svc answer) xs) < kBufferSize"
  shows "both_at C S svc runf answer w0 fdC fdS xs (a @ d) b m (Some v')"
proof -
  let ?f = "answer_of (h_api S) svc answer"
  obtain dn rest i u fut where s: "requests 0 xs = dn @ rest" "a @ fut = asked xs"
    "conn_at (h_inbox S) (h_outbox S) (h_api S) svc answer fdS dn rest i u fut v" using ih unfolding both_at_def by blast
  have "prefix (a @ d) (asked xs)" using pre both_at_sent(1) [OF ih] by (rule prefix_order.order_trans)
  then obtain fut' where fut: "fut = d @ fut'" unfolding s(2) [symmetric] by (auto simp: prefix_def)
  obtain D parse run valid call where B: "h_api S = sock_api D parse run valid call"
    and st: "stream_conn (h_kernel S) fdS (h_inbox S) (h_outbox S)" and ans: "answers (h_api S) answer"
    using hosts unfolding good_hosts_def by blast
  have l: "length (concat (map encode rest)) < 2 ^ 31" "length (replies (h_api S) svc answer (dn @ rest)) < kBufferSize"
    using la lr s(1) unfolding replies_answered [symmetric] asked_def by (simp_all add: kBufferSize_def)
  have at: "conn_at (h_inbox S) (h_outbox S) (h_api S) svc answer fdS dn rest i u (d @ fut') v" using s(3) unfolding fut .
  from conn_step_at [OF st B ans at step l] obtain dn2 rest' i' u' o' where
    c: "rest = dn2 @ rest'" "conn_at (h_inbox S) (h_outbox S) (h_api S) svc answer fdS (dn @ dn2) rest' i' u' fut' v'"
      "sent S v' = sent S v @ o'" unfolding sent_def by blast
  have "requests 0 xs = (dn @ dn2) @ rest'" "(a @ d) @ fut' = asked xs" using s(1,2) c(1) fut by simp_all
  moreover have "prefix b (sent S v')" using ih unfolding both_at_def c(3) by (auto intro: prefix_prefix)
  moreover have "\<exists>n i u fut. link_at (h_inbox C) (h_outbox C) (h_api C) runf ?f w0 fdC xs n i u fut m \<and> b @ fut = answered ?f xs"
    using ih unfolding both_at_def by (rule conjunct1)
  ultimately show ?thesis unfolding both_at_def option.inject option.case using c(2) pre by blast
qed

lemma both_ends_at:
  assumes hosts: "good_hosts C S runf answer fdC fdS"
  shows "both_ends C S svc w0 fdC fdS xs a b m v \<Longrightarrow> length (asked xs) < kBufferSize
    \<Longrightarrow> length (answered (answer_of (h_api S) svc answer) xs) < kBufferSize
    \<Longrightarrow> both_at C S svc runf answer w0 fdC fdS xs a b m v"
proof (induction rule: both_ends.induct)
  case (Created ep g ctl E Q s m)
  from created_at [OF Created(1,2), of "h_inbox C" "h_outbox C" "h_api C" runf] Created(3-5) show ?case
    unfolding both_at_def by (auto simp: answered_def sent_def)
next
  case (Accepting xs a b m ctl w E Q s v)
  show ?case by (rule both_at_accepting [OF Accepting.IH [OF Accepting.prems] Accepting(2-5) Accepting.prems(1)])
next
  case (At_Client xs a b m v ys d m')
  have "length (asked xs) < kBufferSize" "length (answered (answer_of (h_api S) svc answer) xs) < kBufferSize"
    using At_Client.prems by (simp_all add: asked_append answered_append)
  then show ?case by (rule both_at_link_step [OF hosts At_Client.IH At_Client(2,3) At_Client.prems])
next
  case (At_Server xs a b m v d v')
  show ?case by (rule both_at_conn_step [OF hosts At_Server.IH [OF At_Server.prems] At_Server(2,3) At_Server.prems])
qed

section \<open>Nothing is left\<close>

lemma stalled_nil: "pending r i [] ps \<Longrightarrow> stalled r i \<Longrightarrow> ps = []"
  using arrived_stalled [of r i "[]" ps "length (concat (map encode ps))"] arrived_append [of ps 0 "[]"] by simp

lemma responses_none:
  "responses f g xs = [] \<Longrightarrow> waiting g xs P = left_over f g xs P \<and> fold (complete_call A runf f) xs w = w"
  by (induction xs arbitrary: g P) (auto simp: complete_call_def split: option.splits)

text \<open>Once all answers were received only the calls without one wait.\<close>

lemma all_answered:
  assumes c: "link_calls A runf f w0 xs n P w" and r: "responses f (of_nat n) (drop n xs) = []"
  shows "P = left_over f 0 xs Map.empty \<and> w = fold (complete_call A runf f) xs w0"
proof -
  have h: "n \<le> length xs" "P = waiting (of_nat n) (drop n xs) (left_over f 0 (take n xs) Map.empty)"
    "w = fold (complete_call A runf f) (take n xs) w0" using c by (simp_all add: link_calls_def)
  have l: "length (take n xs) = n" using h(1) by simp
  have xs: "take n xs @ drop n xs = xs" by (rule append_take_drop_id)
  have "left_over f 0 (take n xs @ drop n xs) Map.empty = left_over f (of_nat n) (drop n xs) (left_over f 0 (take n xs) Map.empty)"
    unfolding left_over_append l by simp
  moreover have "fold (complete_call A runf f) (take n xs @ drop n xs) w0 = fold (complete_call A runf f) (drop n xs) w"
    unfolding h(3) by (simp only: fold_append comp_apply)
  ultimately show ?thesis using responses_none [OF r, of "left_over f 0 (take n xs) Map.empty" A runf w] h(2) unfolding xs by simp
qed

text \<open>\<open>Out\<close> of the channel sends all its requests.\<close>

lemma client_sends:
  assumes hosts: "good_hosts C S runf answer fdC fdS" and b: "both_ends C S svc w0 fdC fdS xs a b m (Some v)"
    and la: "length (asked xs) < kBufferSize" and lr: "length (answered (answer_of (h_api S) svc answer) xs) < kBufferSize"
    and on: "status (sock m) \<in> {SOCKET_CONNECTING, SOCKET_CONNECTED}" and room: "roomy (h_kernel C) fdC"
  shows "\<exists>m'. socket_out (client_ctx (h_kernel C) (h_epoll C) me (h_api C)) n m = Inr m'
    \<and> sent C m' = asked xs \<and> status (sock m') = SOCKET_CONNECTED
    \<and> link_step (h_kernel C) (h_epoll C) (h_inbox C) (h_outbox C) (h_api C) [] [] m m'
    \<and> both_ends C S svc w0 fdC fdS xs a b m' (Some v)"
proof -
  obtain n' i u fut where at: "link_at (h_inbox C) (h_outbox C) (h_api C) runf (answer_of (h_api S) svc answer) w0 fdC xs n' i u fut m"
    using both_ends_at [OF hosts b la lr] unfolding both_at_def by blast
  obtain me0 parse run valid call where A: "h_api C = sock_api (plain_ctx (h_kernel C) (h_epoll C) me0) parse run valid call"
    and st: "stream_conn (h_kernel C) fdC (h_inbox C) (h_outbox C)" using hosts unfolding good_hosts_def by blast
  from link_out [OF st A at la [unfolded asked_def], of me n] on room obtain m1 where
    m1: "socket_out (client_ctx (h_kernel C) (h_epoll C) me (h_api C)) n m = Inr m1"
      "link_at (h_inbox C) (h_outbox C) (h_api C) runf (answer_of (h_api S) svc answer) w0 fdC xs n' i [] fut m1"
      "status (sock m1) = SOCKET_CONNECTED" by auto
  have s1: "sent C m1 = asked xs" using m1(2,3) by (simp add: link_at_def sent_def asked_def)
  have lk: "link_step (h_kernel C) (h_epoll C) (h_inbox C) (h_outbox C) (h_api C) [] [] m m1"
    by (rule link_step.Sent [OF m1(1)])
  have "prefix (b @ []) (sent S v)"
    using both_ends_at [OF hosts b la lr] unfolding both_at_def by simp
  then show ?thesis using both_ends.At_Client [OF b lk] m1(1,3) s1 lk by simp
qed

text \<open>\<open>In\<close> and \<open>Out\<close> of the session, once all requests have come, send all the answers.\<close>

lemma server_replies:
  assumes hosts: "good_hosts C S runf answer fdC fdS" and b: "both_ends C S svc w0 fdC fdS xs (asked xs) b m (Some v)"
    and la: "length (asked xs) < kBufferSize" and lr: "length (answered (answer_of (h_api S) svc answer) xs) < kBufferSize"
    and hp: "has_poller (sock v)" and room: "roomy (h_kernel S) fdS"
  shows "\<exists>v1 v2. socket_in (server_ctx (h_kernel S) (h_epoll S) me (h_api S) t) v = Inr v1
    \<and> socket_out (server_ctx (h_kernel S) (h_epoll S) me (h_api S) t) n v1 = Inr v2
    \<and> sent S v2 = answered (answer_of (h_api S) svc answer) xs \<and> both_ends C S svc w0 fdC fdS xs (asked xs) b m (Some v2)"
proof -
  let ?f = "answer_of (h_api S) svc answer"
  note at0 = both_ends_at [OF hosts b la lr, unfolded both_at_def]
  obtain dn rest i u fut where s: "requests 0 xs = dn @ rest" "asked xs @ fut = asked xs"
    "conn_at (h_inbox S) (h_outbox S) (h_api S) svc answer fdS dn rest i u fut v" using at0 by blast
  obtain D parse run valid call where B: "h_api S = sock_api D parse run valid call"
    and st: "stream_conn (h_kernel S) fdS (h_inbox S) (h_outbox S)" and ans: "answers (h_api S) answer"
    using hosts unfolding good_hosts_def by blast
  have l: "length (concat (map encode rest)) < 2 ^ 31" "length (replies (h_api S) svc answer (dn @ rest)) < kBufferSize"
    using la lr s(1) unfolding replies_answered [symmetric] asked_def by (simp_all add: kBufferSize_def)
  from serve_in [OF st B ans s(3) hp l, of "h_epoll S" me t] obtain v1 dn2 rest' i' u' where
    v1: "socket_in (server_ctx (h_kernel S) (h_epoll S) me (h_api S) t) v = Inr v1" "rest = dn2 @ rest'"
      "conn_at (h_inbox S) (h_outbox S) (h_api S) svc answer fdS (dn @ dn2) rest' i' u' fut v1" "h_inbox S (snd (kenv v1)) = []"
      "has_poller (sock v1)" by blast
  have "rest' = []" using stalled_nil [of "ch_parser (others v1)" i' rest'] v1(3,4) s(2) by (simp add: conn_at_def)
  then have r1: "requests 0 xs = dn @ dn2" using s(1) v1(2) by simp
  have "length (replies (h_api S) svc answer (dn @ dn2)) < kBufferSize" using lr unfolding replies_answered [symmetric] r1 .
  from serve_out [OF st v1(3) this, of "h_epoll S" me t n] room obtain v2 where
    v2: "socket_out (server_ctx (h_kernel S) (h_epoll S) me (h_api S) t) n v1 = Inr v2"
      "conn_at (h_inbox S) (h_outbox S) (h_api S) svc answer fdS (dn @ dn2) rest' i' [] fut v2" by auto
  have s2: "sent S v2 = answered ?f xs" using v2(2) r1 unfolding replies_answered [symmetric] by (simp add: conn_at_def sent_def)
  have as: "prefix (asked xs @ []) (sent C m)" using at0 by simp
  note step1 = both_ends.At_Server [OF b conn_step.Input [OF hp v1(1)] as]
  then have b1: "both_ends C S svc w0 fdC fdS xs (asked xs) b m (Some v1)" by simp
  note step2 = both_ends.At_Server [OF b1 conn_step.Output [OF v1(5) v2(1)] as]
  then show ?thesis using v1(1) v2(1) s2 by auto
qed

text \<open>\<open>In\<close> of the channel, once all answers have come, completes the calls.\<close>

lemma client_completes:
  assumes hosts: "good_hosts C S runf answer fdC fdS"
    and b: "both_ends C S svc w0 fdC fdS xs a (answered (answer_of (h_api S) svc answer) xs) m v"
    and la: "length (asked xs) < kBufferSize" and lr: "length (answered (answer_of (h_api S) svc answer) xs) < kBufferSize"
    and on: "status (sock m) = SOCKET_CONNECTED"
  shows "\<exists>m'. socket_in (client_ctx (h_kernel C) (h_epoll C) me (h_api C)) m = Inr m'
    \<and> pend (others m') = left_over (answer_of (h_api S) svc answer) 0 xs Map.empty
    \<and> app (others m') = fold (complete_call (h_api C) runf (answer_of (h_api S) svc answer)) xs w0"
proof -
  let ?f = "answer_of (h_api S) svc answer"
  obtain n i u fut where at: "link_at (h_inbox C) (h_outbox C) (h_api C) runf ?f w0 fdC xs n i u fut m"
    and f: "answered ?f xs @ fut = answered ?f xs" using both_ends_at [OF hosts b la lr] unfolding both_at_def by blast
  obtain me0 parse run valid call where A: "h_api C = sock_api (plain_ctx (h_kernel C) (h_epoll C) me0) parse run valid call"
    and st: "stream_conn (h_kernel C) fdC (h_inbox C) (h_outbox C)" and runs: "runs_app (h_api C) runf"
    using hosts unfolding good_hosts_def by blast
  have l: "length xs < 2 ^ 64" "length (concat (map encode (responses ?f 0 xs))) < 2 ^ 31"
    "length (concat (map encode (requests 0 xs))) < kBufferSize"
    using requests_length [of xs 0] la lr unfolding asked_def answered_def by (simp_all add: kBufferSize_def)
  from link_in [OF st A runs at l, of me] on obtain m' n' i' u' where
    m': "socket_in (client_ctx (h_kernel C) (h_epoll C) me (h_api C)) m = Inr m'"
      "link_at (h_inbox C) (h_outbox C) (h_api C) runf ?f w0 fdC xs n' i' u' fut m'" "h_inbox C (snd (kenv m')) = []" by blast
  have "responses ?f (of_nat n') (drop n' xs) = []"
    using stalled_nil [of "ch_parser (others m')" i'] m'(2,3) f by (simp add: link_at_def)
  moreover have "link_calls (h_api C) runf ?f w0 xs n' (pend (others m')) (app (others m'))" using m'(2) by (simp add: link_at_def)
  ultimately show ?thesis using m'(1) all_answered [of "h_api C" runf ?f w0 xs n' "pend (others m')" "app (others m')"] by blast
qed

text \<open>The network has brought the rest of what was sent.\<close>

lemma requests_delivered:
  assumes "both_ends C S svc w0 fdC fdS xs a b m (Some v)" and "sent C m = asked xs"
    and "meanwhile (h_inbox S) (h_outbox S) d v v'" and "a @ d = asked xs"
  shows "both_ends C S svc w0 fdC fdS xs (asked xs) b m (Some v')"
  using both_ends.At_Server [OF assms(1) conn_step.Meanwhile [OF assms(3)]] assms(2,4) by simp

lemma answers_delivered:
  assumes "both_ends C S svc w0 fdC fdS xs a b m (Some v)" and "sent S v = b @ d" and "meanwhile (h_inbox C) (h_outbox C) d m m'"
  shows "both_ends C S svc w0 fdC fdS xs a (b @ d) m' (Some v)"
proof -
  have "prefix (b @ d) (case Some v of None \<Rightarrow> [] | Some v \<Rightarrow> sent S v)" using assms(2) by simp
  from both_ends.At_Client [OF assms(1) link_step.Between [OF assms(3)] this] show ?thesis by simp
qed

section \<open>Properties\<close>

text \<open>
  C1. Calls get their own answers: whatever an application calls and when, before, while or after the connection is
  set up, in whatever order the event loops of both ends run and however the network cuts what it delivers,
  the application has seen, in the order of the calls, the answers to a part of the calls from the first on, each of
  these calls completed exactly once and with the answer that the service gives to this call;
  calls without an answer and all later ones still wait. This holds for connections whose requests, and whose
  answers, fit into one block of a buffer (4096 bytes in all), when the service answers within the call, on kernels that are
  byte streams and never close the connection.
\<close>

theorem calls_get_their_answers:
  assumes "good_hosts C S runf answer fdC fdS" and "both_ends C S svc w0 fdC fdS xs a b m v"
    and "length (asked xs) < kBufferSize" and "length (answered (answer_of (h_api S) svc answer) xs) < kBufferSize"
  shows "\<exists>n \<le> length xs.
      app (others m) = fold (complete_call (h_api C) runf (answer_of (h_api S) svc answer)) (take n xs) w0
    \<and> pend (others m) = waiting (of_nat n) (drop n xs) (left_over (answer_of (h_api S) svc answer) 0 (take n xs) Map.empty)"
  using both_ends_at [OF assms] by (auto simp: both_at_def link_at_def link_calls_def)

text \<open>
  C2. Calls are completed: from every state in which the connection stands or is being set up and the server has
  accepted it and registered it with its poller, \<open>Out\<close> of the channel returns, having sent all requests; once these have
  come to the server, \<open>In\<close> and then \<open>Out\<close> of the session return, having sent all answers; once these have come to the
  client, \<open>In\<close> of the channel returns, and every call with an answer is completed and only those without one wait.
  This holds for connections whose requests, and whose answers, fit into one block of a buffer (4096 bytes in all), when the service
  answers within the call, on kernels that have room for what is written and never close.
\<close>

theorem calls_are_completed:
  assumes "good_hosts C S runf answer fdC fdS" and "both_ends C S svc w0 fdC fdS xs a b m (Some v)"
    and "length (asked xs) < kBufferSize" and "length (answered (answer_of (h_api S) svc answer) xs) < kBufferSize"
    and "status (sock m) \<in> {SOCKET_CONNECTING, SOCKET_CONNECTED}" and "has_poller (sock v)"
    and "roomy (h_kernel C) fdC" and "roomy (h_kernel S) fdS"
  shows "\<exists>m1. socket_out (client_ctx (h_kernel C) (h_epoll C) me (h_api C)) n m = Inr m1 \<and> sent C m1 = asked xs
    \<and> (\<forall>d v1. meanwhile (h_inbox S) (h_outbox S) d v v1 \<longrightarrow> a @ d = asked xs \<longrightarrow>
        (\<exists>v2 v3. socket_in (server_ctx (h_kernel S) (h_epoll S) me' (h_api S) t) v1 = Inr v2
          \<and> socket_out (server_ctx (h_kernel S) (h_epoll S) me' (h_api S) t) n' v2 = Inr v3
          \<and> sent S v3 = answered (answer_of (h_api S) svc answer) xs
          \<and> (\<forall>d' m2. meanwhile (h_inbox C) (h_outbox C) d' m1 m2 \<longrightarrow> b @ d' = answered (answer_of (h_api S) svc answer) xs \<longrightarrow>
              (\<exists>m3. socket_in (client_ctx (h_kernel C) (h_epoll C) me (h_api C)) m2 = Inr m3
                \<and> pend (others m3) = left_over (answer_of (h_api S) svc answer) 0 xs Map.empty
                \<and> app (others m3) = fold (complete_call (h_api C) runf (answer_of (h_api S) svc answer)) xs w0))))"
proof -
  let ?f = "answer_of (h_api S) svc answer"
  obtain m1 where m1: "socket_out (client_ctx (h_kernel C) (h_epoll C) me (h_api C)) n m = Inr m1" "sent C m1 = asked xs"
    "status (sock m1) = SOCKET_CONNECTED" "both_ends C S svc w0 fdC fdS xs a b m1 (Some v)"
    using client_sends [OF assms(1-5,7), of me n] by blast
  have session: "\<exists>v2 v3. socket_in (server_ctx (h_kernel S) (h_epoll S) me' (h_api S) t) v1 = Inr v2
      \<and> socket_out (server_ctx (h_kernel S) (h_epoll S) me' (h_api S) t) n' v2 = Inr v3
      \<and> sent S v3 = answered ?f xs \<and> both_ends C S svc w0 fdC fdS xs (asked xs) b m1 (Some v3)"
    if v1: "meanwhile (h_inbox S) (h_outbox S) d v v1" "a @ d = asked xs" for d v1
  proof -
    have "has_poller (sock v1)" using v1(1) assms(6) by (simp add: meanwhile_def)
    from server_replies [OF assms(1) requests_delivered [OF m1(4,2) v1] assms(3,4) this assms(8)] show ?thesis .
  qed
  have channel: "\<exists>m3. socket_in (client_ctx (h_kernel C) (h_epoll C) me (h_api C)) m2 = Inr m3
      \<and> pend (others m3) = left_over ?f 0 xs Map.empty \<and> app (others m3) = fold (complete_call (h_api C) runf ?f) xs w0"
    if v3: "both_ends C S svc w0 fdC fdS xs (asked xs) b m1 (Some v3)" "sent S v3 = answered ?f xs"
      and m2: "meanwhile (h_inbox C) (h_outbox C) d' m1 m2" "b @ d' = answered ?f xs" for v3 d' m2
  proof -
    have "both_ends C S svc w0 fdC fdS xs (asked xs) (answered ?f xs) m2 (Some v3)"
      using answers_delivered [OF v3(1) _ m2(1)] v3(2) m2(2) by simp
    moreover have "status (sock m2) = SOCKET_CONNECTED" using m2(1) m1(3) by (simp add: meanwhile_def)
    ultimately show ?thesis by (rule client_completes [OF assms(1) _ assms(3,4)])
  qed
  show ?thesis
  proof (intro exI [of _ m1] conjI allI impI)
    fix d v1
    assume "meanwhile (h_inbox S) (h_outbox S) d v v1" "a @ d = asked xs"
    from session [OF this] obtain v2 v3 where v: "socket_in (server_ctx (h_kernel S) (h_epoll S) me' (h_api S) t) v1 = Inr v2"
      "socket_out (server_ctx (h_kernel S) (h_epoll S) me' (h_api S) t) n' v2 = Inr v3"
      "sent S v3 = answered ?f xs" "both_ends C S svc w0 fdC fdS xs (asked xs) b m1 (Some v3)" by blast
    show "\<exists>v2 v3. socket_in (server_ctx (h_kernel S) (h_epoll S) me' (h_api S) t) v1 = Inr v2
        \<and> socket_out (server_ctx (h_kernel S) (h_epoll S) me' (h_api S) t) n' v2 = Inr v3 \<and> sent S v3 = answered ?f xs
        \<and> (\<forall>d' m2. meanwhile (h_inbox C) (h_outbox C) d' m1 m2 \<longrightarrow> b @ d' = answered ?f xs \<longrightarrow>
            (\<exists>m3. socket_in (client_ctx (h_kernel C) (h_epoll C) me (h_api C)) m2 = Inr m3
              \<and> pend (others m3) = left_over ?f 0 xs Map.empty \<and> app (others m3) = fold (complete_call (h_api C) runf ?f) xs w0))"
      by (intro exI [of _ v2] exI [of _ v3] conjI allI impI) (fact v(1), fact v(2), fact v(3), rule channel [OF v(4,3)])
  qed (fact m1)+
qed

section \<open>Witnesses\<close>

text \<open>Two calls, of a known and of an unknown method, before the connection stands; it is accepted then.\<close>

type_synonym pipes = "byte list \<times> byte list"

definition demo_host :: "'a \<Rightarrow> (pipes, 'a) host" where
  "demo_host A = \<lparr>h_kernel = loop_kernel False, h_epoll = quiet_epoll, h_inbox = fst, h_outbox = snd, h_api = A\<rparr>"

definition demo_channel_api :: "((pipes, unit) world, (nat \<times> byte list) list, unit) rpc_api" where
  "demo_channel_api = sock_api (plain_ctx (loop_kernel False) quiet_epoll 9) (\<lambda>a bs w. (True, w @ [(a, bs)]))
     (\<lambda>d c. Inr (c\<lparr>app := app c @ [(d, [])]\<rparr>)) (\<lambda>meta req. True) (\<lambda>meta req k. k [])"

definition demo_session_api :: "((pipes, unit) world, unit, unit session_ext) rpc_api" where
  "demo_session_api = sock_api (plain_ctx (loop_kernel False) quiet_epoll 9) (\<lambda>_ _ w. (True, w)) (\<lambda>_. Inr)
     (\<lambda>meta req. req \<noteq> []) (\<lambda>meta req k. k (rev (take 100 req)))"

lemma demo_host_sel [simp]: "h_kernel (demo_host A) = loop_kernel False" "h_epoll (demo_host A) = quiet_epoll"
  "h_inbox (demo_host A) = fst" "h_outbox (demo_host A) = snd" "h_api (demo_host A) = A"
  by (simp_all add: demo_host_def)

lemma loop_stream: "stream_conn (loop_kernel False) fd fst snd"
proof -
  have "stream_write (loop_kernel False) fd snd (\<lambda>_. 0)"
    by (auto simp: stream_write_def loop_kernel_def split: prod.splits)
  moreover have "stream_read (loop_kernel False) fd fst (length \<circ> fst) False" by (rule loop_kernel_reads)
  ultimately show ?thesis unfolding stream_conn_def by (auto simp: loop_kernel_def split: prod.splits)
qed

lemma demo_hosts: "good_hosts (demo_host demo_channel_api) (demo_host demo_session_api) demo_run demo_answer fd fd'"
  unfolding good_hosts_def demo_host_sel
proof (intro conjI)
  show "runs_app demo_channel_api demo_run" by (simp add: runs_app_def demo_channel_api_def sock_api_def demo_run_def)
  show "answers demo_session_api demo_answer" by (simp add: answers_def demo_session_api_def sock_api_def demo_answer_def)
qed (use loop_stream demo_channel_api_def demo_session_api_def in blast)+

lemma demo_roomy: "roomy (loop_kernel False) fd"
  by (auto simp: roomy_def loop_kernel_def split: prod.splits)

lemma demo_session_answers: "answer_of demo_session_api demo_methods demo_answer = answer_of (demo_api :: (demo_world, (nat \<times> byte list) list, unit) rpc_api) demo_methods demo_answer"
  by (simp add: fun_eq_iff answer_of_def demo_session_api_def demo_api_def sock_api_def cong: option.case_cong)

lemma demo_finishes: "complete_call demo_channel_api demo_run f = complete_call (demo_api :: (demo_world, (nat \<times> byte list) list, unit) rpc_api) demo_run f"
  by (simp add: fun_eq_iff complete_call_def finish_call_def demo_channel_api_def demo_api_def sock_api_def cong: option.case_cong)

lemma demo_sizes: "length (asked demo_calls) < kBufferSize"
  "length (answered (answer_of demo_session_api demo_methods demo_answer) demo_calls) < kBufferSize"
  unfolding asked_def answered_def demo_session_answers demo_responses demo_call_bytes
  by (simp_all add: kBufferSize_def kMetaSize_def packet_new_def)

lemma demo_connect:
  fixes m :: "(pipes, unit) world"
  assumes "sock_type (sock m) = CLIENT_SOCKET" "status (sock m) = SOCKET_INIT" "has_poller (sock m)" "poll m = ex_epoll"
  shows "\<exists>m'. socket_connect (plain_ctx (loop_kernel False) quiet_epoll 9) m = Inr m'
    \<and> sock m' = (sock m)\<lparr>status := SOCKET_CONNECTING\<rparr> \<and> snd (kenv m') = snd (kenv m)"
proof -
  obtain ee h where ee: "heap_alloc \<lparr>ee_fd = sock_fd (sock m), ee_events = EPOLLOUT OR EPOLLIN OR EPOLLET, ee_event = 9\<rparr>
      (ep_entries ex_epoll) = (ee, h)" by fastforce
  show ?thesis using assms
    by (auto simp: socket_connect_def plain_ctx_def ConnectAsync_def connect_loop.simps loop_kernel_def syscall_def errno_defs
        loopR_def epoll_add_def quiet_epoll_def Let_def guardR_def ee)
qed

lemma demo_first_call:
  fixes m :: "(pipes, (nat \<times> byte list) list) link"
  assumes "sock_type (sock m) = CLIENT_SOCKET" "status (sock m) = SOCKET_INIT" "has_poller (sock m)" "poll m = ex_epoll"
  shows "\<exists>m'. rpc_call demo_channel_api x m = Inr m' \<and> status (sock m') = SOCKET_CONNECTING \<and> sock_fd (sock m') = sock_fd (sock m)
    \<and> snd (kenv m') = snd (kenv m)"
proof -
  let ?c = "push_request (call_name x) (call_req x) (call_ctl x) (call_resp x) (call_done x) (to_channel m)"
  have k: "sk ?c = sk (to_channel m)" by (simp add: push_request_def begin_call_def add_context_def Let_def split: prod.splits)
  obtain s where s: "socket_connect (plain_ctx (loop_kernel False) quiet_epoll 9) (sk (to_channel m)) = Inr s"
    "sock s = (sock m)\<lparr>status := SOCKET_CONNECTING\<rparr>" "snd (kenv s) = snd (kenv m)"
    using demo_connect [of "sk (to_channel m)"] assms by (auto simp: to_channel_def)
  have "rpc_call demo_channel_api x m = Inr (from_channel (?c\<lparr>sk := s\<rparr>))"
    using assms(2) s(1) k by (simp add: rpc_call_def channel_call_def demo_channel_api_def sock_api_def Let_def)
  then show ?thesis using s(2,3) by simp
qed

lemma queued_call:
  assumes "A = sock_api D parse run valid call" and "status (sock m) = SOCKET_CONNECTING"
  shows "\<exists>m'. rpc_call A x m = Inr m' \<and> sock m' = sock m \<and> kenv m' = kenv m"
proof -
  let ?c = "push_request (call_name x) (call_req x) (call_ctl x) (call_resp x) (call_done x) (to_channel m)"
  have "sk ?c = sk (to_channel m)" by (simp add: push_request_def begin_call_def add_context_def Let_def split: prod.splits)
  moreover have "rpc_call A x m = Inr (from_channel ?c)" using assms by (simp add: rpc_call_def channel_call_def)
  ultimately show ?thesis by simp
qed

lemma demo_both:
  "\<exists>m v. both_ends (demo_host demo_channel_api) (demo_host demo_session_api) demo_methods [] 3 5 demo_calls [] [] m (Some v)
    \<and> status (sock m) = SOCKET_CONNECTING \<and> has_poller (sock v)"
proof -
  let ?C = "demo_host demo_channel_api" and ?S = "demo_host demo_session_api" and ?K = "loop_kernel False"
  let ?reach = "both_ends ?C ?S demo_methods [] 3 5"
  let ?m0 = "rpc_channel_new ?K endpoint_default 9 (\<lambda>_. controller_new) ([] :: (nat \<times> byte list) list) ex_epoll
    (pool_init buffer_new, (0, ([], [])))"
  have m0: "sock_type (sock ?m0) = CLIENT_SOCKET" "status (sock ?m0) = SOCKET_INIT" "has_poller (sock ?m0)" "poll ?m0 = ex_epoll"
    "sock_fd (sock ?m0) = 3" "snd (kenv ?m0) = ([], [])"
    by (simp_all add: rpc_channel_new_def socket_client_def TcpSocket_def setNonBlocking_def loop_kernel_def syscall_def Let_def
        split: prod.splits)
  have r0: "?reach [] [] [] ?m0 None"
    by (rule both_ends.Created [OF _ bpool_wf_init m0(5)]) (simp_all add: m0(6) sent_def)
  let ?x = "demo_calls ! 0" and ?y = "demo_calls ! 1"
  obtain m1 where m1: "rpc_call demo_channel_api ?x ?m0 = Inr m1" "status (sock m1) = SOCKET_CONNECTING" "snd (kenv m1) = ([], [])"
    using demo_first_call [OF m0(1-4), of ?x] m0(6) by auto
  have s1: "link_step (h_kernel ?C) (h_epoll ?C) (h_inbox ?C) (h_outbox ?C) (h_api ?C) [?x] [] ?m0 m1"
    unfolding demo_host_sel by (rule link_step.Called [OF _ m1(1)]) (simp_all add: m0(2,6) m1(3))
  have "?reach ([] @ [?x]) [] ([] @ []) m1 None"
    by (rule both_ends.At_Client [OF r0 s1]) simp
  then have r1: "?reach [?x] [] [] m1 None" by simp
  obtain m2 where m2: "rpc_call demo_channel_api ?y m1 = Inr m2" "sock m2 = sock m1" "kenv m2 = kenv m1"
    using queued_call [OF demo_channel_api_def m1(2)] by blast
  have s2: "link_step (h_kernel ?C) (h_epoll ?C) (h_inbox ?C) (h_outbox ?C) (h_api ?C) [?y] [] m1 m2"
    unfolding demo_host_sel by (rule link_step.Called [OF _ m2(1)]) (simp_all add: m1(2) m2(3))
  have "?reach ([?x] @ [?y]) [] ([] @ []) m2 None"
    by (rule both_ends.At_Client [OF r1 s2]) simp
  then have r2: "?reach demo_calls [] [] m2 None" by (simp add: demo_calls_def)
  have K: "k_getpeername ?K 5 = (\<lambda>k. (Inr ([], 0), k))" by (simp add: loop_kernel_def)
  obtain v0 v :: "(pipes, unit) conn" where
    v0: "rpc_on_accept ?K demo_methods (\<lambda>_. controller_new) () 5 ex_epoll (pool_init buffer_new, (0, ([], []))) = Inr v0" "kenv v0 = (0, ([], []))"
    and v: "socket_set_poller (server_ctx ?K quiet_epoll 9 demo_session_api 77) v0 = Inr v" "kenv v = (0, ([], []))" "has_poller (sock v)"
    by (rule demo_connected [OF K])
  have "?reach demo_calls (h_inbox ?S (snd (kenv v0))) [] m2 (Some v0)"
    by (rule both_ends.Accepting [OF r2 _ bpool_wf_init]) (use v0 in \<open>simp_all add: sent_def\<close>)
  then have r3: "?reach demo_calls [] [] m2 (Some v0)" by (simp add: v0(2))
  have s3: "conn_step (h_kernel ?S) (h_epoll ?S) (h_inbox ?S) (h_outbox ?S) (h_api ?S) [] v0 v"
    unfolding demo_host_sel by (rule conn_step.Registered [OF v(1)]) (simp_all add: v(2) v0(2))
  have "?reach demo_calls ([] @ []) [] m2 (Some v)"
    by (rule both_ends.At_Server [OF r3 s3]) simp
  then show ?thesis using m1(2) m2(2) v(3) by (intro exI [of _ m2] exI [of _ v]) simp
qed

text \<open>The pipes bring more bytes.\<close>

definition bring :: "byte list \<Rightarrow> (pipes, 'w) world \<Rightarrow> (pipes, 'w) world" where
  "bring d m = m\<lparr>kenv := (fst (kenv m), (fst (snd (kenv m)) @ d, snd (snd (kenv m))))\<rparr>"

lemma bring_meanwhile: "meanwhile fst snd d m (bring d m)"
  by (simp add: meanwhile_def bring_def sock_bufs_def)

lemma demo_all_answered: "answered (answer_of demo_session_api demo_methods demo_answer) demo_calls = encode (packet_new 1 None [2, 1])"
  unfolding answered_def demo_session_answers demo_responses by simp

text \<open>The call of the known method is completed, the other one waits.\<close>

theorem calls_are_completed_witness:
  "\<exists>m v m1 v2 v3 m3. both_ends (demo_host demo_channel_api) (demo_host demo_session_api) demo_methods [] 3 5 demo_calls [] [] m (Some v)
    \<and> socket_out (client_ctx (loop_kernel False) quiet_epoll 9 demo_channel_api) 0 m = Inr m1
    \<and> socket_in (server_ctx (loop_kernel False) quiet_epoll 9 demo_session_api 77) (bring (asked demo_calls) v) = Inr v2
    \<and> socket_out (server_ctx (loop_kernel False) quiet_epoll 9 demo_session_api 77) 0 v2 = Inr v3
    \<and> socket_in (client_ctx (loop_kernel False) quiet_epoll 9 demo_channel_api) (bring (encode (packet_new 1 None [2, 1])) m1) = Inr m3
    \<and> pend (others m3) = [2 \<mapsto> context_of (demo_calls ! 1)] \<and> app (others m3) = [(3, [2, 1]), (5, [])]"
proof -
  obtain m v where r: "both_ends (demo_host demo_channel_api) (demo_host demo_session_api) demo_methods [] 3 5 demo_calls [] [] m (Some v)"
    and c: "status (sock m) \<in> {SOCKET_CONNECTING, SOCKET_CONNECTED}" "has_poller (sock v)" using demo_both by blast
  obtain m1 where m1: "socket_out (client_ctx (loop_kernel False) quiet_epoll 9 demo_channel_api) 0 m = Inr m1"
    and s: "\<forall>d v1. meanwhile fst snd d v v1 \<longrightarrow> [] @ d = asked demo_calls \<longrightarrow>
        (\<exists>v2 v3. socket_in (server_ctx (loop_kernel False) quiet_epoll 9 demo_session_api 77) v1 = Inr v2
          \<and> socket_out (server_ctx (loop_kernel False) quiet_epoll 9 demo_session_api 77) 0 v2 = Inr v3
          \<and> sent (demo_host demo_session_api) v3 = encode (packet_new 1 None [2, 1])
          \<and> (\<forall>d' m2. meanwhile fst snd d' m1 m2 \<longrightarrow> [] @ d' = encode (packet_new 1 None [2, 1]) \<longrightarrow>
              (\<exists>m3. socket_in (client_ctx (loop_kernel False) quiet_epoll 9 demo_channel_api) m2 = Inr m3
                \<and> pend (others m3) = [2 \<mapsto> context_of (demo_calls ! 1)] \<and> app (others m3) = [(3, [2, 1]), (5, [])])))"
    using calls_are_completed [OF demo_hosts r, unfolded demo_host_sel, OF demo_sizes c demo_roomy demo_roomy, of 9 0 9 77 0]
    unfolding demo_all_answered unfolding demo_finishes demo_session_answers demo_left_over demo_effect by blast
  obtain v2 v3 where v: "socket_in (server_ctx (loop_kernel False) quiet_epoll 9 demo_session_api 77) (bring (asked demo_calls) v) = Inr v2"
    "socket_out (server_ctx (loop_kernel False) quiet_epoll 9 demo_session_api 77) 0 v2 = Inr v3"
    "\<forall>d' m2. meanwhile fst snd d' m1 m2 \<longrightarrow> [] @ d' = encode (packet_new 1 None [2, 1]) \<longrightarrow>
      (\<exists>m3. socket_in (client_ctx (loop_kernel False) quiet_epoll 9 demo_channel_api) m2 = Inr m3
        \<and> pend (others m3) = [2 \<mapsto> context_of (demo_calls ! 1)] \<and> app (others m3) = [(3, [2, 1]), (5, [])])"
    using s [rule_format, OF bring_meanwhile] by auto
  obtain m3 where "socket_in (client_ctx (loop_kernel False) quiet_epoll 9 demo_channel_api) (bring (encode (packet_new 1 None [2, 1])) m1) = Inr m3"
    "pend (others m3) = [2 \<mapsto> context_of (demo_calls ! 1)]" "app (others m3) = [(3, [2, 1]), (5, [])]"
    using v(3) [rule_format, OF bring_meanwhile] by auto
  with r m1 v(1,2) show ?thesis by blast
qed

theorem calls_get_their_answers_witness:
  "\<exists>m v n. both_ends (demo_host demo_channel_api) (demo_host demo_session_api) demo_methods [] 3 5 demo_calls
      (asked demo_calls) (encode (packet_new 1 None [2, 1])) m (Some v)
    \<and> n \<le> length demo_calls \<and> app (others m) = [(3, [2, 1]), (5, [])]
    \<and> app (others m) = fold (complete_call demo_channel_api demo_run (answer_of demo_session_api demo_methods demo_answer)) (take n demo_calls) []"
proof -
  let ?C = "demo_host demo_channel_api" and ?S = "demo_host demo_session_api"
  let ?reach = "both_ends ?C ?S demo_methods [] 3 5 demo_calls"
  note hosts = demo_hosts [of 3 5]
  obtain m0 v0 where r0: "?reach [] [] m0 (Some v0)"
    and c: "status (sock m0) \<in> {SOCKET_CONNECTING, SOCKET_CONNECTED}" "has_poller (sock v0)" using demo_both by blast
  obtain m1 where m1: "sent ?C m1 = asked demo_calls" "status (sock m1) = SOCKET_CONNECTED" "?reach [] [] m1 (Some v0)"
    using client_sends [OF hosts r0, unfolded demo_host_sel, OF demo_sizes c(1) demo_roomy] by blast
  have v1: "?reach (asked demo_calls) [] m1 (Some (bring (asked demo_calls) v0))"
    using requests_delivered [OF m1(3,1), unfolded demo_host_sel, OF bring_meanwhile] by simp
  have "has_poller (sock (bring (asked demo_calls) v0))" using c(2) by (simp add: bring_def)
  from server_replies [OF hosts v1, unfolded demo_host_sel, OF demo_sizes this demo_roomy] obtain v3 where
    v3: "sent ?S v3 = answered (answer_of demo_session_api demo_methods demo_answer) demo_calls" "?reach (asked demo_calls) [] m1 (Some v3)"
    by blast
  let ?m2 = "bring (encode (packet_new 1 None [2, 1])) m1"
  have m2: "?reach (asked demo_calls) (encode (packet_new 1 None [2, 1])) ?m2 (Some v3)"
    using answers_delivered [OF v3(2) _, unfolded demo_host_sel, OF _ bring_meanwhile] v3(1) unfolding demo_all_answered by simp
  have on: "status (sock ?m2) = SOCKET_CONNECTED" using m1(2) by (simp add: bring_def)
  obtain m3 where m3: "socket_in (client_ctx (loop_kernel False) quiet_epoll 9 demo_channel_api) ?m2 = Inr m3"
    "app (others m3) = [(3, [2, 1]), (5, [])]"
    using client_completes [OF hosts, unfolded demo_host_sel, OF m2 [folded demo_all_answered] demo_sizes, unfolded demo_all_answered, OF on, of 9]
    unfolding demo_finishes demo_session_answers demo_effect by blast
  have "link_step (h_kernel ?C) (h_epoll ?C) (h_inbox ?C) (h_outbox ?C) (h_api ?C) [] [] ?m2 m3"
    unfolding demo_host_sel by (rule link_step.Received [OF m3(1)])
  from both_ends.At_Client [OF m2 this] v3(1) have r: "?reach (asked demo_calls) (encode (packet_new 1 None [2, 1])) m3 (Some v3)"
    unfolding demo_all_answered by simp
  from calls_get_their_answers [OF demo_hosts r, unfolded demo_host_sel, OF demo_sizes] obtain n where
    "n \<le> length demo_calls"
    "app (others m3) = fold (complete_call demo_channel_api demo_run (answer_of demo_session_api demo_methods demo_answer)) (take n demo_calls) []"
    by blast
  then show ?thesis using r m3(2) by blast
qed

end
