(* ===== verification/Mailbox.thy ===== *)
theory Mailbox
  imports Ypipe Errcode
begin

text \<open>
  \<open>src/core/signaler.h/.cc\<close>, \<open>mailbox.h/.cc\<close>, \<open>src/core/message.h\<close>'s queueing, and \<open>MakeFdPair\<close> of
  \<open>src/base/net.cc\<close>: a mailbox is a pipe, a mutex for the senders and an \<open>eventfd\<close> that wakes the
  receiver. \<open>mb_send\<close> and \<open>mb_recv\<close> are the functions as the code has them; \<open>mb_step\<close> splits them
  at every access to shared state, for any number of sending threads and one receiver.
\<close>

section \<open>Signaler\<close>

text \<open>
  The state of a non-blocking \<open>eventfd\<close> is its counter. A write adds to it, unless it would pass
  \<open>2 ^ 64 - 2\<close> (\<open>EAGAIN\<close>) or the value is \<open>2 ^ 64 - 1\<close> (\<open>EINVAL\<close>); a read takes the counter and
  fails with \<open>EAGAIN\<close> when it is 0; \<open>poll\<close> reports it readable when it is not 0.
\<close>

definition evt_write :: "nat \<Rightarrow> nat \<Rightarrow> nat" where
  "evt_write d c = (if d = 2 ^ 64 - 1 \<or> c + d > 2 ^ 64 - 2 then c else c + d)"

text \<open>
  \<open>Send\<close> writes the uninitialised variable \<open>dummy\<close>, here the argument \<open>d\<close>; the write is repeated
  while it is interrupted by a signal, \<open>k\<close> times.
\<close>

fun sig_send :: "nat \<Rightarrow> nat \<Rightarrow> nat \<Rightarrow> nat" where
  "sig_send (Suc k) d c = sig_send k d c"
| "sig_send 0 d c = evt_write d c"

lemma sig_send_eq [simp]: "sig_send k d c = evt_write d c"
  by (induction k) auto

text \<open>\<open>Wait\<close>: \<open>poll\<close>, interrupted or not; \<open>RecvFailable\<close> (and \<open>Recv\<close>): the result and the counter left.\<close>

definition sig_wait :: "bool \<Rightarrow> nat \<Rightarrow> int" where
  "sig_wait interrupted c = (if interrupted then -1 else if c > 0 then 1 else 0)"

definition sig_recv_failable :: "nat \<Rightarrow> int \<times> nat" where
  "sig_recv_failable c = (if c = 0 then (-1, c) else (8, 0))"

section \<open>Mailbox\<close>

record 'm mailbox =
  pipe :: "'m ypipe"
  active :: bool
  counter :: nat

text \<open>\<open>Mailbox\<close> asks the pipe once, so that the pipe knows its reader to be asleep.\<close>

definition mb_new :: "nat \<Rightarrow> 'm mailbox res" where
  "mb_new N = bindR (yp_new N) (\<lambda>p. bindR (yp_check_read p) (\<lambda>(_, p).
     Inr \<lparr>pipe = p, active = False, counter = 0\<rparr>))"

definition mb_send :: "nat \<Rightarrow> nat \<Rightarrow> nat \<Rightarrow> 'm \<Rightarrow> 'm mailbox \<Rightarrow> 'm mailbox res" where
  "mb_send N k d m mb =
     bindR (yp_write N m False (pipe mb)) (\<lambda>p.
     let (ok, p) = yp_flush p; mb = mb\<lparr>pipe := p\<rparr> in
     Inr (if \<not> ok then mb\<lparr>counter := sig_send k d (counter mb)\<rparr> else mb))"

text \<open>
  \<open>Recv\<close> returns a code and what it stored in \<open>*msg\<close>: \<open>None\<close> when it stored nothing. The result
  of the \<open>Read\<close> after the signal is ignored by the code.
\<close>

definition mb_recv :: "nat \<Rightarrow> bool \<Rightarrow> 'm mailbox \<Rightarrow> (int \<times> 'm option \<times> 'm mailbox) res" where
  "mb_recv N interrupted mb =
     bindR (if active mb then bindR (yp_read N (pipe mb)) (\<lambda>(x, p). Inr (x, mb\<lparr>pipe := p\<rparr>))
            else Inr (None, mb)) (\<lambda>(x, mb).
     if x \<noteq> None then Inr (kOK, x, mb)
     else
       let mb = mb\<lparr>active := False\<rparr> in
       if sig_wait interrupted (counter mb) = -1 then Inr (kError, None, mb)
       else
         let (rc, c) = sig_recv_failable (counter mb); mb = mb\<lparr>counter := c\<rparr> in
         if rc = -1 then Inr (kError, None, mb)
         else
           bindR (yp_read N (pipe mb)) (\<lambda>(x, p).
           Inr (kOK, x, mb\<lparr>active := True, pipe := p\<rparr>)))"

section \<open>Concurrent senders and the receiver\<close>

text \<open>
  Where a sender is in \<open>Send\<close>: waiting for the mutex or outside, holding it before \<open>Write\<close>, after
  it, after a failed compare-and-swap, before \<open>UnLock\<close> (with what \<open>Flush\<close> returned), before
  \<open>signaler_.Send\<close>. Where the receiver is in \<open>Recv\<close>: outside, in front of \<open>Wait\<close>, behind a
  successful \<open>RecvFailable\<close>.
\<close>

datatype 'm sender = Outside | Locked 'm | Wrote | Cas_Failed | Flushed bool | Signalling

datatype receiver = Idle | Waiting | Woken

text \<open>
  \<open>sent\<close> lists the messages in the order they were written, \<open>got\<close> what the calls of \<open>Recv\<close> that
  returned \<open>kOK\<close> stored.
\<close>

record 'm mbox = "'m mailbox" +
  mutex :: "nat option"
  sender :: "nat \<Rightarrow> 'm sender"
  receiver :: receiver
  sent :: "'m list"
  got :: "'m option list"

definition mb_init :: "nat \<Rightarrow> 'm mbox \<Rightarrow> bool" where
  "mb_init N s \<longleftrightarrow> (\<exists>mb. mb_new N = Inr mb \<and> s = \<lparr>pipe = pipe mb, active = active mb, counter = counter mb,
     mutex = None, sender = (\<lambda>_. Outside), receiver = Idle, sent = [], got = []\<rparr>)"

text \<open>\<open>D\<close>: the values the uninitialised \<open>dummy\<close> can have.\<close>

inductive mb_step :: "nat \<Rightarrow> nat set \<Rightarrow> 'm mbox \<Rightarrow> 'm mbox \<Rightarrow> bool" for N D where
  lock: "\<lbrakk>sender s t = Outside; mutex s = None\<rbrakk>
    \<Longrightarrow> mb_step N D s (s\<lparr>mutex := Some t, sender := (sender s)(t := Locked m)\<rparr>)"
| put: "\<lbrakk>sender s t = Locked m; yp_write N m False (pipe s) = Inr p\<rbrakk>
    \<Longrightarrow> mb_step N D s (s\<lparr>pipe := p, sender := (sender s)(t := Wrote), sent := sent s @ [m]\<rparr>)"
| flush_cas: "\<lbrakk>sender s t = Wrote; yp_flush_cas (pipe s) = (b, p)\<rbrakk>
    \<Longrightarrow> mb_step N D s (s\<lparr>pipe := p, sender := (sender s)(t := if b then Flushed True else Cas_Failed)\<rparr>)"
| flush_set: "sender s t = Cas_Failed
    \<Longrightarrow> mb_step N D s (s\<lparr>pipe := yp_flush_set (pipe s), sender := (sender s)(t := Flushed False)\<rparr>)"
| unlock: "sender s t = Flushed ok
    \<Longrightarrow> mb_step N D s (s\<lparr>mutex := None, sender := (sender s)(t := if ok then Outside else Signalling)\<rparr>)"
| signal: "\<lbrakk>sender s t = Signalling; d \<in> D\<rbrakk>
    \<Longrightarrow> mb_step N D s (s\<lparr>counter := sig_send k d (counter s), sender := (sender s)(t := Outside)\<rparr>)"
| read_some: "\<lbrakk>receiver s = Idle; active s; yp_read N (pipe s) = Inr (Some m, p)\<rbrakk>
    \<Longrightarrow> mb_step N D s (s\<lparr>pipe := p, got := got s @ [Some m]\<rparr>)"
| read_none: "\<lbrakk>receiver s = Idle; active s; yp_read N (pipe s) = Inr (None, p)\<rbrakk>
    \<Longrightarrow> mb_step N D s (s\<lparr>pipe := p, active := False, receiver := Waiting\<rparr>)"
| go_passive: "\<lbrakk>receiver s = Idle; \<not> active s\<rbrakk> \<Longrightarrow> mb_step N D s (s\<lparr>receiver := Waiting\<rparr>)"
| wait_error: "\<lbrakk>receiver s = Waiting; sig_wait True (counter s) = -1\<rbrakk>
    \<Longrightarrow> mb_step N D s (s\<lparr>receiver := Idle\<rparr>)"
| recv_error: "\<lbrakk>receiver s = Waiting; sig_recv_failable (counter s) = (-1, c)\<rbrakk>
    \<Longrightarrow> mb_step N D s (s\<lparr>counter := c, receiver := Idle\<rparr>)"
| recv_signal: "\<lbrakk>receiver s = Waiting; sig_recv_failable (counter s) = (rc, c); rc \<noteq> -1\<rbrakk>
    \<Longrightarrow> mb_step N D s (s\<lparr>counter := c, receiver := Woken\<rparr>)"
| woken: "\<lbrakk>receiver s = Woken; yp_read N (pipe s) = Inr (x, p)\<rbrakk>
    \<Longrightarrow> mb_step N D s (s\<lparr>pipe := p, active := True, receiver := Idle, got := got s @ [x]\<rparr>)"

definition mb_reachable :: "nat \<Rightarrow> nat set \<Rightarrow> 'm mbox \<Rightarrow> bool" where
  "mb_reachable N D s \<longleftrightarrow> (\<exists>s0. mb_init N s0 \<and> (mb_step N D)\<^sup>*\<^sup>* s0 s)"

section \<open>The invariant\<close>

definition holds_lock :: "'m sender \<Rightarrow> bool" where
  "holds_lock x \<longleftrightarrow> x \<noteq> Outside \<and> x \<noteq> Signalling"

definition signalling :: "'m sender \<Rightarrow> bool" where
  "signalling x \<longleftrightarrow> x = Signalling \<or> x = Flushed False"

text \<open>
  What the mutex \<open>mx\<close> protects, for the senders \<open>sd\<close>: only its holder may see items that are not
  flushed.
\<close>

definition lock_inv :: "nat option \<Rightarrow> (nat \<Rightarrow> 'm sender) \<Rightarrow> 'm apipe \<Rightarrow> bool" where
  "lock_inv mx sd a \<longleftrightarrow>
     (\<forall>t. holds_lock (sd t) \<longleftrightarrow> mx = Some t) \<and> nf a = length (items a)
     \<and> (case mx of None \<Rightarrow> nw a = nf a
        | Some t \<Rightarrow> (case sd t of Wrote \<Rightarrow> nw a < nf a | Cas_Failed \<Rightarrow> nw a < nf a \<and> asleep a
                     | _ \<Rightarrow> nw a = nf a))"

text \<open>
  Who owes the receiver a signal: nobody while it is awake or the pipe knows it to be asleep;
  otherwise the \<open>eventfd\<close> or exactly one sender.
\<close>

definition quiet :: "nat \<Rightarrow> (nat \<Rightarrow> 'm sender) \<Rightarrow> bool" where
  "quiet c sd \<longleftrightarrow> c = 0 \<and> (\<forall>t. \<not> signalling (sd t))"

definition signalled :: "nat \<Rightarrow> (nat \<Rightarrow> 'm sender) \<Rightarrow> bool" where
  "signalled c sd \<longleftrightarrow> 0 < c \<and> (\<forall>t. \<not> signalling (sd t)) \<or> c = 0 \<and> (\<exists>!t. signalling (sd t))"

definition wake_inv :: "bool \<Rightarrow> receiver \<Rightarrow> nat \<Rightarrow> (nat \<Rightarrow> 'm sender) \<Rightarrow> 'm apipe \<Rightarrow> bool" where
  "wake_inv ac rc c sd a \<longleftrightarrow>
     (if asleep a then \<not> ac \<and> rc \<noteq> Woken \<and> quiet c sd
      else if ac then rc = Idle \<and> quiet c sd
      else if rc = Woken then 0 < nw a \<and> quiet c sd
      else 0 < nw a \<and> signalled c sd)"

definition mb_rep :: "nat \<Rightarrow> 'm mbox \<Rightarrow> 'm apipe \<Rightarrow> bool" where
  "mb_rep N s a \<longleftrightarrow> pipe_rep N (pipe s) a \<and> ap_wf a \<and> lock_inv (mutex s) (sender s) a
     \<and> wake_inv (active s) (receiver s) (counter s) (sender s) a
     \<and> map Some (sent s) = got s @ map Some (items a)"

definition mb_inv :: "nat \<Rightarrow> 'm mbox \<Rightarrow> bool" where
  "mb_inv N s \<longleftrightarrow> (\<exists>a. mb_rep N s a)"

definition good_signal :: "nat set \<Rightarrow> bool" where
  "good_signal D \<longleftrightarrow> (\<forall>d \<in> D. 0 < d \<and> d < 2 ^ 64 - 1)"

lemma signalling_simps [simp]:
  "\<not> signalling Outside" "\<not> signalling (Locked m)" "\<not> signalling Wrote" "\<not> signalling Cas_Failed"
  "\<not> signalling (Flushed True)" "signalling (Flushed False)" "signalling Signalling"
  by (simp_all add: signalling_def)

lemma holds_lock_simps [simp]:
  "\<not> holds_lock Outside" "holds_lock (Locked m)" "holds_lock Wrote" "holds_lock Cas_Failed"
  "holds_lock (Flushed ok)" "\<not> holds_lock Signalling"
  by (simp_all add: holds_lock_def)

lemma holder: "lock_inv mx sd a \<Longrightarrow> holds_lock (sd t) \<Longrightarrow> mx = Some t"
  by (simp add: lock_inv_def)

text \<open>The holder of the lock moves on, to the state \<open>y\<close>, with the pipe at \<open>a'\<close>.\<close>

lemma holder_step:
  assumes "lock_inv mx sd a" and "holds_lock (sd t)" and "holds_lock y" and "nf a' = length (items a')"
    and "case y of Wrote \<Rightarrow> nw a' < nf a' | Cas_Failed \<Rightarrow> nw a' < nf a' \<and> asleep a' | _ \<Rightarrow> nw a' = nf a'"
  shows "lock_inv mx (sd(t := y)) a'"
  using assms holder [OF assms(1,2)] by (auto simp: lock_inv_def)

lemma debt_cong:
  assumes "\<And>u. signalling (sd' u) = signalling (sd u)"
  shows "quiet c sd' = quiet c sd" and "signalled c sd' = signalled c sd"
  using assms by (simp_all add: quiet_def signalled_def)

text \<open>A sender moves between states that owe no signal.\<close>

lemma quiet_step:
  assumes "wake_inv ac rc c sd a" and "\<not> signalling (sd t)" and "\<not> signalling y"
    and "asleep a' = asleep a" and "nw a \<le> nw a'"
  shows "wake_inv ac rc c (sd(t := y)) a'"
proof -
  have eq: "signalling ((sd(t := y)) u) \<longleftrightarrow> signalling (sd u)" for u using assms(2,3) by simp
  show ?thesis using assms(1,4,5) unfolding wake_inv_def debt_cong [OF eq] by (auto split: if_splits)
qed

lemma mb_init_inv: "0 < N \<Longrightarrow> mb_init N (s :: 'a mbox) \<Longrightarrow> mb_inv N s"
proof -
  assume N: "0 < N" and i: "mb_init N s"
  obtain p :: "'a ypipe" where p: "yp_new N = Inr p" "pipe_rep N p ap_new" using yp_new_rep [OF N] by blast
  obtain p1 where p1: "yp_check_read p = Inr (False, p1)" "pipe_rep N p1 (ap_new\<lparr>asleep := True\<rparr>)"
    using yp_check_read_rep [OF p(2)] by (auto simp: ap_check_read_def ap_new_def)
  have "s = \<lparr>pipe = p1, active = False, counter = 0, mutex = None, sender = (\<lambda>_. Outside),
     receiver = Idle, sent = [], got = []\<rparr>"
    using i p p1 by (auto simp: mb_init_def mb_new_def)
  then have "mb_rep N s (ap_new\<lparr>asleep := True\<rparr>)"
    using p1(2)
    by (simp add: mb_rep_def lock_inv_def wake_inv_def quiet_def ap_new_def ap_wf_def)
  then show ?thesis by (auto simp: mb_inv_def)
qed

text \<open>The steps of a sender.\<close>

lemma mb_put:
  assumes "mb_rep N s a" and "sender s t = Locked m" and "yp_write N m False (pipe s) = Inr p"
  shows "mb_rep N (s\<lparr>pipe := p, sender := (sender s)(t := Wrote), sent := sent s @ [m]\<rparr>) (ap_write m False a)"
proof -
  let ?a = "ap_write m False a"
  have li: "lock_inv (mutex s) (sender s) a" and wf: "ap_wf a" and rep: "pipe_rep N (pipe s) a"
    and wi: "wake_inv (active s) (receiver s) (counter s) (sender s) a"
    using assms(1) by (auto simp: mb_rep_def)
  have a: "nf ?a = length (items ?a)" "nw ?a < nf ?a" "asleep ?a = asleep a" "nw ?a = nw a" "ap_wf ?a"
    using wf by (auto simp: ap_write_def ap_wf_def)
  have "lock_inv (mutex s) ((sender s)(t := Wrote)) ?a"
    using a by (intro holder_step [OF li]) (simp_all add: assms(2))
  moreover have "wake_inv (active s) (receiver s) (counter s) ((sender s)(t := Wrote)) ?a"
    using a by (intro quiet_step [OF wi]) (simp_all add: assms(2))
  moreover have "pipe_rep N p ?a" using yp_write_rep [OF rep, of m False] assms(3) by auto
  ultimately show ?thesis using a(5) assms(1) by (simp add: mb_rep_def ap_write_def)
qed

lemma mb_flush_cas:
  assumes "mb_rep N s a" and "sender s t = Wrote" and "yp_flush_cas (pipe s) = (b, p)"
  shows "mb_rep N (s\<lparr>pipe := p, sender := (sender s)(t := if b then Flushed True else Cas_Failed)\<rparr>)
    (snd (ap_flush_cas a))"
proof -
  have li: "lock_inv (mutex s) (sender s) a" and wf: "ap_wf a" and rep: "pipe_rep N (pipe s) a"
    and wi: "wake_inv (active s) (receiver s) (counter s) (sender s) a"
    using assms(1) by (auto simp: mb_rep_def)
  have h: "mutex s = Some t" using holder [OF li] assms(2) by simp
  have n: "nw a < nf a" "nf a = length (items a)" using li h assms(2) by (auto simp: lock_inv_def)
  have r: "pipe_rep N p (snd (ap_flush_cas a))" "b = fst (ap_flush_cas a)"
    using yp_flush_cas_rep [OF rep] assms(3) by auto
  show ?thesis
  proof (cases "asleep a")
    case True
    then have a: "snd (ap_flush_cas a) = a" "\<not> b" using r n by (auto simp: ap_flush_cas_def)
    have "lock_inv (mutex s) ((sender s)(t := Cas_Failed)) a"
      using n True by (intro holder_step [OF li]) (simp_all add: assms(2))
    moreover have "wake_inv (active s) (receiver s) (counter s) ((sender s)(t := Cas_Failed)) a"
      by (intro quiet_step [OF wi]) (simp_all add: assms(2))
    ultimately show ?thesis using a r(1) assms(1) by (simp add: mb_rep_def)
  next
    case False
    let ?a = "a\<lparr>nw := nf a\<rparr>"
    have a: "snd (ap_flush_cas a) = ?a" "b" using False r n by (auto simp: ap_flush_cas_def)
    have "lock_inv (mutex s) ((sender s)(t := Flushed True)) ?a"
      using n by (intro holder_step [OF li]) (simp_all add: assms(2))
    moreover have "wake_inv (active s) (receiver s) (counter s) ((sender s)(t := Flushed True)) ?a"
      using n by (intro quiet_step [OF wi]) (simp_all add: assms(2))
    moreover have "ap_wf ?a" using wf False by (auto simp: ap_wf_def)
    ultimately show ?thesis using a r(1) assms(1) by (simp add: mb_rep_def)
  qed
qed

lemma mb_flush_set:
  assumes "mb_rep N s a" and "sender s t = Cas_Failed"
  shows "mb_rep N (s\<lparr>pipe := yp_flush_set (pipe s), sender := (sender s)(t := Flushed False)\<rparr>) (ap_flush_set a)"
proof -
  let ?a = "ap_flush_set a"
  have li: "lock_inv (mutex s) (sender s) a" and wf: "ap_wf a" and rep: "pipe_rep N (pipe s) a"
    and wi: "wake_inv (active s) (receiver s) (counter s) (sender s) a"
    using assms(1) by (auto simp: mb_rep_def)
  have h: "mutex s = Some t" using holder [OF li] assms(2) by simp
  have n: "nw a < nf a" "nf a = length (items a)" "asleep a" using li h assms(2) by (auto simp: lock_inv_def)
  have "lock_inv (mutex s) ((sender s)(t := Flushed False)) ?a"
    using n by (intro holder_step [OF li]) (simp_all add: assms(2) ap_flush_set_def)
  moreover have "wake_inv (active s) (receiver s) (counter s) ((sender s)(t := Flushed False)) ?a"
    using wi n by (auto simp: wake_inv_def ap_flush_set_def quiet_def signalled_def)
  moreover have "ap_wf ?a" using wf by (auto simp: ap_wf_def ap_flush_set_def)
  ultimately show ?thesis
    using yp_flush_set_rep [OF rep] assms(1) by (simp add: mb_rep_def) (simp add: ap_flush_set_def)
qed

lemma mb_unlock:
  assumes "mb_rep N s a" and "sender s t = Flushed ok"
  shows "mb_rep N (s\<lparr>mutex := None, sender := (sender s)(t := if ok then Outside else Signalling)\<rparr>) a"
proof -
  let ?sd = "(sender s)(t := if ok then Outside else Signalling)"
  have li: "lock_inv (mutex s) (sender s) a" using assms(1) by (auto simp: mb_rep_def)
  have h: "mutex s = Some t" using holder [OF li] assms(2) by simp
  have "lock_inv None ?sd a" using li h assms(2) by (auto simp: lock_inv_def)
  moreover have sg: "signalling (?sd u) \<longleftrightarrow> signalling (sender s u)" for u using assms(2) by (cases ok) auto
  ultimately show ?thesis
    using assms(1) by (simp add: mb_rep_def wake_inv_def debt_cong [OF sg] del: fun_upd_apply)
qed

lemma mb_signal:
  assumes "mb_rep N s a" and "sender s t = Signalling" and "0 < d" and "d < 2 ^ 64 - 1"
  shows "mb_rep N (s\<lparr>counter := sig_send k d (counter s), sender := (sender s)(t := Outside)\<rparr>) a"
proof -
  have wi: "wake_inv (active s) (receiver s) (counter s) (sender s) a" using assms(1) by (simp add: mb_rep_def)
  have q: "\<not> quiet (counter s) (sender s)"
    using assms(2) unfolding quiet_def by (metis signalling_simps(7))
  then have "signalled (counter s) (sender s)" using wi by (auto simp: wake_inv_def split: if_splits)
  then have c: "counter s = 0" and u: "\<And>u. signalling (sender s u) \<Longrightarrow> u = t"
    using assms(2) unfolding signalled_def by (metis signalling_simps(7))+
  have "evt_write d 0 = d" using assms(4) by (simp add: evt_write_def)
  moreover have "signalled d ((sender s)(t := Outside))" using assms(3) u by (auto simp: signalled_def)
  ultimately have "wake_inv (active s) (receiver s) (sig_send k d (counter s)) ((sender s)(t := Outside)) a"
    using wi q c by (auto simp: wake_inv_def split: if_splits)
  moreover have li: "lock_inv (mutex s) (sender s) a" using assms(1) by (simp add: mb_rep_def)
  have "mutex s \<noteq> Some t" using li assms(2) unfolding lock_inv_def by (metis holds_lock_simps(6))
  then have "lock_inv (mutex s) ((sender s)(t := Outside)) a"
    using li assms(2) by (auto simp: lock_inv_def split: option.splits)
  ultimately show ?thesis using assms(1) by (simp add: mb_rep_def)
qed

text \<open>The steps of the receiver.\<close>

lemma ap_read_awake:
  assumes "ap_wf a" and "\<not> asleep a" and "ap_read a = (x, a')"
  shows "ap_wf a'" and "case x of
      None \<Rightarrow> nw a = 0 \<and> a' = a\<lparr>asleep := True\<rparr>
    | Some m \<Rightarrow> items a = m # items a' \<and> \<not> asleep a' \<and> nf a = Suc (nf a') \<and> nw a = Suc (nw a')"
  using assms
  by (cases "items a"; auto simp: ap_read_def ap_check_read_def ap_wf_def split: if_splits)+

lemma lock_inv_read:
  assumes "lock_inv mx sd a" and "nf a = Suc (nf a')" and "nw a = Suc (nw a')" and "items a = m # items a'"
    and "\<not> asleep a"
  shows "lock_inv mx sd a'"
  using assms by (auto simp: lock_inv_def split: option.splits sender.splits)

lemma mb_read:
  assumes "mb_rep N s a" and "receiver s = Idle" and "active s" and "yp_read N (pipe s) = Inr (x, p)"
  shows "mb_inv N (case x of None \<Rightarrow> s\<lparr>pipe := p, active := False, receiver := Waiting\<rparr>
    | Some m \<Rightarrow> s\<lparr>pipe := p, got := got s @ [Some m]\<rparr>)"
proof -
  have wf: "ap_wf a" and rep: "pipe_rep N (pipe s) a" and li: "lock_inv (mutex s) (sender s) a"
    and wi: "wake_inv (active s) (receiver s) (counter s) (sender s) a"
    and gh: "map Some (sent s) = got s @ map Some (items a)"
    using assms(1) by (auto simp: mb_rep_def)
  have aw: "\<not> asleep a" "quiet (counter s) (sender s)"
    using wi assms(3) by (auto simp: wake_inv_def split: if_splits)
  obtain a' where a': "ap_read a = (x, a')" "pipe_rep N p a'"
    using yp_read_rep [OF rep] assms(4) by (metis Inr_inject Pair_inject prod.collapse)
  note r = ap_read_awake [OF wf aw(1) a'(1)]
  show ?thesis
  proof (cases x)
    case None
    then have "lock_inv (mutex s) (sender s) a'"
      using li aw(1) r(2) by (auto simp: lock_inv_def split: option.splits sender.splits)
    then have "mb_rep N (s\<lparr>pipe := p, active := False, receiver := Waiting\<rparr>) a'"
      using a'(2) r None aw(2) gh by (simp add: mb_rep_def wake_inv_def)
    then show ?thesis using None by (auto simp: mb_inv_def)
  next
    case (Some m)
    then have "lock_inv (mutex s) (sender s) a'" using lock_inv_read [OF li] r(2) aw(1) by auto
    then have "mb_rep N (s\<lparr>pipe := p, got := got s @ [Some m]\<rparr>) a'"
      using a'(2) r Some aw(2) gh assms(2,3) by (simp add: mb_rep_def wake_inv_def)
    then show ?thesis using Some by (auto simp: mb_inv_def)
  qed
qed

lemma mb_woken:
  assumes "mb_rep N s a" and "receiver s = Woken" and "yp_read N (pipe s) = Inr (x, p)"
  shows "mb_inv N (s\<lparr>pipe := p, active := True, receiver := Idle, got := got s @ [x]\<rparr>)"
proof -
  have wf: "ap_wf a" and rep: "pipe_rep N (pipe s) a" and li: "lock_inv (mutex s) (sender s) a"
    and wi: "wake_inv (active s) (receiver s) (counter s) (sender s) a"
    and gh: "map Some (sent s) = got s @ map Some (items a)"
    using assms(1) by (auto simp: mb_rep_def)
  have aw: "\<not> asleep a" "quiet (counter s) (sender s)" "0 < nw a"
    using wi assms(2) by (auto simp: wake_inv_def split: if_splits)
  obtain a' where a': "ap_read a = (x, a')" "pipe_rep N p a'"
    using yp_read_rep [OF rep] assms(3) by (metis Inr_inject Pair_inject prod.collapse)
  note r = ap_read_awake [OF wf aw(1) a'(1)]
  obtain m where x: "x = Some m" using r(2) aw(3) by (cases x) auto
  then have "lock_inv (mutex s) (sender s) a'" using lock_inv_read [OF li] r(2) aw(1) by auto
  then have "mb_rep N (s\<lparr>pipe := p, active := True, receiver := Idle, got := got s @ [x]\<rparr>) a'"
    using a'(2) r x aw(2) gh by (simp add: mb_rep_def wake_inv_def)
  then show ?thesis by (auto simp: mb_inv_def)
qed

lemma mb_idle_waiting:
  assumes "mb_rep N s a" and "receiver s \<noteq> Woken" and "r \<noteq> Woken" and "active s \<longrightarrow> r = Idle"
  shows "mb_rep N (s\<lparr>receiver := r\<rparr>) a"
  using assms by (auto simp: mb_rep_def wake_inv_def split: if_splits)

lemma mb_step_inv:
  assumes "mb_step N D s s'" and "mb_inv N s" and "good_signal D"
  shows "mb_inv N s'"
proof -
  obtain a where rep: "mb_rep N s a" using assms(2) by (auto simp: mb_inv_def)
  from assms(1) show ?thesis
  proof cases
    case (lock t m)
    have "lock_inv (Some t) ((sender s)(t := Locked m)) a"
      using rep lock by (auto simp: mb_rep_def lock_inv_def)
    moreover have "wake_inv (active s) (receiver s) (counter s) ((sender s)(t := Locked m)) a"
      using rep lock by (intro quiet_step) (auto simp: mb_rep_def)
    ultimately have "mb_rep N s' a" using rep lock by (simp add: mb_rep_def)
    then show ?thesis by (auto simp: mb_inv_def)
  next
    case (put t m p)
    then show ?thesis using mb_put [OF rep] by (auto simp: mb_inv_def)
  next
    case (flush_cas t b p)
    from mb_flush_cas [OF rep flush_cas(2,3)] show ?thesis unfolding mb_inv_def flush_cas(1) by blast
  next
    case (flush_set t)
    then show ?thesis using mb_flush_set [OF rep] by (auto simp: mb_inv_def)
  next
    case (unlock t ok)
    from mb_unlock [OF rep unlock(2)] show ?thesis unfolding mb_inv_def unlock(1) by blast
  next
    case (signal t d k)
    then show ?thesis using mb_signal [OF rep, of t d k] assms(3) by (auto simp: mb_inv_def good_signal_def)
  next
    case (read_some m p)
    then show ?thesis using mb_read [OF rep, of "Some m"] by simp
  next
    case (read_none p)
    then show ?thesis using mb_read [OF rep, of None] by simp
  next
    case go_passive
    then show ?thesis using mb_idle_waiting [OF rep] by (auto simp: mb_inv_def)
  next
    case wait_error
    then show ?thesis using mb_idle_waiting [OF rep] by (auto simp: mb_inv_def)
  next
    case (recv_error c)
    then have "s' = s\<lparr>receiver := Idle\<rparr>" by (cases s) (auto simp: sig_recv_failable_def split: if_splits)
    then show ?thesis using recv_error mb_idle_waiting [OF rep] by (auto simp: mb_inv_def)
  next
    case (recv_signal rc c)
    have c: "0 < counter s" "c = 0"
      using recv_signal by (auto simp: sig_recv_failable_def split: if_splits)
    have "wake_inv (active s) Woken 0 (sender s) a"
      using rep c(1) recv_signal(2)
      by (auto simp: mb_rep_def wake_inv_def quiet_def signalled_def split: if_splits)
    then have "mb_rep N s' a" using rep recv_signal c by (simp add: mb_rep_def)
    then show ?thesis by (auto simp: mb_inv_def)
  next
    case (woken x p)
    then show ?thesis using mb_woken [OF rep, of x p] by simp
  qed
qed

lemma mb_reachable_inv:
  assumes "0 < N" and "good_signal D" and "mb_reachable N D s"
  shows "mb_inv N s"
proof -
  obtain s0 where s0: "mb_init N s0" "(mb_step N D)\<^sup>*\<^sup>* s0 s" using assms(3) by (auto simp: mb_reachable_def)
  from s0(2) show ?thesis
    by induction (use mb_init_inv [OF assms(1) s0(1)] mb_step_inv assms(2) in blast)+
qed

section \<open>The functions of the code are paths of steps\<close>

definition boxed :: "'m mbox \<Rightarrow> 'm mailbox" where
  "boxed s = \<lparr>pipe = pipe s, active = active s, counter = counter s\<rparr>"

lemma mb_send_is_steps:
  assumes "mb_send N k d m (boxed s) = Inr mb" and "sender s t = Outside" and "mutex s = None" and "d \<in> D"
  shows "(mb_step N D)\<^sup>*\<^sup>* s (s\<lparr>pipe := pipe mb, counter := counter mb, sent := sent s @ [m]\<rparr>)"
proof -
  obtain p where p: "yp_write N m False (pipe s) = Inr p"
    using assms(1) by (auto simp: mb_send_def boxed_def bindR_eq_Inr)
  obtain b p1 where b: "yp_flush_cas p = (b, p1)" by fastforce
  define s1 where "s1 = s\<lparr>mutex := Some t, sender := (sender s)(t := Locked m)\<rparr>"
  define s2 where "s2 = s1\<lparr>pipe := p, sender := (sender s1)(t := Wrote), sent := sent s1 @ [m]\<rparr>"
  define s3 where "s3 = s2\<lparr>pipe := p1, sender := (sender s2)(t := if b then Flushed True else Cas_Failed)\<rparr>"
  have 1: "mb_step N D s s1" unfolding s1_def by (rule mb_step.lock) (use assms in auto)
  have 2: "mb_step N D s1 s2" unfolding s2_def by (rule mb_step.put) (use p in \<open>auto simp: s1_def\<close>)
  have 3: "mb_step N D s2 s3" unfolding s3_def by (rule mb_step.flush_cas) (use b in \<open>auto simp: s2_def\<close>)
  have sd: "sender s3 = (sender s)(t := if b then Flushed True else Cas_Failed)"
    by (simp add: s3_def s2_def s1_def)
  have to3: "(mb_step N D)\<^sup>*\<^sup>* s s3" 
    by (rule rtranclp.rtrancl_into_rtrancl [OF rtranclp.rtrancl_into_rtrancl [OF r_into_rtranclp [of "mb_step N D", OF 1] 2] 3])
  have bck: "(sender s)(t := Outside) = sender s" using assms(2) by auto
  show ?thesis
  proof (cases b)
    case True
    have "mb_step N D s3 (s3\<lparr>mutex := None, sender := (sender s3)(t := if True then Outside else Signalling)\<rparr>)"
      by (rule mb_step.unlock) (use sd True in simp)
    moreover have "s3\<lparr>mutex := None, sender := (sender s3)(t := if True then Outside else Signalling)\<rparr>
      = s\<lparr>pipe := pipe mb, counter := counter mb, sent := sent s @ [m]\<rparr>"
    proof -
      have "pipe mb = p1" "counter mb = counter s"
        using assms(1) p b True by (auto simp: mb_send_def boxed_def yp_flush_def)
      then show ?thesis
        by (intro mbox.equality) (simp_all add: s3_def s2_def s1_def bck assms(3))
    qed
    ultimately show ?thesis using to3 by (metis rtranclp.rtrancl_into_rtrancl)
  next
    case False
    define s4 where "s4 = s3\<lparr>pipe := yp_flush_set (pipe s3), sender := (sender s3)(t := Flushed False)\<rparr>"
    define s5 where "s5 = s4\<lparr>mutex := None, sender := (sender s4)(t := if False then Outside else Signalling)\<rparr>"
    have 4: "mb_step N D s3 s4" unfolding s4_def by (rule mb_step.flush_set) (use sd False in simp)
    have 5: "mb_step N D s4 s5" unfolding s5_def by (rule mb_step.unlock) (simp add: s4_def)
    have "mb_step N D s5 (s5\<lparr>counter := sig_send k d (counter s5), sender := (sender s5)(t := Outside)\<rparr>)"
      by (rule mb_step.signal) (use assms(4) in \<open>simp_all add: s5_def\<close>)
    moreover have "s5\<lparr>counter := sig_send k d (counter s5), sender := (sender s5)(t := Outside)\<rparr>
      = s\<lparr>pipe := pipe mb, counter := counter mb, sent := sent s @ [m]\<rparr>"
    proof -
      have "pipe mb = yp_flush_set p1" "counter mb = sig_send k d (counter s)"
        using assms(1) p b False by (auto simp: mb_send_def boxed_def yp_flush_def)
      then show ?thesis
        by (intro mbox.equality) (simp_all add: s5_def s4_def s3_def s2_def s1_def bck assms(3))
    qed
    ultimately show ?thesis using to3 4 5 by (metis rtranclp.rtrancl_into_rtrancl)
  qed
qed

lemma mb_recv_waiting:
  assumes "receiver s = Waiting" and "\<not> active s" and "mb_recv N i (boxed s) = Inr (rc, x, mb)"
  shows "(mb_step N D)\<^sup>*\<^sup>* s (s\<lparr>pipe := pipe mb, active := active mb, counter := counter mb, receiver := Idle,
    got := if rc = kOK then got s @ [x] else got s\<rparr>)" (is "(_)\<^sup>*\<^sup>* _ ?s'")
proof -
  consider (err) "sig_wait i (counter s) = -1" | (none) "sig_wait i (counter s) \<noteq> -1" "counter s = 0"
    | (sig) "sig_wait i (counter s) \<noteq> -1" "0 < counter s" by blast
  then show ?thesis
  proof cases
    case err
    then have "sig_wait True (counter s) = -1" by (simp add: sig_wait_def)
    then have "mb_step N D s (s\<lparr>receiver := Idle\<rparr>)" by (rule mb_step.wait_error [OF assms(1)])
    moreover have "s\<lparr>receiver := Idle\<rparr> = ?s'"
      using assms err by (auto simp: mb_recv_def boxed_def kOK_def kError_def)
    ultimately show ?thesis by (metis r_into_rtranclp)
  next
    case none
    then have "mb_step N D s (s\<lparr>counter := 0, receiver := Idle\<rparr>)"
      by (intro mb_step.recv_error assms(1)) (simp add: sig_recv_failable_def)
    moreover have "s\<lparr>counter := 0, receiver := Idle\<rparr> = ?s'"
      using assms none by (auto simp: mb_recv_def boxed_def kOK_def kError_def sig_recv_failable_def)
    ultimately show ?thesis by (metis r_into_rtranclp)
  next
    case sig
    then obtain p where p: "yp_read N (pipe s) = Inr (x, p)"
      "mb = \<lparr>pipe = p, active = True, counter = 0\<rparr>" "rc = kOK"
      using assms by (auto simp: mb_recv_def boxed_def sig_recv_failable_def bindR_eq_Inr)
    define s1 where "s1 = s\<lparr>counter := 0, receiver := Woken\<rparr>"
    have 1: "mb_step N D s s1" unfolding s1_def
      using sig by (intro mb_step.recv_signal [where rc = 8] assms(1)) (simp_all add: sig_recv_failable_def)
    have 2: "mb_step N D s1 (s1\<lparr>pipe := p, active := True, receiver := Idle, got := got s1 @ [x]\<rparr>)"
      by (rule mb_step.woken) (use p in \<open>simp_all add: s1_def\<close>)
    moreover have "s1\<lparr>pipe := p, active := True, receiver := Idle, got := got s1 @ [x]\<rparr> = ?s'"
      using p by (simp add: s1_def)
    ultimately show ?thesis
      using converse_rtranclp_into_rtranclp [of "mb_step N D", OF 1 r_into_rtranclp [of "mb_step N D", OF 2]] by simp
  qed
qed

lemma mb_recv_is_steps:
  assumes "receiver s = Idle" and "mb_recv N i (boxed s) = Inr (rc, x, mb)"
  shows "(mb_step N D)\<^sup>*\<^sup>* s (s\<lparr>pipe := pipe mb, active := active mb, counter := counter mb,
    got := if rc = kOK then got s @ [x] else got s\<rparr>)" (is "(_)\<^sup>*\<^sup>* _ ?s'")
proof (cases "active s")
  case False
  define s1 where "s1 = s\<lparr>receiver := Waiting\<rparr>"
  have "mb_step N D s s1" unfolding s1_def by (rule mb_step.go_passive) (use assms False in auto)
  moreover have "(mb_step N D)\<^sup>*\<^sup>* s1 (s1\<lparr>pipe := pipe mb, active := active mb, counter := counter mb,
      receiver := Idle, got := if rc = kOK then got s1 @ [x] else got s1\<rparr>)"
    by (rule mb_recv_waiting [where i = i]) (use assms False in \<open>simp_all add: s1_def boxed_def\<close>)
  moreover have "s1\<lparr>pipe := pipe mb, active := active mb, counter := counter mb,
      receiver := Idle, got := if rc = kOK then got s1 @ [x] else got s1\<rparr> = ?s'"
    by (intro mbox.equality) (simp_all add: s1_def assms(1))
  ultimately show ?thesis using converse_rtranclp_into_rtranclp [of "mb_step N D" s s1] by simp
next
  case True
  then obtain y p where p: "yp_read N (pipe s) = Inr (y, p)"
    using assms by (auto simp: mb_recv_def boxed_def bindR_eq_Inr)
  show ?thesis
  proof (cases y)
    case (Some m)
    then have "mb_step N D s (s\<lparr>pipe := p, got := got s @ [Some m]\<rparr>)"
      using p True assms by (intro mb_step.read_some) auto
    moreover have "s\<lparr>pipe := p, got := got s @ [Some m]\<rparr> = ?s'"
      using Some p True assms by (auto simp: mb_recv_def boxed_def)
    ultimately show ?thesis by (metis r_into_rtranclp)
  next
    case None
    define s1 where "s1 = s\<lparr>pipe := p, active := False, receiver := Waiting\<rparr>"
    have "mb_step N D s s1" unfolding s1_def using p None True assms by (intro mb_step.read_none) auto
    moreover have "mb_recv N i (boxed s1) = Inr (rc, x, mb)"
      using assms(2) True p None by (simp add: mb_recv_def boxed_def s1_def)
    then have "(mb_step N D)\<^sup>*\<^sup>* s1 (s1\<lparr>pipe := pipe mb, active := active mb, counter := counter mb,
        receiver := Idle, got := if rc = kOK then got s1 @ [x] else got s1\<rparr>)"
      by (intro mb_recv_waiting [where i = i]) (simp_all add: s1_def)
    moreover have "s1\<lparr>pipe := pipe mb, active := active mb, counter := counter mb,
        receiver := Idle, got := if rc = kOK then got s1 @ [x] else got s1\<rparr> = ?s'"
      by (intro mbox.equality) (simp_all add: s1_def assms(1))
    ultimately show ?thesis using converse_rtranclp_into_rtranclp [of "mb_step N D" s s1] by simp
  qed
qed

section \<open>Paths used by the properties\<close>

lemma mb_init_ex: "0 < N \<Longrightarrow> \<exists>s :: 'm mbox. mb_init N s \<and> active s = False \<and> counter s = 0
  \<and> mutex s = None \<and> sender s = (\<lambda>_. Outside) \<and> receiver s = Idle \<and> sent s = [] \<and> got s = []
  \<and> pipe_rep N (pipe s) (ap_new\<lparr>asleep := True\<rparr>)"
proof -
  assume N: "0 < N"
  obtain p :: "'m ypipe" where p: "yp_new N = Inr p" "pipe_rep N p ap_new" using yp_new_rep [OF N] by blast
  obtain p1 where p1: "yp_check_read p = Inr (False, p1)" "pipe_rep N p1 (ap_new\<lparr>asleep := True\<rparr>)"
    using yp_check_read_rep [OF p(2)] by (auto simp: ap_check_read_def ap_new_def)
  show ?thesis
    by (intro exI [of _ "\<lparr>pipe = p1, active = False, counter = 0, mutex = None, sender = (\<lambda>_. Outside),
        receiver = Idle, sent = [], got = []\<rparr>"]) (simp add: mb_init_def mb_new_def p p1)
qed

text \<open>A receiver asleep, one message sent with the garbage value \<open>d\<close>.\<close>

lemma mb_one_send:
  fixes m :: 'm
  assumes N: "0 < N" and D: "d \<in> D"
  shows "\<exists>s. mb_reachable N D s \<and> sender s = (\<lambda>_. Outside) \<and> sent s = [m] \<and> got s = []
    \<and> counter s = evt_write d 0 \<and> \<not> active s \<and> receiver s = Idle"
proof -
  obtain s :: "'m mbox" where s: "mb_init N s" "active s = False" "counter s = 0" "mutex s = None"
    "sender s = (\<lambda>_. Outside)" "receiver s = Idle" "sent s = []" "got s = []"
    "pipe_rep N (pipe s) (ap_new\<lparr>asleep := True\<rparr>)"
    using mb_init_ex [OF N] by blast
  obtain p where p: "yp_write N m False (pipe s) = Inr p" "pipe_rep N p (ap_write m False (ap_new\<lparr>asleep := True\<rparr>))"
    using yp_write_rep [OF s(9), of m False] by blast
  have "fst (yp_flush p) = False"
    using yp_flush_rep [OF p(2)] by (auto simp: ap_flush_cas_def ap_write_def ap_new_def)
  then obtain p1 where "yp_flush p = (False, p1)" by (metis prod.collapse)
  then have snd: "mb_send N 0 d m (boxed s) = Inr \<lparr>pipe = p1, active = False, counter = evt_write d 0\<rparr>"
    using p(1) s by (simp add: mb_send_def boxed_def)
  from mb_send_is_steps [OF snd, of 0 D] s D
  have "(mb_step N D)\<^sup>*\<^sup>* s (s\<lparr>pipe := p1, counter := evt_write d 0, sent := [m]\<rparr>)" by simp
  then have "mb_reachable N D (s\<lparr>pipe := p1, counter := evt_write d 0, sent := [m]\<rparr>)"
    using s(1) by (auto simp: mb_reachable_def)
  then show ?thesis using s by (intro exI [of _ "s\<lparr>pipe := p1, counter := evt_write d 0, sent := [m]\<rparr>"]) simp
qed

section \<open>Properties\<close>

text \<open>
  C8. Whatever the interleaving of any number of senders with the receiver, and provided the
  word that \<open>Signaler::Send\<close> writes, which is not initialised, is neither 0 nor \<open>2^64 - 1\<close>, every call of \<open>Recv\<close> that returns \<open>kOK\<close> stores a message (the
  result of the \<open>Read\<close> after the signal may be ignored), the messages arrive in the order they
  were written, none is lost or duplicated, and the next \<open>Write\<close> and \<open>Read\<close> cannot fault.
\<close>
theorem mailbox_delivers_in_order:
  assumes "0 < N" and "good_signal D" and "mb_reachable N D s"
  shows "\<exists>rest p x q. map Some (sent s) = got s @ map Some rest
    \<and> yp_write N m False (pipe s) = Inr p \<and> yp_read N (pipe s) = Inr (x, q)"
proof -
  obtain a where "mb_rep N s a" using mb_reachable_inv [OF assms] by (auto simp: mb_inv_def)
  then have a: "map Some (sent s) = got s @ map Some (items a)" "pipe_rep N (pipe s) a"
    by (auto simp: mb_rep_def)
  show ?thesis using a(1) yp_write_rep [OF a(2), of m False] yp_read_rep [OF a(2)] by metis
qed

theorem mailbox_delivers_in_order_witness:
  "\<exists>s :: nat mbox. mb_reachable 16 {1} s \<and> (\<exists>rest p x q. map Some (sent s) = got s @ map Some rest
    \<and> yp_write 16 5 False (pipe s) = Inr p \<and> yp_read 16 (pipe s) = Inr (x, q))"
proof -
  obtain s :: "nat mbox" where s: "mb_reachable 16 {1} s" using mb_one_send [of 16 1 "{1}" 7] by (simp, blast)
  have "\<exists>rest p x q. map Some (sent s) = got s @ map Some rest
    \<and> yp_write 16 5 False (pipe s) = Inr p \<and> yp_read 16 (pipe s) = Inr (x, q)"
    by (rule mailbox_delivers_in_order [OF _ _ s]) (simp_all add: good_signal_def)
  with s show ?thesis by blast
qed

text \<open>
  C7. No wake-up is lost: when the word that \<open>Signaler::Send\<close> writes, which is not initialised, is neither 0 nor
  \<open>2^64 - 1\<close>, if no sender is inside \<open>Send\<close> and the
  receiver is about to wait although a message is undelivered, the \<open>eventfd\<close> is readable, so that
  \<open>poll\<close> reports it and \<open>RecvFailable\<close> succeeds.
\<close>
theorem mailbox_no_lost_wakeup:
  assumes "0 < N" and "good_signal D" and "mb_reachable N D s"
    and "\<And>t. sender s t = Outside" and "\<not> active s" and "receiver s \<noteq> Woken"
    and "length (got s) < length (sent s)"
  shows "sig_wait False (counter s) = 1 \<and> sig_recv_failable (counter s) = (8, 0)"
proof -
  obtain a where "mb_rep N s a" using mb_reachable_inv [OF assms(1-3)] by (auto simp: mb_inv_def)
  then have wi: "wake_inv (active s) (receiver s) (counter s) (sender s) a"
    and li: "lock_inv (mutex s) (sender s) a" and wf: "ap_wf a"
    and gh: "map Some (sent s) = got s @ map Some (items a)"
    by (auto simp: mb_rep_def)
  have "length (sent s) = length (got s) + length (items a)"
    using arg_cong [OF gh, of length] by simp
  then have "0 < length (items a)" using assms(7) by simp
  moreover have "mutex s = None"
  proof (rule ccontr)
    assume "mutex s \<noteq> None"
    then obtain t where "mutex s = Some t" by auto
    then have "holds_lock (sender s t)" using li by (simp add: lock_inv_def)
    then show False using assms(4) by simp
  qed
  ultimately have "0 < nw a" using li by (simp add: lock_inv_def)
  then have "\<not> asleep a" using wf by (auto simp: ap_wf_def)
  then have "signalled (counter s) (sender s)" using wi assms(5,6) by (simp add: wake_inv_def)
  then have "0 < counter s" using assms(4) by (auto simp: signalled_def)
  then show ?thesis by (simp add: sig_wait_def sig_recv_failable_def)
qed

theorem mailbox_no_lost_wakeup_witness:
  "\<exists>s :: nat mbox. mb_reachable 16 {1} s \<and> sent s = [7]
    \<and> sig_wait False (counter s) = 1 \<and> sig_recv_failable (counter s) = (8, 0)"
proof -
  obtain s :: "nat mbox" where s: "mb_reachable 16 {1} s" "sender s = (\<lambda>_. Outside)" "sent s = [7]" "got s = []"
    "\<not> active s" "receiver s = Idle"
    using mb_one_send [of 16 1 "{1}" "7 :: nat"] by (simp, blast)
  have "sig_wait False (counter s) = 1 \<and> sig_recv_failable (counter s) = (8, 0)"
    by (rule mailbox_no_lost_wakeup [OF _ _ s(1)]) (use s in \<open>simp_all add: good_signal_def\<close>)
  with s show ?thesis by blast
qed

text \<open>
  C28. \<open>Signaler::Send\<close> writes a variable it never set. If that variable happens to be 0 (or
  \<open>2 ^ 64 - 1\<close>), the wake-up is lost: a message is in the mailbox, all senders are done, the
  receiver is passive, and every call of \<open>Recv\<close> now fails and leaves the mailbox as it is.
\<close>
theorem mailbox_garbage_signal_lost:
  assumes "0 < N" and "d \<in> D" and "d = 0 \<or> d = 2 ^ 64 - 1"
  shows "\<exists>s. mb_reachable N D s \<and> (\<forall>t. sender s t = Outside) \<and> sent s = [m] \<and> got s = []
    \<and> (\<forall>i. mb_recv N i (boxed s) = Inr (kError, None, boxed s))"
proof -
  from mb_one_send [OF assms(1,2), of m] obtain s where
    s: "mb_reachable N D s" "sender s = (\<lambda>_. Outside)" "sent s = [m]" "got s = []"
    "counter s = evt_write d 0" "\<not> active s" "receiver s = Idle"
    by blast
  have "counter s = 0" using s(5) assms(3) unfolding evt_write_def by (elim disjE) simp_all
  then have "mb_recv N i (boxed s) = Inr (kError, None, boxed s)" for i
    using s(6) by (simp add: mb_recv_def boxed_def sig_wait_def sig_recv_failable_def Let_def)
  then show ?thesis using s by (intro exI [of _ s]) simp
qed

theorem mailbox_garbage_signal_lost_witness:
  "\<exists>s :: nat mbox. mb_reachable 16 {0} s \<and> (\<forall>t. sender s t = Outside) \<and> sent s = [7] \<and> got s = []
    \<and> (\<forall>i. mb_recv 16 i (boxed s) = Inr (kError, None, boxed s))"
  by (rule mailbox_garbage_signal_lost [of 16 0]) simp_all

end
