(* ===== verification/Worker.thy ===== *)
theory Worker
  imports Mailbox Rpc
begin

text \<open>
  \<open>src/core/message.h\<close>, \<open>accept_message.h\<close>, \<open>worker.h\<close> and \<open>worker.cc\<close>, and the connection of a session
  to its poller in \<open>session.h\<close>: what a worker thread does with the messages in its mailbox. Between
  the calls of its senders and of its \<open>In\<close> a mailbox is a queue (locale \<open>mail\<close>); the interleavings
  inside the calls are those of the theory \<open>Mailbox\<close>.
\<close>

section \<open>A mailbox as a queue\<close>

text \<open>\<open>rcv i\<close> is \<open>Recv\<close> when the wait for the signal is interrupted or not.\<close>

locale mail =
  fixes snd_msg :: "'m \<Rightarrow> 'b \<Rightarrow> 'b res"
    and rcv_msg :: "bool \<Rightarrow> 'b \<Rightarrow> (int \<times> 'm option \<times> 'b) res"
    and rep :: "'b \<Rightarrow> 'm list \<Rightarrow> bool"
  assumes send_rep: "rep b ms \<Longrightarrow> \<exists>b'. snd_msg m b = Inr b' \<and> rep b' (ms @ [m])"
    and recv_rep: "rep b ms \<Longrightarrow> (\<exists>m ms' b'. ms = m # ms' \<and> rcv_msg i b = Inr (kOK, Some m, b') \<and> rep b' ms')
      \<or> ((i \<or> ms = []) \<and> (\<exists>b'. rcv_msg i b = Inr (kError, None, b') \<and> rep b' ms))"

definition kMailboxGranularity :: nat where
  "kMailboxGranularity = 16"

text \<open>A mailbox nobody is in; \<open>d\<close> is the value its senders write to the \<open>eventfd\<close>.\<close>

definition mb_holds :: "nat \<Rightarrow> 'm mailbox \<Rightarrow> 'm list \<Rightarrow> bool" where
  "mb_holds d mb ms \<longleftrightarrow> 0 < d \<and> d < 2 ^ 64 - 1
     \<and> (\<exists>a. pipe_rep kMailboxGranularity (pipe mb) a \<and> ap_wf a \<and> items a = ms \<and> nf a = length ms \<and> nw a = nf a
         \<and> (if asleep a then \<not> active mb \<and> counter mb = 0
            else if active mb then counter mb = 0 else 0 < counter mb \<and> ms \<noteq> []))"

lemma mb_holds_new: "0 < d \<Longrightarrow> d < 2 ^ 64 - 1 \<Longrightarrow> \<exists>mb. mb_new kMailboxGranularity = Inr mb \<and> mb_holds d mb []"
proof -
  assume d: "0 < d" "d < 2 ^ 64 - 1"
  have "0 < kMailboxGranularity" by (simp add: kMailboxGranularity_def)
  then obtain p :: "'a ypipe" where p: "yp_new kMailboxGranularity = Inr p" "pipe_rep kMailboxGranularity p ap_new"
    using yp_new_rep by blast
  obtain p1 where p1: "yp_check_read p = Inr (False, p1)" "pipe_rep kMailboxGranularity p1 (ap_new\<lparr>asleep := True\<rparr>)"
    using yp_check_read_rep [OF p(2)] by (auto simp: ap_check_read_def ap_new_def)
  then show ?thesis
    using p(1) d by (auto simp: mb_new_def mb_holds_def ap_new_def ap_wf_def intro!: exI [of _ "ap_new\<lparr>asleep := True\<rparr>"])
qed

lemma mb_holds_send:
  assumes "mb_holds d mb ms"
  shows "\<exists>mb'. mb_send kMailboxGranularity k d m mb = Inr mb' \<and> mb_holds d mb' (ms @ [m])"
proof -
  obtain a where d: "0 < d" "d < 2 ^ 64 - 1" and a: "pipe_rep kMailboxGranularity (pipe mb) a" "ap_wf a" "items a = ms"
    "nf a = length ms" "nw a = nf a"
    "if asleep a then \<not> active mb \<and> counter mb = 0 else if active mb then counter mb = 0 else 0 < counter mb \<and> ms \<noteq> []"
    using assms unfolding mb_holds_def by blast
  let ?a = "ap_write m False a"
  obtain p1 where p1: "yp_write kMailboxGranularity m False (pipe mb) = Inr p1" "pipe_rep kMailboxGranularity p1 ?a"
    using yp_write_rep [OF a(1)] by blast
  have w: "items ?a = ms @ [m]" "nf ?a = length (ms @ [m])" "nw ?a = length ms" "asleep ?a = asleep a" "ap_wf ?a"
    using a(2-5) by (auto simp: ap_write_def ap_wf_def)
  obtain b p2 where p2: "yp_flush p1 = (b, p2)" "b = fst (ap_flush_cas ?a)"
    "pipe_rep kMailboxGranularity p2 (if b then snd (ap_flush_cas ?a) else ap_flush_set (snd (ap_flush_cas ?a)))"
    using yp_flush_rep [OF p1(2)] by blast
  have ev: "evt_write d 0 = d" using d by (simp add: evt_write_def)
  show ?thesis
  proof (cases "asleep a")
    case True
    then have f: "ap_flush_cas ?a = (False, ?a)" using w by (simp add: ap_flush_cas_def)
    let ?mb = "mb\<lparr>pipe := p2, counter := d\<rparr>"
    have "mb_send kMailboxGranularity k d m mb = Inr ?mb"
      using p1(1) p2(1,2) f True a(6) ev by (simp add: mb_send_def)
    moreover have "mb_holds d ?mb (ms @ [m])"
      unfolding mb_holds_def using d p2(2,3) f w True a(6)
      by (intro conjI exI [of _ "ap_flush_set ?a"]) (auto simp: ap_flush_set_def ap_wf_def)
    ultimately show ?thesis by blast
  next
    case False
    then have f: "ap_flush_cas ?a = (True, ?a\<lparr>nw := nf ?a\<rparr>)" using w by (simp add: ap_flush_cas_def)
    let ?mb = "mb\<lparr>pipe := p2\<rparr>"
    have "mb_send kMailboxGranularity k d m mb = Inr ?mb" using p1(1) p2(1,2) f by (simp add: mb_send_def)
    moreover have "mb_holds d ?mb (ms @ [m])"
      unfolding mb_holds_def using d p2(2,3) f w False a(6)
      by (intro conjI exI [of _ "?a\<lparr>nw := nf ?a\<rparr>"]) (auto simp: ap_wf_def split: if_splits)
    ultimately show ?thesis by blast
  qed
qed

lemma mb_holds_recv:
  assumes "mb_holds d mb ms"
  shows "(\<exists>m ms' mb'. ms = m # ms' \<and> mb_recv kMailboxGranularity i mb = Inr (kOK, Some m, mb') \<and> mb_holds d mb' ms')
    \<or> ((i \<or> ms = []) \<and> (\<exists>mb'. mb_recv kMailboxGranularity i mb = Inr (kError, None, mb') \<and> mb_holds d mb' ms))"
proof -
  obtain a where d: "0 < d" "d < 2 ^ 64 - 1" and a: "pipe_rep kMailboxGranularity (pipe mb) a" "ap_wf a" "items a = ms"
    "nf a = length ms" "nw a = nf a"
    "if asleep a then \<not> active mb \<and> counter mb = 0 else if active mb then counter mb = 0 else 0 < counter mb \<and> ms \<noteq> []"
    using assms unfolding mb_holds_def by blast
  have w: "sig_wait i 0 = -1 \<longleftrightarrow> i" "sig_recv_failable 0 = (-1, 0)" "0 < n \<Longrightarrow> sig_recv_failable n = (8, 0)"
    "0 < n \<Longrightarrow> sig_wait i n = -1 \<longleftrightarrow> i" for n
    by (simp_all add: sig_wait_def sig_recv_failable_def)
  obtain x a' where x: "ap_read a = (x, a')" by fastforce
  obtain p where p: "yp_read kMailboxGranularity (pipe mb) = Inr (x, p)" "pipe_rep kMailboxGranularity p a'"
    using yp_read_rep [OF a(1)] x by auto
  consider (off) "asleep a" | (on) "\<not> asleep a" "active mb" | (sig) "\<not> asleep a" "\<not> active mb" by blast
  then show ?thesis
  proof cases
    case off
    then have "ms = []" using a(2,4,5) by (simp add: ap_wf_def)
    moreover have "mb_recv kMailboxGranularity i mb = Inr (kError, None, mb\<lparr>active := False, counter := 0\<rparr>)"
      using off a(6) w(1,2) by (auto simp: mb_recv_def)
    moreover have "mb\<lparr>active := False, counter := 0\<rparr> = mb" using off a(6) by simp
    ultimately show ?thesis using assms by auto
  next
    case on
    note r = ap_read_awake [OF a(2) on(1) x]
    show ?thesis
    proof (cases x)
      case None
      then have ms: "ms = []" and a': "a' = a\<lparr>asleep := True\<rparr>" using r a(4,5) by auto
      let ?mb = "\<lparr>pipe = p, active = False, counter = 0\<rparr>"
      have "mb_recv kMailboxGranularity i mb = Inr (kError, None, ?mb)"
        using on a(6) p None w(1,2) by (auto simp: mb_recv_def)
      moreover have "mb_holds d ?mb []"
        unfolding mb_holds_def using d p(2) r a ms a' by (intro conjI exI [of _ a']) auto
      ultimately show ?thesis using ms by blast
    next
      case (Some m)
      let ?mb = "mb\<lparr>pipe := p\<rparr>"
      have "mb_recv kMailboxGranularity i mb = Inr (kOK, Some m, ?mb)" using on p Some by (simp add: mb_recv_def)
      moreover have "mb_holds d ?mb (items a')"
        unfolding mb_holds_def using d p(2) r a Some on by (intro conjI exI [of _ a']) auto
      ultimately show ?thesis using r Some a(3) by auto
    qed
  next
    case sig
    then have c: "0 < counter mb" "ms \<noteq> []" using a(6) by simp_all
    show ?thesis
    proof (cases i)
      case True
      have "mb_recv kMailboxGranularity i mb = Inr (kError, None, mb\<lparr>active := False\<rparr>)"
        using sig True w(4) [OF c(1)] by (simp add: mb_recv_def)
      moreover have "mb\<lparr>active := False\<rparr> = mb" using sig by simp
      ultimately show ?thesis using assms True by auto
    next
      case False
      note r = ap_read_awake [OF a(2) sig(1) x]
      obtain m where m: "x = Some m" using r c(2) a(4,5) by (cases x) auto
      let ?mb = "\<lparr>pipe = p, active = True, counter = 0\<rparr>"
      have "mb_recv kMailboxGranularity i mb = Inr (kOK, Some m, ?mb)"
        using sig False w(3,4) [OF c(1)] p m by (simp add: mb_recv_def Let_def)
      moreover have "mb_holds d ?mb (items a')"
        unfolding mb_holds_def using d p(2) r a m by (intro conjI exI [of _ a']) auto
      ultimately show ?thesis using r m a(3) by auto
    qed
  qed
qed

interpretation mbox: mail "mb_send kMailboxGranularity k d" "mb_recv kMailboxGranularity" "mb_holds d" for k d
  by unfold_locales (rule mb_holds_send mb_holds_recv, assumption)+

section \<open>Messages and workers\<close>

text \<open>A message with its handler, the number of a worker, and its thread; sessions and callbacks are numbers.\<close>

datatype message =
    AcceptMessage (am_session: addr) (msg_tid: nat) (msg_handler: nat)
  | RpcChannelMessage (rm_endpoint: endpoint) (rm_done: nat) (msg_tid: nat) (msg_handler: nat)

definition kAcceptMessage :: int where "kAcceptMessage = 1"
definition kRpcChannelMessage :: int where "kRpcChannelMessage = 2"

fun Type :: "message \<Rightarrow> int" where
  "Type (AcceptMessage s t h) = kAcceptMessage"
| "Type (RpcChannelMessage e d t h) = kRpcChannelMessage"

record worker =
  w_name :: string
  w_tid :: nat
  w_handle :: ptr
  w_poller :: epoll
  w_wfd :: int
  w_rfd :: int
  mailbox :: "message mailbox"

text \<open>The constructor; the signaler of the mailbox makes its \<open>eventfd\<close>, which is both \<open>wfd_\<close> and \<open>rfd_\<close>. \<open>me\<close> is the worker as an \<open>Event\<close>.\<close>

definition worker_new :: "'k kernel \<Rightarrow> 'k epoll_kernel \<Rightarrow> string \<Rightarrow> addr \<Rightarrow> 'k env \<Rightarrow> (worker \<times> 'k env) res" where
  "worker_new K P name me s =
     (let (_, wfd, rfd, s) = MakeFdPair K s in
      bindR (mb_new kMailboxGranularity) (\<lambda>mb.
      let (rc, E, s) = epoll_init P 1024 (epoll_new, s);
          w = \<lparr>w_name = name, w_tid = 0, w_handle = Null, w_poller = E, w_wfd = wfd, w_rfd = rfd, mailbox = mb\<rparr>
      in if rc \<noteq> kOK then Inr (w, s)
         else bindR (epoll_add P rfd me (E, s)) (\<lambda>(h, E, s). Inr (w\<lparr>w_handle := h, w_poller := E\<rparr>, s))))"

text \<open>\<open>Send\<close>; \<open>k\<close> and \<open>d\<close> are those of \<open>mb_send\<close>.\<close>

definition worker_send :: "nat \<Rightarrow> nat \<Rightarrow> message \<Rightarrow> worker \<Rightarrow> worker res" where
  "worker_send k d msg w = bindR (mb_send kMailboxGranularity k d msg (mailbox w)) (\<lambda>mb. Inr (w\<lparr>mailbox := mb\<rparr>))"

text \<open>\<open>~Signaler\<close>, and \<open>~Worker\<close>, which deletes the poller and then destroys the mailbox.\<close>

definition signaler_destroy :: "'k kernel \<Rightarrow> int \<Rightarrow> int \<Rightarrow> 'k env \<Rightarrow> 'k env" where
  "signaler_destroy K wfd rfd s =
     (let s = (if wfd \<noteq> kInvalidFd then net_close K wfd s else s)
      in if rfd \<noteq> kInvalidFd then net_close K rfd s else s)"

definition worker_destroy :: "'k kernel \<Rightarrow> 'k epoll_kernel \<Rightarrow> worker \<Rightarrow> 'k env \<Rightarrow> 'k env res" where
  "worker_destroy K P w s =
     bindR (epoll_destroy P (w_poller w, s)) (\<lambda>(_, s). Inr (signaler_destroy K (w_wfd w) (w_rfd w) s))"

text \<open>\<open>Run\<close>, over whatever the dispatch of the poller works on; \<open>running\<close> reads the state of the thread.\<close>

partial_function (option) worker_run :: "('s \<Rightarrow> bool) \<Rightarrow> ('s \<Rightarrow> 's res) \<Rightarrow> 's \<Rightarrow> 's res option" where
  "worker_run running dispatch s =
     (if running s then
        (case dispatch s of Inl f \<Rightarrow> Some (Inl f) | Inr s \<Rightarrow> worker_run running dispatch s)
      else Some (Inr s))"

text \<open>
  Both descriptors are the one \<open>eventfd\<close>, so the destructor closes it twice; the second call closes
  whatever another thread has opened under that number in between.
\<close>

lemma eventfd_closed_twice:
  assumes "worker_new K P name me (e, k) = Inr (w, s)" and "k_eventfd K k = (Inr fd, k')" and "fd \<noteq> kInvalidFd"
  shows "signaler_destroy K (w_wfd w) (w_rfd w) t = net_close K fd (net_close K fd t)"
proof -
  obtain rc E s1 where "epoll_init P 1024 (epoll_new, e, k') = (rc, E, s1)" by (metis surj_pair)
  then have "w_wfd w = fd \<and> w_rfd w = fd"
    using assms(1,2) by (auto simp: worker_new_def MakeFdPair_def syscall_def res_simps Let_def split: prod.splits if_splits)
  then show ?thesis using assms(3) by (simp add: signaler_destroy_def)
qed

text \<open>\<open>Session::SetPoller\<close>.\<close>

definition session_set_poller :: "('k, 'v) ctx \<Rightarrow> (('k, 'v) world, 'w, 'x) channel_scheme \<Rightarrow> (('k, 'v) world, 'w, 'x) channel_scheme res" where
  "session_set_poller C c = bindR (socket_set_poller C (sk c)) (\<lambda>m. Inr (c\<lparr>sk := m\<rparr>))"

text \<open>
  What processing a message calls: \<open>SetPoller\<close> of the session, with the poller of the worker, the
  constructor of a channel, and the callback that gets it.
\<close>

record 's worker_api =
  wa_set_poller :: "nat \<Rightarrow> addr \<Rightarrow> 's \<Rightarrow> 's res"
  wa_new_channel :: "nat \<Rightarrow> endpoint \<Rightarrow> 's \<Rightarrow> (addr \<times> 's) res"
  wa_done :: "nat \<Rightarrow> addr \<Rightarrow> 's \<Rightarrow> 's res"

text \<open>
  The two functions cast the message to the class they expect without a test; a message of the other
  class has no field there.
\<close>

definition processAcceptMessage :: "'s worker_api \<Rightarrow> nat \<Rightarrow> message \<Rightarrow> 's \<Rightarrow> 's res" where
  "processAcceptMessage A w msg s =
     (case msg of AcceptMessage session _ _ \<Rightarrow> wa_set_poller A w session s | _ \<Rightarrow> Inl Wild_Access)"

definition processRpcChannelMessage :: "'s worker_api \<Rightarrow> nat \<Rightarrow> message \<Rightarrow> 's \<Rightarrow> 's res" where
  "processRpcChannelMessage A w msg s =
     (case msg of
        RpcChannelMessage ep dn _ _ \<Rightarrow> bindR (wa_new_channel A w ep s) (\<lambda>(c, s). wa_done A dn c s)
      | _ \<Rightarrow> Inl Wild_Access)"

definition Process :: "'s worker_api \<Rightarrow> nat \<Rightarrow> message \<Rightarrow> 's \<Rightarrow> 's res" where
  "Process A w msg s =
     (let type = Type msg in
      if type = kAcceptMessage then processAcceptMessage A w msg s
      else if type = kRpcChannelMessage then processRpcChannelMessage A w msg s
      else Inr s)"

text \<open>Both casts are right and the last branch is never taken.\<close>

lemma Process_simps [simp]:
  "Process A w (AcceptMessage session t h) s = wa_set_poller A w session s"
  "Process A w (RpcChannelMessage ep dn t h) s = bindR (wa_new_channel A w ep s) (\<lambda>(c, s). wa_done A dn c s)"
  by (simp_all add: Process_def processAcceptMessage_def processRpcChannelMessage_def kAcceptMessage_def kRpcChannelMessage_def)

text \<open>\<open>msg->Process ()\<close>.\<close>

definition message_process :: "'s worker_api \<Rightarrow> message \<Rightarrow> 's \<Rightarrow> 's res" where
  "message_process A msg s = Process A (msg_handler msg) msg s"

text \<open>
  \<open>In\<close>: \<open>intr n\<close> tells whether the \<open>n\<close>-th wait is interrupted, which leaves \<open>EINTR\<close> in \<open>errno\<close>; a failed
  read of the signal leaves \<open>EAGAIN\<close>. \<open>Recv\<close> may return \<open>kOK\<close> and store nothing; then \<open>msg\<close> is used
  uninitialised.
\<close>

partial_function (option) worker_in :: "(bool \<Rightarrow> 'b \<Rightarrow> (int \<times> 'm option \<times> 'b) res) \<Rightarrow> ('m \<Rightarrow> 's \<Rightarrow> 's res)
    \<Rightarrow> (nat \<Rightarrow> bool) \<Rightarrow> nat \<Rightarrow> 'b \<times> 's \<Rightarrow> ('b \<times> 's) res option" where
  "worker_in rcv process intr n s =
     (case rcv (intr n) (fst s) of
        Inl f \<Rightarrow> Some (Inl f)
      | Inr (rc, msg, b) \<Rightarrow>
          let errno = (if intr n then EINTR else EAGAIN) in
          if rc = 0 then
            (case msg of
               None \<Rightarrow> Some (Inl Uninit_Read)
             | Some m \<Rightarrow>
                 (case process m (snd s) of
                    Inl f \<Rightarrow> Some (Inl f)
                  | Inr t \<Rightarrow> worker_in rcv process intr (Suc n) (b, t)))
          else if errno = EINTR then worker_in rcv process intr (Suc n) (b, snd s)
          else Some (Inr (b, snd s)))"

fun process_all :: "('m \<Rightarrow> 's \<Rightarrow> 's res) \<Rightarrow> 'm list \<Rightarrow> 's \<Rightarrow> 's res" where
  "process_all process [] s = Inr s"
| "process_all process (m # ms) s = bindR (process m s) (process_all process ms)"

context mail begin

lemma worker_in_all:
  assumes fin: "\<forall>n \<ge> k. \<not> intr n"
  shows "rep b ms \<Longrightarrow> \<exists>r. worker_in rcv_msg process intr n (b, s) = Some r
    \<and> (case process_all process ms s of Inl f \<Rightarrow> r = Inl f | Inr t \<Rightarrow> \<exists>b'. r = Inr (b', t) \<and> rep b' [])"
proof (induction "length ms + (k - n)" arbitrary: b ms n s rule: less_induct)
  case less
  from recv_rep [OF less.prems, of "intr n"] show ?case
  proof (elim disjE exE conjE)
    fix m ms' b' assume ms: "ms = m # ms'" and r: "rcv_msg (intr n) b = Inr (kOK, Some m, b')" "rep b' ms'"
    show ?thesis
    proof (cases "process m s")
      case (Inl f)
      then show ?thesis using ms r(1) by (subst worker_in.simps) (simp add: kOK_def)
    next
      case (Inr t)
      have "worker_in rcv_msg process intr n (b, s) = worker_in rcv_msg process intr (Suc n) (b', t)"
        using r(1) Inr by (subst worker_in.simps) (simp add: kOK_def)
      moreover have "length ms' + (k - Suc n) < length ms + (k - n)" using ms by simp
      ultimately show ?thesis using less.hyps [OF _ r(2), of "Suc n" t] ms Inr by simp
    qed
  next
    fix b' assume i: "intr n" and r: "rcv_msg (intr n) b = Inr (kError, None, b')" "rep b' ms"
    have "n < k" using fin i not_le by blast
    then have "length ms + (k - Suc n) < length ms + (k - n)" by simp
    moreover have "worker_in rcv_msg process intr n (b, s) = worker_in rcv_msg process intr (Suc n) (b', s)"
      using r(1) i by (subst worker_in.simps) (simp add: kError_def)
    ultimately show ?thesis using less.hyps [OF _ r(2), of "Suc n" s] by simp
  next
    fix b' assume ms: "ms = []" and r: "rcv_msg (intr n) b = Inr (kError, None, b')" "rep b' ms"
    show ?thesis
    proof (cases "intr n")
      case True
      then have "n < k" using fin not_le by blast
      then have "length ms + (k - Suc n) < length ms + (k - n)" by simp
      moreover have "worker_in rcv_msg process intr n (b, s) = worker_in rcv_msg process intr (Suc n) (b', s)"
        using r(1) True by (subst worker_in.simps) (simp add: kError_def)
      ultimately show ?thesis using less.hyps [OF _ r(2), of "Suc n" s] by simp
    next
      case False
      then have "worker_in rcv_msg process intr n (b, s) = Some (Inr (b', s))"
        using r(1) by (subst worker_in.simps) (simp add: kError_def)
      then show ?thesis using ms r(2) by simp
    qed
  qed
qed

lemma send_all_rep:
  "rep b ms \<Longrightarrow> \<exists>b'. fold (\<lambda>m r. bindR r (snd_msg m)) xs (Inr b) = Inr b' \<and> rep b' (ms @ xs)"
proof (induction xs arbitrary: b ms)
  case (Cons x xs)
  obtain b1 where "snd_msg x b = Inr b1" "rep b1 (ms @ [x])" using send_rep [OF Cons.prems] by blast
  with Cons.IH [OF this(2)] show ?case by simp
qed simp

end

section \<open>Properties\<close>

text \<open>
  C18. When its mailbox becomes readable, a worker takes all messages out of it and processes each one
  once, in the order they were sent, and \<open>In\<close> returns with the mailbox empty and asleep, however the
  waits are interrupted as long as that ends and no thread sends meanwhile; if processing a message faults, that is the result.
\<close>

theorem worker_processes_all:
  assumes "mb_holds d mb ms" and "\<forall>n \<ge> k. \<not> intr n"
  shows "\<exists>r. worker_in (mb_recv kMailboxGranularity) (message_process A) intr 0 (mb, s) = Some r
    \<and> (case process_all (message_process A) ms s of Inl f \<Rightarrow> r = Inl f | Inr t \<Rightarrow> \<exists>mb'. r = Inr (mb', t) \<and> mb_holds d mb' [])"
  by (rule mbox.worker_in_all [OF assms(2,1)])

text \<open>Two sessions and a channel; the first two waits are interrupted.\<close>

definition note_api :: "(nat \<times> nat) list worker_api" where
  "note_api = \<lparr>wa_set_poller = (\<lambda>w a s. Inr (s @ [(w, a)])), wa_new_channel = (\<lambda>w e s. Inr (40, s)),
     wa_done = (\<lambda>d c s. Inr (s @ [(d, c)]))\<rparr>"

theorem worker_processes_all_witness:
  "\<exists>mb mb'. mb_holds 1 mb [AcceptMessage 7 0 2, RpcChannelMessage endpoint_default 30 0 2, AcceptMessage 8 0 2]
    \<and> worker_in (mb_recv kMailboxGranularity) (message_process note_api) (\<lambda>n. n < 2) 0 (mb, []) = Some (Inr (mb', [(2, 7), (30, 40), (2, 8)]))
    \<and> mb_holds 1 mb' []"
proof -
  let ?ms = "[AcceptMessage 7 0 2, RpcChannelMessage endpoint_default 30 0 2, AcceptMessage 8 0 2]"
  obtain mb0 :: "message mailbox" where "mb_holds 1 mb0 []" using mb_holds_new [of 1] by auto
  from mbox.send_all_rep [OF this, of 0 ?ms] obtain mb where mb: "mb_holds 1 mb ?ms" by auto
  have p: "process_all (message_process note_api) ?ms [] = Inr [(2, 7), (30, 40), (2, 8)]"
    by (simp add: message_process_def note_api_def)
  have "\<forall>n \<ge> 2. \<not> n < (2 :: nat)" by simp
  from worker_processes_all [OF mb this, of note_api "[]"] mb show ?thesis unfolding p by auto
qed

end
