(* ===== verification/Application.thy ===== *)
theory Application
  imports Worker
begin

text \<open>
  \<open>src/core/application.h\<close> and \<open>application.cc\<close>, \<open>listener.h\<close> and \<open>listener.cc\<close>, \<open>acceptor_handler.h\<close>: the
  listeners of a server, the services behind them, and how accepted sessions and new channels are
  spread over the workers.
\<close>

section \<open>State\<close>

text \<open>The handler of a listener: an RPC service or one of the application's own.\<close>

datatype acceptor = Rpc_Service addr | Other_Acceptor nat

record listener =
  l_endpoint :: endpoint
  l_fd :: int
  l_handle :: ptr
  l_handler :: acceptor

record 'k application =
  app_index :: int
  workers :: "worker list"
  app_poller :: epoll
  listeners :: "string \<Rightarrow> addr option"
  listener_heap :: "listener heap"
  services :: "method_map heap"
  app_env :: "'k env"

definition application_new :: "'k epoll_kernel \<Rightarrow> 'k env \<Rightarrow> 'k application" where
  "application_new P s =
     (let (_, E, s) = epoll_init P 1024 (epoll_new, s) in
      \<lparr>app_index = 0, workers = [], app_poller = E, listeners = Map.empty, listener_heap = heap_empty,
        services = heap_empty, app_env = s\<rparr>)"

section \<open>Listeners\<close>

text \<open>\<open>new Listener\<close>.\<close>

definition listener_new :: "'k kernel \<Rightarrow> 'k epoll_kernel \<Rightarrow> endpoint \<Rightarrow> acceptor \<Rightarrow> 'k application \<Rightarrow> (addr \<times> 'k application) res" where
  "listener_new K P ep h a =
     (let (fd, ret, s) = Listen K ep kBacklog (app_env a);
          l = \<lparr>l_endpoint = endpoint_assign endpoint_default ep, l_fd = fd, l_handle = Null, l_handler = h\<rparr>;
          (x, ls) = heap_alloc l (listener_heap a)
      in bindR (guardR (ret = kOK) Assert_Failed) (\<lambda>_.
         bindR (epoll_add P fd x (app_poller a, s)) (\<lambda>(hd, E, s).
         bindR (heap_put x (l\<lparr>l_handle := hd\<rparr>) ls) (\<lambda>ls.
         Inr (x, a\<lparr>listener_heap := ls, app_poller := E, app_env := s\<rparr>)))))"

definition AddService :: "'k kernel \<Rightarrow> 'k epoll_kernel \<Rightarrow> endpoint \<Rightarrow> acceptor \<Rightarrow> 'k application \<Rightarrow> 'k application res" where
  "AddService K P ep h a =
     (let address = ep_str ep in
      bindR (guardR (listeners a address = None) Assert_Failed) (\<lambda>_.
      bindR (listener_new K P ep h a) (\<lambda>(x, a).
      Inr (a\<lparr>listeners := (listeners a)(address \<mapsto> x)\<rparr>))))"

text \<open>The handler of a listener that exists is cast to an RPC service without a test.\<close>

definition AddRpcService :: "'k kernel \<Rightarrow> 'k epoll_kernel \<Rightarrow> endpoint \<Rightarrow> nat \<Rightarrow> byte list list \<Rightarrow> 'k application \<Rightarrow> 'k application res" where
  "AddRpcService K P ep svc names a =
     (let address = ep_str ep in
      bindR (case listeners a address of
               None \<Rightarrow>
                 let (v, vs) = heap_alloc Map.empty (services a) in
                 bindR (listener_new K P ep (Rpc_Service v) (a\<lparr>services := vs\<rparr>)) (\<lambda>(x, a).
                 Inr (x, a\<lparr>listeners := (listeners a)(address \<mapsto> x)\<rparr>))
             | Some x \<Rightarrow> Inr (x, a)) (\<lambda>(x, a).
      bindR (heap_get x (listener_heap a)) (\<lambda>l.
      case l_handler l of
        Other_Acceptor _ \<Rightarrow> Inl Wild_Access
      | Rpc_Service v \<Rightarrow>
          bindR (heap_get v (services a)) (\<lambda>m.
          bindR (rpc_register svc names m) (\<lambda>m.
          bindR (heap_put v m (services a)) (\<lambda>vs. Inr (a\<lparr>services := vs\<rparr>)))))))"

text \<open>\<open>Listener::In\<close>: the loop has no exit.\<close>

partial_function (option) listener_in :: "'k kernel \<Rightarrow> int \<Rightarrow> (int \<Rightarrow> 's \<times> 'k env \<Rightarrow> (addr \<times> 's \<times> 'k env) res)
    \<Rightarrow> (addr \<Rightarrow> 's \<times> 'k env \<Rightarrow> ('s \<times> 'k env) res) \<Rightarrow> (int \<Rightarrow> 's \<times> 'k env \<Rightarrow> ('s \<times> 'k env) res)
    \<Rightarrow> 's \<times> 'k env \<Rightarrow> ('s \<times> 'k env) res option" where
  "listener_in K fd on_accept accept_session on_err a =
     (case loopR (map_option Inr (Accept K fd (snd a))) of
        Inl f \<Rightarrow> Some (Inl f)
      | Inr (c, err, s) \<Rightarrow>
          (case (if err = kOK
                 then bindR (on_accept c (fst a, s)) (\<lambda>(session, a). accept_session session a)
                 else on_err err (fst a, s)) of
             Inl f \<Rightarrow> Some (Inl f)
           | Inr a \<Rightarrow> listener_in K fd on_accept accept_session on_err a))"

text \<open>\<open>Out\<close> and \<open>Timeout\<close> of a listener assert; \<open>~Listener\<close> closes the socket.\<close>

definition listener_out :: "'s \<Rightarrow> 's res" where
  "listener_out s = Inl Assert_Failed"

definition listener_timeout :: "'s \<Rightarrow> 's res" where
  "listener_timeout s = Inl Assert_Failed"

definition listener_destroy :: "'k kernel \<Rightarrow> listener \<Rightarrow> 'k env \<Rightarrow> 'k env" where
  "listener_destroy K l s = net_close K (l_fd l) s"

section \<open>Workers\<close>

text \<open>
  \<open>Init\<close>; \<open>tids\<close> gives what \<open>pthread_create\<close> does for each thread: its number, or no thread. In that case \<open>Start\<close> does
  not return (theory \<open>Threads\<close>), and so does \<open>Init\<close>.
\<close>

fun app_start :: "'k kernel \<Rightarrow> 'k epoll_kernel \<Rightarrow> (nat \<Rightarrow> nat option) \<Rightarrow> nat list \<Rightarrow> 'k application \<Rightarrow> 'k application res" where
  "app_start K P tids [] a = Inr a"
| "app_start K P tids (i # is) a =
     bindR (StringPrintf (c99 (''worker-'' @ show_nat i))) (\<lambda>name.
     bindR (worker_new K P name i (app_env a)) (\<lambda>(w, s).
     case tids i of
       None \<Rightarrow> Inl Diverges
     | Some t \<Rightarrow> app_start K P tids is (a\<lparr>workers := workers a @ [w\<lparr>w_tid := t\<rparr>], app_env := s\<rparr>)))"

definition app_init :: "'k kernel \<Rightarrow> 'k epoll_kernel \<Rightarrow> (nat \<Rightarrow> nat option) \<Rightarrow> int \<Rightarrow> 'k application \<Rightarrow> 'k application res" where
  "app_init K P tids worker_num a = app_start K P tids [0..<nat worker_num] a"

text \<open>\<open>Run\<close> never leaves its loop.\<close>

partial_function (option) application_run :: "('s \<Rightarrow> 's res) \<Rightarrow> 's \<Rightarrow> 's res option" where
  "application_run dispatch s = (case dispatch s of Inl f \<Rightarrow> Some (Inl f) | Inr s \<Rightarrow> application_run dispatch s)"

text \<open>\<open>~Application\<close>: the listeners stay.\<close>

fun destroy_workers :: "'k kernel \<Rightarrow> 'k epoll_kernel \<Rightarrow> worker list \<Rightarrow> 'k env \<Rightarrow> 'k env res" where
  "destroy_workers K P [] s = Inr s"
| "destroy_workers K P (w # ws) s = bindR (worker_destroy K P w s) (destroy_workers K P ws)"

definition application_destroy :: "'k kernel \<Rightarrow> 'k epoll_kernel \<Rightarrow> 'k application \<Rightarrow> 'k env res" where
  "application_destroy K P a =
     bindR (epoll_destroy P (app_poller a, app_env a)) (\<lambda>(_, s). destroy_workers K P (workers a) s)"

definition selectWorker :: "'k application \<Rightarrow> (nat \<times> 'k application) res" where
  "selectWorker a =
     bindR (guardR (workers a \<noteq> []) Div_By_Zero) (\<lambda>_.
     let i = (app_index a + 1) mod int (length (workers a)) in Inr (nat i, a\<lparr>app_index := i\<rparr>))"

definition send_to :: "nat \<Rightarrow> nat \<Rightarrow> nat \<Rightarrow> message \<Rightarrow> 'k application \<Rightarrow> 'k application res" where
  "send_to k d i msg a =
     bindR (worker_send k d msg (workers a ! i)) (\<lambda>w. Inr (a\<lparr>workers := (workers a)[i := w]\<rparr>))"

definition AcceptNewSession :: "nat \<Rightarrow> nat \<Rightarrow> addr \<Rightarrow> 'k application \<Rightarrow> 'k application res" where
  "AcceptNewSession k d session a =
     bindR (selectWorker a) (\<lambda>(i, a). send_to k d i (AcceptMessage session (w_tid (workers a ! i)) i) a)"

definition CreateRpcChannel :: "nat \<Rightarrow> nat \<Rightarrow> endpoint \<Rightarrow> nat \<Rightarrow> 'k application \<Rightarrow> 'k application res" where
  "CreateRpcChannel k d ep dn a =
     bindR (selectWorker a) (\<lambda>(i, a). send_to k d i (RpcChannelMessage ep dn (w_tid (workers a ! i)) i) a)"

fun accept_all :: "nat \<Rightarrow> nat \<Rightarrow> addr list \<Rightarrow> 'k application \<Rightarrow> 'k application res" where
  "accept_all k d [] a = Inr a"
| "accept_all k d (x # xs) a = bindR (AcceptNewSession k d x a) (accept_all k d xs)"

section \<open>Round robin\<close>

text \<open>What worker \<open>j\<close> of \<open>n\<close> gets when the one before the next is \<open>i\<close>.\<close>

fun share :: "nat \<Rightarrow> nat \<Rightarrow> nat \<Rightarrow> 'a list \<Rightarrow> 'a list" where
  "share n i j [] = []"
| "share n i j (x # xs) = (let i = (i + 1) mod n in (if i = j then [x] else []) @ share n i j xs)"

text \<open>How many elements come before the first of worker \<open>j\<close>.\<close>

definition lead :: "nat \<Rightarrow> nat \<Rightarrow> nat \<Rightarrow> nat" where
  "lead n i j = (if i < j then j - (i + 1) else j + n - (i + 1))"

lemma lead_hit: "i < n \<Longrightarrow> (i + 1) mod n = j \<Longrightarrow> lead n i j = 0"
  by (auto simp: lead_def mod_if split: if_splits)

lemma lead_self: "j < n \<Longrightarrow> lead n j j = n - 1"
  by (auto simp: lead_def)

lemma lead_miss: "i < n \<Longrightarrow> j < n \<Longrightarrow> (i + 1) mod n \<noteq> j \<Longrightarrow> lead n i j = Suc (lead n ((i + 1) mod n) j)"
  by (cases "i + 1 = n") (auto simp: lead_def)

lemma lead_less: "i < n \<Longrightarrow> j < n \<Longrightarrow> lead n i j < n"
  by (auto simp: lead_def)

lemma share_length:
  "i < n \<Longrightarrow> j < n \<Longrightarrow> length (share n i j xs) = (length xs + (n - 1) - lead n i j) div n"
proof (induction xs arbitrary: i)
  case Nil
  then show ?case using lead_less [of i n j] by simp
next
  case (Cons x xs)
  let ?i = "(i + 1) mod n"
  have i: "?i < n" using Cons.prems by simp
  note IH = Cons.IH [OF i Cons.prems(2)]
  show ?case
  proof (cases "?i = j")
    case True
    have "length (share n i j (x # xs)) = Suc (length xs div n)"
      using True IH lead_self [OF Cons.prems(2)] by (simp add: Let_def)
    also have "\<dots> = (length xs + n) div n" using div_add_self2 [of n "length xs"] Cons.prems by simp
    also have "length xs + n = length (x # xs) + (n - 1) - lead n i j"
      using lead_hit [OF Cons.prems(1) True] Cons.prems by simp
    finally show ?thesis .
  next
    case False
    then show ?thesis using IH lead_miss [OF Cons.prems False] by (simp add: Let_def)
  qed
qed

lemma share_fair:
  assumes "i < n" and "j < n"
  shows "length xs div n \<le> length (share n i j xs) \<and> length (share n i j xs) \<le> length xs div n + 1"
proof -
  have n: "0 < n" and l: "lead n i j \<le> n - 1" using assms lead_less [OF assms] by simp_all
  have "length xs div n \<le> (length xs + (n - 1) - lead n i j) div n" by (rule div_le_mono) (use l in simp)
  moreover have "(length xs + (n - 1) - lead n i j) div n \<le> (length xs + n) div n" by (rule div_le_mono) simp
  moreover have "(length xs + n) div n = length xs div n + 1" using div_add_self2 [of n "length xs"] n by simp
  ultimately show ?thesis unfolding share_length [OF assms] by simp
qed

lemma share_nth: "i < n \<Longrightarrow> share n i j xs = map (nth xs) (filter (\<lambda>m. (i + 1 + m) mod n = j) [0..<length xs])"
proof (induction xs arbitrary: i)
  case (Cons x xs)
  have "[0..<length (x # xs)] = 0 # map Suc [0..<length xs]" by (simp add: upt_conv_Cons map_Suc_upt del: upt_Suc)
  moreover have "((i + 1) mod n + 1 + m) mod n = (i + 1 + Suc m) mod n" for m
    using mod_add_left_eq [of "i + 1" n "Suc m"] by simp
  moreover have "(i + 1) mod n < n" using Cons.prems by simp
  ultimately show ?case
    using Cons.IH [of "(i + 1) mod n"] by (simp add: Let_def filter_map o_def del: upt_Suc)
qed simp

section \<open>Sessions and workers\<close>

lemma selectWorker_next:
  assumes "app_index a = int i" and "workers a \<noteq> []"
  shows "selectWorker a = (let i' = (i + 1) mod length (workers a) in Inr (i', a\<lparr>app_index := int i'\<rparr>))"
proof -
  have "(int i + 1) mod int (length (workers a)) = int ((i + 1) mod length (workers a))" by (simp add: zmod_int add.commute)
  then show ?thesis using assms by (simp add: selectWorker_def Let_def)
qed

lemma send_to_worker:
  assumes "j < length (workers a)" and "mb_holds d (mailbox (workers a ! j)) ms"
  shows "\<exists>mb. send_to k d j msg a = Inr (a\<lparr>workers := (workers a)[j := (workers a ! j)\<lparr>mailbox := mb\<rparr>]\<rparr>)
    \<and> mb_holds d mb (ms @ [msg])"
  using mbox.send_rep [OF assms(2), of k msg] by (auto simp: send_to_def worker_send_def)

text \<open>What is in every mailbox after some sessions were accepted; \<open>q\<close> is what was there before.\<close>

lemma accept_all_spreads:
  "app_index a = int i \<Longrightarrow> i < length (workers a) \<Longrightarrow> \<forall>j < length (workers a). mb_holds d (mailbox (workers a ! j)) (q j)
   \<Longrightarrow> \<exists>a'. accept_all k d xs a = Inr a' \<and> length (workers a') = length (workers a)
     \<and> (\<forall>j < length (workers a). mb_holds d (mailbox (workers a' ! j))
           (q j @ map (\<lambda>x. AcceptMessage x (w_tid (workers a ! j)) j) (share (length (workers a)) i j xs)))"
proof (induction xs arbitrary: a i q)
  case Nil
  then show ?case by simp
next
  case (Cons x xs)
  let ?n = "length (workers a)" and ?i = "(i + 1) mod length (workers a)"
  have ne: "workers a \<noteq> []" using Cons.prems(2) by (cases "workers a") simp_all
  then have i: "?i < ?n" by simp
  let ?m = "AcceptMessage x (w_tid (workers a ! ?i)) ?i" and ?a = "a\<lparr>app_index := int ?i\<rparr>"
  obtain mb where mb: "send_to k d ?i ?m ?a = Inr (?a\<lparr>workers := (workers a)[?i := (workers a ! ?i)\<lparr>mailbox := mb\<rparr>]\<rparr>)"
      "mb_holds d mb (q ?i @ [?m])"
    using send_to_worker [of ?i ?a d "q ?i" k ?m] Cons.prems(3) i by auto
  let ?b = "?a\<lparr>workers := (workers a)[?i := (workers a ! ?i)\<lparr>mailbox := mb\<rparr>]\<rparr>"
  let ?q = "q(?i := q ?i @ [?m])"
  have acc: "AcceptNewSession k d x a = Inr ?b"
    using mb(1) selectWorker_next [OF Cons.prems(1) ne] by (simp add: AcceptNewSession_def Let_def)
  have nb: "length (workers ?b) = ?n" by simp
  have tid: "w_tid (workers ?b ! j) = w_tid (workers a ! j)" if "j < ?n" for j
    using that i by (cases "?i = j") simp_all
  have hb: "\<forall>j < length (workers ?b). mb_holds d (mailbox (workers ?b ! j)) (?q j)"
  proof (intro allI impI)
    fix j assume "j < length (workers ?b)"
    then show "mb_holds d (mailbox (workers ?b ! j)) (?q j)"
      using mb(2) Cons.prems(3) i by (cases "?i = j") auto
  qed
  have ib: "app_index ?b = int ?i" "?i < length (workers ?b)" using i by simp_all
  obtain a' where a': "accept_all k d xs ?b = Inr a'" "length (workers a') = ?n"
    "\<forall>j < ?n. mb_holds d (mailbox (workers a' ! j)) (?q j @ map (\<lambda>x. AcceptMessage x (w_tid (workers ?b ! j)) j) (share ?n ?i j xs))"
    using Cons.IH [OF ib hb] unfolding nb by blast
  have "mb_holds d (mailbox (workers a' ! j)) (q j @ map (\<lambda>x. AcceptMessage x (w_tid (workers a ! j)) j) (share ?n i j (x # xs)))"
    if j: "j < ?n" for j
    using a'(3) [rule_format, OF j] unfolding tid [OF j] by (cases "?i = j") (simp_all add: Let_def)
  then show ?case using acc a'(1,2) by auto
qed

lemma process_all_accept:
  "process_all (message_process A) (map (\<lambda>x. AcceptMessage x t j) xs) s = process_all (wa_set_poller A j) xs s"
proof (induction xs arbitrary: s)
  case (Cons x xs)
  then show ?case
    by (cases "wa_set_poller A j x s") (simp_all add: message_process_def)
qed simp

text \<open>A server without workers cannot accept.\<close>

lemma no_workers_no_sessions: "workers a = [] \<Longrightarrow> AcceptNewSession k d x a = Inl Div_By_Zero"
  by (simp add: AcceptNewSession_def selectWorker_def)

text \<open>\<open>AddRpcService\<close> on an address where an application's own handler listens.\<close>

lemma add_rpc_service_wrong_handler:
  "listeners a (ep_str ep) = Some x \<Longrightarrow> heap_get x (listener_heap a) = Inr l \<Longrightarrow> l_handler l = Other_Acceptor h
   \<Longrightarrow> AddRpcService K P ep svc names a = Inl Wild_Access"
  by (simp add: AddRpcService_def Let_def)

text \<open>A second service of any kind on one address is refused before anything is done.\<close>

lemma add_service_twice: "listeners a (ep_str ep) \<noteq> None \<Longrightarrow> AddService K P ep h a = Inl Assert_Failed"
  by (auto simp: AddService_def Let_def guardR_def)

lemma listener_in_no_exit: "listener_in K fd acc sess err a \<noteq> Some (Inr (b :: 's \<times> 'k env))"
proof
  assume run: "listener_in K fd acc sess err a = Some (Inr b)"
  have "\<forall>b'. (Inr b :: ('s \<times> 'k env) res) \<noteq> Inr b'"
    by (rule listener_in.raw_induct [where P = "\<lambda>_ _ _ _ _ _ r. \<forall>b. r \<noteq> Inr b", OF _ run])
      (auto split: sum.splits prod.splits if_splits)
  then show False by simp
qed

text \<open>With no connection waiting: the \<open>break\<close> that would leave the loop is a comment.\<close>

lemma listener_in_spins:
  fixes a :: "'s \<times> 'k env"
  assumes "\<forall>k. k_accept K fd k = (Inl EAGAIN, k)" and "\<forall>e a. \<exists>a'. err e a = Inr a'"
  shows "listener_in K fd acc sess err a = None"
proof -
  have acpt: "Accept K fd s = Some (kOK, EAGAIN, EAGAIN, snd s)" for s
    using assms(1) by (simp add: Accept.simps syscall_def)
  have no: "K' = K \<and> fd' = fd \<and> err' = err \<longrightarrow> False"
    if run: "listener_in K' fd' acc' sess' err' a' = Some y"
    for K' fd' acc' sess' err' and a' :: "'s \<times> 'k env" and y
  proof (rule listener_in.raw_induct [where P = "\<lambda>K' fd' _ _ err' _ _. K' = K \<and> fd' = fd \<and> err' = err \<longrightarrow> False", OF _ run], rule impI)
    fix f :: "'k kernel \<Rightarrow> int \<Rightarrow> (int \<Rightarrow> 's \<times> 'k env \<Rightarrow> (addr \<times> 's \<times> 'k env) res)
      \<Rightarrow> (addr \<Rightarrow> 's \<times> 'k env \<Rightarrow> ('s \<times> 'k env) res) \<Rightarrow> (int \<Rightarrow> 's \<times> 'k env \<Rightarrow> ('s \<times> 'k env) res)
      \<Rightarrow> 's \<times> 'k env \<Rightarrow> ('s \<times> 'k env) res option"
    fix K' fd' acc' sess' err' a' y
    assume IH: "\<And>K' fd' acc' sess' err' a' y. f K' fd' acc' sess' err' a' = Some y \<Longrightarrow> K' = K \<and> fd' = fd \<and> err' = err \<longrightarrow> False"
      and body: "(case loopR (map_option Inr (Accept K' fd' (snd a'))) of
        Inl f \<Rightarrow> Some (Inl f)
      | Inr (c, e, s) \<Rightarrow>
          (case (if e = kOK then bindR (acc' c (fst a', s)) (\<lambda>(session, a). sess' session a) else err' e (fst a', s)) of
             Inl f \<Rightarrow> Some (Inl f)
           | Inr a \<Rightarrow> f K' fd' acc' sess' err' a)) = Some y"
      and eq: "K' = K \<and> fd' = fd \<and> err' = err"
    obtain a'' where e: "err EAGAIN (fst a', EAGAIN, snd (snd a')) = Inr a''" using assms(2) by blast
    have "f K fd acc' sess' err a'' = Some y"
      using body eq e by (simp add: acpt kOK_def EAGAIN_def)
    from IH [OF this] show False by simp
  qed
  show ?thesis
  proof (rule ccontr)
    assume "listener_in K fd acc sess err a \<noteq> None"
    then obtain y where "listener_in K fd acc sess err a = Some y" by blast
    from no [OF this] show False by simp
  qed
qed

lemma epoll_add_ok: "\<exists>y. epoll_add P rfd me x = Inr y"
  by (auto simp: epoll_add_def heap_alloc_def heap_free_def Let_def split: prod.splits option.splits list.splits)

lemma worker_new_ready:
  assumes "0 < d" and "d < 2 ^ 64 - 1"
  shows "\<exists>w s'. worker_new K P name me s = Inr (w, s') \<and> mb_holds d (mailbox w) []"
proof -
  obtain mb :: "message mailbox" where mb: "mb_new kMailboxGranularity = Inr mb" "mb_holds d mb []"
    using mb_holds_new [OF assms] by blast
  obtain p1 p2 p3 s1 where p: "MakeFdPair K s = (p1, p2, p3, s1)" by (metis surj_pair)
  obtain rc E s2 where e: "epoll_init P 1024 (epoll_new, s1) = (rc, E, s2)" by (metis surj_pair)
  obtain h E' s3 where a: "epoll_add P p3 me (E, s2) = Inr (h, E', s3)" using epoll_add_ok [of P p3 me "(E, s2)"] by (metis surj_pair)
  from p e a mb show ?thesis by (simp add: worker_new_def Let_def)
qed

lemma app_start_ready:
  assumes d: "0 < d" "d < 2 ^ 64 - 1"
  shows "\<forall>i \<in> set is. i < 2 ^ 31 \<and> tids i \<noteq> None \<Longrightarrow> \<forall>w \<in> set (workers a). mb_holds d (mailbox w) []
    \<Longrightarrow> \<exists>a'. app_start K P tids is a = Inr a' \<and> app_index a' = app_index a
      \<and> length (workers a') = length (workers a) + length is \<and> (\<forall>w \<in> set (workers a'). mb_holds d (mailbox w) [])"
proof (induction "is" arbitrary: a)
  case Nil
  then show ?case by simp
next
  case (Cons i "is")
  obtain t where i: "i < 2 ^ 31" "tids i = Some t" using Cons.prems(1) by auto
  have "length (show_nat i) \<le> Suc 9" using i(1) by (intro show_nat_length) simp
  then have "int (length (''worker-'' @ show_nat i)) < kMaxAppendSize" by (simp add: kMaxAppendSize_def)
  note name = append_c99 [OF this, of "[]", folded StringPrintf_def]
  obtain w s where w: "worker_new K P ([] @ ''worker-'' @ show_nat i) i (app_env a) = Inr (w, s)" "mb_holds d (mailbox w) []"
    using worker_new_ready [OF d] by blast
  let ?a = "a\<lparr>workers := workers a @ [w\<lparr>w_tid := t\<rparr>], app_env := s\<rparr>"
  have "\<forall>w \<in> set (workers ?a). mb_holds d (mailbox w) []" using Cons.prems(2) w(2) by auto
  from Cons.IH [OF _ this] Cons.prems(1) obtain a' where a': "app_start K P tids is ?a = Inr a'" "app_index a' = app_index a"
    "length (workers a') = length (workers a) + Suc (length is)" "\<forall>w \<in> set (workers a'). mb_holds d (mailbox w) []"
    by auto
  have "app_start K P tids (i # is) a = Inr a'" using name w(1) a'(1) i(2) by (simp only: app_start.simps bindR_Inr prod.case option.case)
  with a' show ?case by auto
qed

lemma accepted_sessions_processed:
  assumes "app_index a = int i" and i: "i < length (workers a)"
    and "\<forall>j < length (workers a). mb_holds d (mailbox (workers a ! j)) []" and fin: "\<forall>t \<ge> u. \<not> intr t"
  shows "\<exists>a'. accept_all k d xs a = Inr a' \<and> (\<forall>j < length (workers a).
        \<exists>r. worker_in (mb_recv kMailboxGranularity) (message_process A) intr 0 (mailbox (workers a' ! j), s) = Some r
          \<and> (case process_all (wa_set_poller A j) (share (length (workers a)) i j xs) s of
               Inl f \<Rightarrow> r = Inl f | Inr t \<Rightarrow> \<exists>mb. r = Inr (mb, t) \<and> mb_holds d mb []))"
proof -
  let ?n = "length (workers a)"
  obtain a' where a': "accept_all k d xs a = Inr a'"
    "\<forall>j < ?n. mb_holds d (mailbox (workers a' ! j)) (map (\<lambda>x. AcceptMessage x (w_tid (workers a ! j)) j) (share ?n i j xs))"
    using accept_all_spreads [OF assms(1,2,3), of k xs] unfolding append_Nil by blast
  have "\<exists>r. worker_in (mb_recv kMailboxGranularity) (message_process A) intr 0 (mailbox (workers a' ! j), s) = Some r
      \<and> (case process_all (wa_set_poller A j) (share ?n i j xs) s of
           Inl f \<Rightarrow> r = Inl f | Inr t \<Rightarrow> \<exists>mb. r = Inr (mb, t) \<and> mb_holds d mb [])" if j: "j < ?n" for j
    using mbox.worker_in_all [OF fin a'(2) [rule_format, OF j], of "message_process A" 0 s]
    unfolding process_all_accept by blast
  with a'(1) show ?thesis by blast
qed

section \<open>Properties\<close>

text \<open>
  C6. A server started with \<open>n\<close> workers, whose threads can all be created, hands the sessions it accepts to them in
  turn, as long as the word that \<open>Signaler::Send\<close> writes, which is not initialised, is neither 0 nor \<open>2^64 - 1\<close>: each worker has
  exactly the sessions of its turns, in the order they were accepted, the shares differ by at most one,
  and when its \<open>In\<close> runs it gives each of them its own poller and nothing to any other, whatever
  interrupts its waits at first.
\<close>

theorem sessions_reach_workers:
  assumes "0 < n" and "0 < d" and "d < 2 ^ 64 - 1" and "\<forall>t \<ge> u. \<not> intr t"
    and "n < 2 ^ 31" and "\<forall>i < n. tids i \<noteq> None"
  shows "\<exists>a a'. app_init K P tids (int n) (application_new P e) = Inr a \<and> accept_all k d xs a = Inr a'
    \<and> (\<forall>j < n. \<exists>ys r. ys = map (nth xs) (filter (\<lambda>m. (1 + m) mod n = j) [0..<length xs])
          \<and> length xs div n \<le> length ys \<and> length ys \<le> length xs div n + 1
          \<and> worker_in (mb_recv kMailboxGranularity) (message_process A) intr 0 (mailbox (workers a' ! j), s) = Some r
          \<and> (case process_all (wa_set_poller A j) ys s of Inl f \<Rightarrow> r = Inl f | Inr t \<Rightarrow> \<exists>mb. r = Inr (mb, t) \<and> mb_holds d mb []))"
proof -
  have new: "workers (application_new P e) = []" "app_index (application_new P e) = 0"
    by (simp_all add: application_new_def split: prod.splits)
  obtain a where a: "app_init K P tids (int n) (application_new P e) = Inr a" "app_index a = int 0" "length (workers a) = n"
    "\<forall>w \<in> set (workers a). mb_holds d (mailbox w) []"
    using app_start_ready [OF assms(2,3), of "[0..<n]" tids "application_new P e" K P] new assms(5,6)
    by (auto simp: app_init_def)
  have i: "0 < length (workers a)" and h: "\<forall>j < length (workers a). mb_holds d (mailbox (workers a ! j)) []"
    using a(3,4) assms(1) by simp_all
  obtain a' where a': "accept_all k d xs a = Inr a'" "\<forall>j < n.
        \<exists>r. worker_in (mb_recv kMailboxGranularity) (message_process A) intr 0 (mailbox (workers a' ! j), s) = Some r
          \<and> (case process_all (wa_set_poller A j) (share n 0 j xs) s of
               Inl f \<Rightarrow> r = Inl f | Inr t \<Rightarrow> \<exists>mb. r = Inr (mb, t) \<and> mb_holds d mb [])"
    using accepted_sessions_processed [OF a(2) i h assms(4), of k xs A s] unfolding a(3) by blast
  have "share n 0 j xs = map (nth xs) (filter (\<lambda>m. (1 + m) mod n = j) [0..<length xs])" for j
    using share_nth [OF assms(1), of j xs] by simp
  note ys = this
  show ?thesis
  proof (rule exI [of _ a], rule exI [of _ a'], intro conjI allI impI, rule a(1), rule a'(1))
    fix j assume j: "j < n"
    from a'(2) [rule_format, OF j] share_fair [OF assms(1) j, of xs] ys [of j]
    show "\<exists>ys r. ys = map (nth xs) (filter (\<lambda>m. (1 + m) mod n = j) [0..<length xs])
        \<and> length xs div n \<le> length ys \<and> length ys \<le> length xs div n + 1
        \<and> worker_in (mb_recv kMailboxGranularity) (message_process A) intr 0 (mailbox (workers a' ! j), s) = Some r
        \<and> (case process_all (wa_set_poller A j) ys s of Inl f \<Rightarrow> r = Inl f | Inr t \<Rightarrow> \<exists>mb. r = Inr (mb, t) \<and> mb_holds d mb [])"
      by (elim exE conjE) (intro exI conjI, assumption+)
  qed
qed

text \<open>Five sessions, two workers.\<close>

theorem sessions_reach_workers_witness:
  "\<exists>a a' m0 m1. app_init (loop_kernel False) quiet_epoll (\<lambda>i. Some (100 + i)) (int 2) (application_new quiet_epoll (0, ([], []))) = Inr a
    \<and> accept_all 0 1 [10, 11, 12, 13, 14] a = Inr a'
    \<and> worker_in (mb_recv kMailboxGranularity) (message_process note_api) (\<lambda>n. n < 2) 0 (mailbox (workers a' ! 0), [])
        = Some (Inr (m0, [(0, 11), (0, 13)]))
    \<and> worker_in (mb_recv kMailboxGranularity) (message_process note_api) (\<lambda>n. n < 2) 0 (mailbox (workers a' ! 1), [])
        = Some (Inr (m1, [(1, 10), (1, 12), (1, 14)]))"
proof -
  let ?xs = "[10, 11, 12, 13, 14] :: addr list"
  have f: "\<forall>t \<ge> 2. \<not> t < (2 :: nat)" by simp
  have p: "map (nth ?xs) (filter (\<lambda>m. (1 + m) mod 2 = 0) [0..<length ?xs]) = [11, 13]"
    "map (nth ?xs) (filter (\<lambda>m. (1 + m) mod 2 = 1) [0..<length ?xs]) = [10, 12, 14]"
    by (simp_all add: upt_rec)
  have q: "process_all (wa_set_poller note_api 0) [11, 13] [] = Inr [(0, 11), (0, 13)]"
    "process_all (wa_set_poller note_api 1) [10, 12, 14] [] = Inr [(1, 10), (1, 12), (1, 14)]"
    by (simp_all add: note_api_def)
  obtain a a' where a: "app_init (loop_kernel False) quiet_epoll (\<lambda>i. Some (100 + i)) (int 2) (application_new quiet_epoll (0, ([], []))) = Inr a"
    "accept_all 0 1 ?xs a = Inr a'"
    and w: "\<forall>j < 2. \<exists>ys r. ys = map (nth ?xs) (filter (\<lambda>m. (1 + m) mod 2 = j) [0..<length ?xs])
          \<and> length ?xs div 2 \<le> length ys \<and> length ys \<le> length ?xs div 2 + 1
          \<and> worker_in (mb_recv kMailboxGranularity) (message_process note_api) (\<lambda>n. n < 2) 0 (mailbox (workers a' ! j), []) = Some r
          \<and> (case process_all (wa_set_poller note_api j) ys [] of Inl f \<Rightarrow> r = Inl f | Inr t \<Rightarrow> \<exists>mb. r = Inr (mb, t) \<and> mb_holds 1 mb [])"
    using sessions_reach_workers [where n = 2 and d = 1 and u = 2 and intr = "\<lambda>n. n < 2" and tids = "\<lambda>i. Some (100 + i)"
        and K = "loop_kernel False" and P = quiet_epoll and e = "(0, ([], []))" and k = 0 and xs = ?xs and A = note_api and s = "[]", OF _ _ _ f]
    by auto
  have w': "\<exists>m. worker_in (mb_recv kMailboxGranularity) (message_process note_api) (\<lambda>n. n < 2) 0 (mailbox (workers a' ! j), [])
      = Some (Inr (m, t))"
    if j: "j < 2" and ys: "map (nth ?xs) (filter (\<lambda>m. (1 + m) mod 2 = j) [0..<length ?xs]) = ys"
      and pr: "process_all (wa_set_poller note_api j) ys [] = Inr t" for j ys t
    using w [rule_format, OF j] unfolding ys by (elim exE conjE) (auto simp: pr)
  show ?thesis using a w' [OF _ p(1) q(1)] w' [OF _ p(2) q(2)] by simp
qed

text \<open>
  C36. \<open>In\<close> of a listener never returns: no kernel and no handler makes its loop end, and when no
  connection is waiting it asks again for ever, so that the event loop of the server gets no further.
\<close>

theorem listener_never_returns:
  fixes a :: "'s \<times> 'k env"
  shows "listener_in K fd acc sess err a \<noteq> Some (Inr b)
    \<and> ((\<forall>k. k_accept K fd k = (Inl EAGAIN, k)) \<and> (\<forall>e a. \<exists>a'. err e a = Inr a') \<longrightarrow> listener_in K fd acc sess err a = None)"
  using listener_in_no_exit [of K fd acc sess err a b] listener_in_spins [of K fd err acc sess a] by blast

theorem listener_never_returns_witness:
  "listener_in (loop_kernel False) 3 (\<lambda>c s. Inr (0, s)) (\<lambda>x s. Inr s) (\<lambda>e s. Inr s) ((), (0, ([], []))) = None"
  by (rule listener_never_returns [THEN conjunct2, rule_format]) (simp add: loop_kernel_def)

end
