(* ===== verification/Services.thy ===== *)
theory Services
  imports Application
begin

text \<open>
  What \<open>AddService\<close> and \<open>AddRpcService\<close> of \<open>src/core/application.cc\<close> make of the listeners of a server: a
  table from addresses to handlers and to the methods served there. \<open>app_wf\<close> says that the table is
  well-formed: listeners and services exist, and no two addresses share a service.
\<close>

section \<open>Services by address\<close>

text \<open>The handler that listens at an address, and the methods an RPC service answers there.\<close>

definition handlers :: "'k application \<Rightarrow> string \<Rightarrow> acceptor option" where
  "handlers a s = (case listeners a s of None \<Rightarrow> None | Some x \<Rightarrow> map_option l_handler (cells (listener_heap a) x))"

definition served :: "'k application \<Rightarrow> string \<Rightarrow> method_map option" where
  "served a s = (case handlers a s of Some (Rpc_Service v) \<Rightarrow> cells (services a) v | _ \<Rightarrow> None)"

definition app_wf :: "'k application \<Rightarrow> bool" where
  "app_wf a \<longleftrightarrow> heap_wf (listener_heap a) \<and> heap_wf (services a) \<and> (\<forall>s x. listeners a s = Some x \<longrightarrow> x \<in> dom (cells (listener_heap a)))
     \<and> (\<forall>s v. handlers a s = Some (Rpc_Service v) \<longrightarrow> v \<in> dom (cells (services a)))
     \<and> (\<forall>s t v. handlers a s = Some (Rpc_Service v) \<longrightarrow> handlers a t = Some (Rpc_Service v) \<longrightarrow> s = t)"

definition method_table :: "nat \<Rightarrow> byte list list \<Rightarrow> method_map" where
  "method_table svc names = map_of (map (\<lambda>n. (HashString n, \<lparr>meta_service = svc, meta_name = n\<rparr>)) names)"

lemma handlers_services [simp]: "handlers (a\<lparr>services := vs\<rparr>) = handlers a"
  by (rule ext) (simp add: handlers_def split: option.splits)

lemma app_wf_new: "app_wf (application_new P e)"
  by (simp add: app_wf_def handlers_def application_new_def split: prod.splits)

lemma listener_new_effect:
  assumes wf: "heap_wf (listener_heap a)" and run: "listener_new K P ep h a = Inr (x, a')"
  shows "\<exists>l. cells (listener_heap a) x = None \<and> cells (listener_heap a') = (cells (listener_heap a))(x \<mapsto> l) \<and> l_handler l = h
    \<and> heap_wf (listener_heap a') \<and> listeners a' = listeners a \<and> services a' = services a"
proof -
  obtain fd ret s where L: "Listen K ep kBacklog (app_env a) = (fd, ret, s)" by (metis surj_pair)
  let ?l = "\<lparr>l_endpoint = endpoint_assign endpoint_default ep, l_fd = fd, l_handle = Null, l_handler = h\<rparr>"
  obtain y ls where y: "heap_alloc ?l (listener_heap a) = (y, ls)" by fastforce
  note c = heap_alloc_fresh [OF wf y] heap_alloc_cells [OF y] heap_wf_alloc [OF wf y]
  obtain hd E s' where "epoll_add P fd y (app_poller a, s) = Inr (hd, E, s')"
    using epoll_add_ok [of P fd y "(app_poller a, s)"] by (metis surj_pair)
  then have "ret = kOK \<and> x = y \<and> a' = a\<lparr>listener_heap := ls\<lparr>cells := (cells ls)(y \<mapsto> ?l\<lparr>l_handle := hd\<rparr>)\<rparr>, app_poller := E, app_env := s'\<rparr>"
    using run L y c(2) by (auto simp: listener_new_def guardR_def Let_def split: if_splits)
  then show ?thesis using c heap_put_wf [OF c(3), of y ?l "?l\<lparr>l_handle := hd\<rparr>"] by auto
qed

lemma listener_new_fault: "listener_new K P ep h a = Inl f \<Longrightarrow> f = Assert_Failed"
proof -
  assume run: "listener_new K P ep h a = Inl f"
  obtain fd ret s where L: "Listen K ep kBacklog (app_env a) = (fd, ret, s)" by (metis surj_pair)
  let ?l = "\<lparr>l_endpoint = endpoint_assign endpoint_default ep, l_fd = fd, l_handle = Null, l_handler = h\<rparr>"
  obtain y ls where y: "heap_alloc ?l (listener_heap a) = (y, ls)" by fastforce
  obtain hd E s' where "epoll_add P fd y (app_poller a, s) = Inr (hd, E, s')"
    using epoll_add_ok [of P fd y "(app_poller a, s)"] by (metis surj_pair)
  then show ?thesis using run L y heap_alloc_cells [OF y] by (auto simp: listener_new_def guardR_def Let_def split: if_splits)
qed

lemma add_listener:
  assumes wf: "app_wf a" and free: "listeners a s = None" and run: "listener_new K P ep h a = Inr (x, a')"
    and h: "\<forall>v. h = Rpc_Service v \<longrightarrow> v \<in> dom (cells (services a)) \<and> (\<forall>t. handlers a t \<noteq> Some h)"
  shows "app_wf (a'\<lparr>listeners := (listeners a')(s \<mapsto> x)\<rparr>)
    \<and> handlers (a'\<lparr>listeners := (listeners a')(s \<mapsto> x)\<rparr>) = (handlers a)(s \<mapsto> h) \<and> services a' = services a"
proof -
  let ?b = "a'\<lparr>listeners := (listeners a')(s \<mapsto> x)\<rparr>"
  have hw: "heap_wf (listener_heap a)" "heap_wf (services a)" and dm: "\<forall>t y. listeners a t = Some y \<longrightarrow> y \<in> dom (cells (listener_heap a))"
    and ty: "\<forall>t v. handlers a t = Some (Rpc_Service v) \<longrightarrow> v \<in> dom (cells (services a))"
    and inj: "\<forall>t u v. handlers a t = Some (Rpc_Service v) \<longrightarrow> handlers a u = Some (Rpc_Service v) \<longrightarrow> t = u"
    using wf unfolding app_wf_def by blast+
  obtain l where l: "cells (listener_heap a) x = None" "cells (listener_heap a') = (cells (listener_heap a))(x \<mapsto> l)" "l_handler l = h"
    "heap_wf (listener_heap a')" "listeners a' = listeners a" "services a' = services a"
    using listener_new_effect [OF hw(1) run] by blast
  have hb: "handlers ?b = (handlers a)(s \<mapsto> h)"
  proof (rule ext)
    fix t
    show "handlers ?b t = ((handlers a)(s \<mapsto> h)) t"
    proof (cases "t = s")
      case True
      then show ?thesis using l by (simp add: handlers_def)
    next
      case False
      then have "listeners a t = Some y \<Longrightarrow> y \<noteq> x" for y using dm l(1) by (metis domIff)
      then show ?thesis using False l by (auto simp: handlers_def split: option.splits)
    qed
  qed
  moreover have "app_wf ?b"
    unfolding app_wf_def hb
  proof (intro conjI)
    show "\<forall>t y. listeners ?b t = Some y \<longrightarrow> y \<in> dom (cells (listener_heap ?b))" using dm l(2,5) by auto
    show "\<forall>t v. ((handlers a)(s \<mapsto> h)) t = Some (Rpc_Service v) \<longrightarrow> v \<in> dom (cells (services ?b))"
      using ty h l(6) by auto
    show "\<forall>t u v. ((handlers a)(s \<mapsto> h)) t = Some (Rpc_Service v) \<longrightarrow> ((handlers a)(s \<mapsto> h)) u = Some (Rpc_Service v) \<longrightarrow> t = u"
      using inj h by auto
  qed (use l hw(2) in simp_all)
  ultimately show ?thesis using l(6) by blast
qed

text \<open>\<open>Register\<close> on the service of a listener that is there.\<close>

lemma register_effect:
  assumes wf: "app_wf a" and h: "handlers a s = Some (Rpc_Service v)" and m: "cells (services a) v = Some m"
    and b: "b = a\<lparr>services := (services a)\<lparr>cells := (cells (services a))(v \<mapsto> m')\<rparr>\<rparr>"
  shows "app_wf b \<and> handlers b = handlers a \<and> served b = (served a)(s \<mapsto> m')"
proof -
  have hb: "handlers b = handlers a" by (simp add: b)
  have ty: "\<forall>t v. handlers a t = Some (Rpc_Service v) \<longrightarrow> v \<in> dom (cells (services a))"
    and inj: "\<forall>t u v. handlers a t = Some (Rpc_Service v) \<longrightarrow> handlers a u = Some (Rpc_Service v) \<longrightarrow> t = u"
    and rest: "heap_wf (listener_heap a)" "heap_wf (services a)" "\<forall>t x. listeners a t = Some x \<longrightarrow> x \<in> dom (cells (listener_heap a))"
    using wf unfolding app_wf_def by blast+
  have "app_wf b"
    unfolding app_wf_def hb
  proof (intro conjI)
    show "heap_wf (services b)" using heap_put_wf [OF rest(2) m, of m'] by (simp add: b)
    show "\<forall>t v. handlers a t = Some (Rpc_Service v) \<longrightarrow> v \<in> dom (cells (services b))" using ty by (auto simp: b)
    show "\<forall>t u v. handlers a t = Some (Rpc_Service v) \<longrightarrow> handlers a u = Some (Rpc_Service v) \<longrightarrow> t = u" by (rule inj)
  qed (use rest in \<open>simp_all add: b\<close>)
  moreover have "served b t = ((served a)(s \<mapsto> m')) t" for t
  proof (cases "t = s")
    case True
    then show ?thesis using h by (simp add: served_def hb b)
  next
    case False
    then have "handlers a t \<noteq> Some (Rpc_Service v)" using inj h by blast
    then show ?thesis using False by (auto simp: served_def hb b split: option.splits acceptor.splits)
  qed
  ultimately show ?thesis using hb by (simp add: fun_eq_iff)
qed

text \<open>The first part of \<open>AddRpcService\<close>: make sure that a listener is there.\<close>

lemma new_rpc_listener:
  assumes wf: "app_wf a" and free: "listeners a s = None" and v: "heap_alloc Map.empty (services a) = (v, vs)"
    and run: "listener_new K P ep (Rpc_Service v) (a\<lparr>services := vs\<rparr>) = Inr (x, a')"
    and b: "b = a'\<lparr>listeners := (listeners a')(s \<mapsto> x)\<rparr>"
  shows "app_wf b \<and> handlers b = (handlers a)(s \<mapsto> Rpc_Service v) \<and> cells (services b) = (cells (services a))(v \<mapsto> Map.empty)
    \<and> served b = (served a)(s \<mapsto> Map.empty)"
proof -
  let ?a = "a\<lparr>services := vs\<rparr>"
  have ty: "\<forall>t v. handlers a t = Some (Rpc_Service v) \<longrightarrow> v \<in> dom (cells (services a))" and hw: "heap_wf (services a)"
    using wf unfolding app_wf_def by blast+
  note c = heap_alloc_fresh [OF hw v] heap_alloc_cells [OF v] heap_wf_alloc [OF hw v]
  have ha: "handlers ?a = handlers a" by simp
  have wa: "app_wf ?a" using wf c unfolding app_wf_def ha by auto
  have no: "\<forall>t. handlers ?a t \<noteq> Some (Rpc_Service v)" unfolding ha using ty c(1) by blast
  have r: "app_wf b \<and> handlers b = (handlers a)(s \<mapsto> Rpc_Service v) \<and> services a' = vs"
    using add_listener [OF wa _ run, of s] free no c(2) unfolding ha b by auto
  then have sb: "cells (services b) = (cells (services a))(v \<mapsto> Map.empty)" using c(2) by (simp add: b)
  have "served b t = ((served a)(s \<mapsto> Map.empty)) t" for t
  proof (cases "t = s")
    case True
    then show ?thesis using r sb by (simp add: served_def)
  next
    case False
    have "handlers a t \<noteq> Some (Rpc_Service v)" using no unfolding ha by blast
    then show ?thesis using False r sb by (auto simp: served_def split: option.splits acceptor.splits)
  qed
  with r sb show ?thesis by (simp add: fun_eq_iff)
qed

lemma AddRpcService_effect:
  assumes wf: "app_wf a"
  shows "case AddRpcService K P ep svc names a of
      Inl f \<Rightarrow> f = Assert_Failed \<or> f = Wild_Access \<and> (\<exists>h. handlers a (ep_str ep) = Some (Other_Acceptor h))
    | Inr b \<Rightarrow> app_wf b \<and> (\<exists>v. handlers b (ep_str ep) = Some (Rpc_Service v)) \<and> (\<forall>s. s \<noteq> ep_str ep \<longrightarrow> handlers b s = handlers a s)
        \<and> served b = (served a)(ep_str ep \<mapsto> (case served a (ep_str ep) of None \<Rightarrow> Map.empty | Some m \<Rightarrow> m) ++ method_table svc names)"
proof -
  let ?s = "ep_str ep"
  have reg: "(case rpc_register svc names m of Inl f \<Rightarrow> f = Assert_Failed | Inr m' \<Rightarrow> m' = m ++ method_table svc names)" for m
    unfolding register_all_or_assert method_table_def by simp
  have dm: "\<forall>t x. listeners a t = Some x \<longrightarrow> x \<in> dom (cells (listener_heap a))"
    and ty: "\<forall>t v. handlers a t = Some (Rpc_Service v) \<longrightarrow> v \<in> dom (cells (services a))"
    using wf unfolding app_wf_def by blast+
  show ?thesis
  proof (cases "listeners a ?s")
    case None
    then have na: "handlers a ?s = None" "served a ?s = None" by (simp_all add: handlers_def served_def)
    obtain v vs where v: "heap_alloc Map.empty (services a) = (v, vs)" by fastforce
    show ?thesis
    proof (cases "listener_new K P ep (Rpc_Service v) (a\<lparr>services := vs\<rparr>)")
      case (Inl f)
      then show ?thesis using None v listener_new_fault [OF Inl] by (simp add: AddRpcService_def Let_def)
    next
      case (Inr r)
      obtain x a' where r: "r = (x, a')" by (cases r)
      let ?b = "a'\<lparr>listeners := (listeners a')(?s \<mapsto> x)\<rparr>"
      have b: "app_wf ?b" "handlers ?b = (handlers a)(?s \<mapsto> Rpc_Service v)" "cells (services ?b) = (cells (services a))(v \<mapsto> Map.empty)"
        "served ?b = (served a)(?s \<mapsto> Map.empty)"
        using new_rpc_listener [OF wf None v Inr [unfolded r] refl] by blast+
      then have h: "handlers ?b ?s = Some (Rpc_Service v)" by simp
      then obtain l where l: "cells (listener_heap ?b) x = Some l" "l_handler l = Rpc_Service v" by (auto simp: handlers_def)
      have m: "cells (services ?b) v = Some Map.empty" using b(3) by simp
      show ?thesis
      proof (cases "rpc_register svc names Map.empty")
        case (Inl f)
        then show ?thesis using None v Inr r l m reg [of Map.empty] by (simp add: AddRpcService_def Let_def)
      next
        case reg': (Inr m')
        then have m': "m' = method_table svc names" using reg [of Map.empty] by simp
        let ?c = "?b\<lparr>services := (services ?b)\<lparr>cells := (cells (services ?b))(v \<mapsto> m')\<rparr>\<rparr>"
        have "AddRpcService K P ep svc names a = Inr ?c"
          using None v Inr r l m reg' by (simp add: AddRpcService_def Let_def)
        moreover have "app_wf ?c \<and> handlers ?c = handlers ?b \<and> served ?c = (served ?b)(?s \<mapsto> m')"
          by (rule register_effect [OF b(1) h m refl])
        ultimately show ?thesis using b(2,4) na m' by simp
      qed
    qed
  next
    case (Some x)
    then obtain l where l: "cells (listener_heap a) x = Some l" "handlers a ?s = Some (l_handler l)"
      using dm by (auto simp: handlers_def)
    show ?thesis
    proof (cases "l_handler l")
      case (Other_Acceptor h)
      then show ?thesis using Some l by (simp add: AddRpcService_def Let_def)
    next
      case (Rpc_Service v)
      then have h: "handlers a ?s = Some (Rpc_Service v)" using l(2) by simp
      then obtain m where m: "cells (services a) v = Some m" using ty by blast
      then have sm: "served a ?s = Some m" using h by (simp add: served_def)
      show ?thesis
      proof (cases "rpc_register svc names m")
        case (Inl f)
        then show ?thesis using Some l Rpc_Service m reg [of m] by (simp add: AddRpcService_def Let_def)
      next
        case reg': (Inr m')
        let ?c = "a\<lparr>services := (services a)\<lparr>cells := (cells (services a))(v \<mapsto> m')\<rparr>\<rparr>"
        have "AddRpcService K P ep svc names a = Inr ?c"
          using Some l Rpc_Service m reg' by (simp add: AddRpcService_def Let_def)
        then show ?thesis using register_effect [OF wf h m refl, of m'] h sm reg [of m] reg' by simp
      qed
    qed
  qed
qed

lemma AddService_effect:
  assumes wf: "app_wf a"
  shows "case AddService K P ep (Other_Acceptor h) a of
      Inl f \<Rightarrow> f = Assert_Failed
    | Inr b \<Rightarrow> app_wf b \<and> handlers a (ep_str ep) = None \<and> handlers b = (handlers a)(ep_str ep \<mapsto> Other_Acceptor h) \<and> served b = served a"
proof (cases "listeners a (ep_str ep)")
  case (Some x)
  then show ?thesis by (simp add: AddService_def Let_def guardR_def)
next
  case None
  then have na: "handlers a (ep_str ep) = None" by (simp add: handlers_def)
  show ?thesis
  proof (cases "listener_new K P ep (Other_Acceptor h) a")
    case (Inl f)
    then show ?thesis using None listener_new_fault [OF Inl] by (simp add: AddService_def Let_def guardR_def)
  next
    case (Inr r)
    obtain x a' where r: "r = (x, a')" by (cases r)
    let ?b = "a'\<lparr>listeners := (listeners a')(ep_str ep \<mapsto> x)\<rparr>"
    have b: "app_wf ?b" "handlers ?b = (handlers a)(ep_str ep \<mapsto> Other_Acceptor h)" "services a' = services a"
      using add_listener [OF wf None Inr [unfolded r]] by auto
    have "served ?b t = served a t" for t
      using b(2,3) na by (cases "t = ep_str ep") (auto simp: served_def split: option.splits acceptor.splits)
    then show ?thesis using None Inr r b na by (simp add: AddService_def Let_def guardR_def fun_eq_iff)
  qed
qed

section \<open>Properties\<close>

text \<open>
  C40. The handlers of a server stay of the kind they were added as. \<open>AddRpcService\<close> leaves an RPC service
  at its address that answers the methods it answered before and the new ones, and changes no other
  address; \<open>AddService\<close> puts its handler at a free address and changes nothing else; both keep the
  table well-formed. They fail only by asserting (an address in use, a socket, a hash taken), except
  that \<open>AddRpcService\<close> casts a handler of another class exactly where one was added before.
\<close>

theorem services_typed:
  assumes "app_wf a"
  shows "(case AddRpcService K P ep svc names a of
      Inl f \<Rightarrow> f = Assert_Failed \<or> f = Wild_Access \<and> (\<exists>h. handlers a (ep_str ep) = Some (Other_Acceptor h))
    | Inr b \<Rightarrow> app_wf b \<and> (\<exists>v. handlers b (ep_str ep) = Some (Rpc_Service v)) \<and> (\<forall>s. s \<noteq> ep_str ep \<longrightarrow> handlers b s = handlers a s)
        \<and> served b = (served a)(ep_str ep \<mapsto> (case served a (ep_str ep) of None \<Rightarrow> Map.empty | Some m \<Rightarrow> m) ++ method_table svc names))
    \<and> (case AddService K P ep (Other_Acceptor h) a of
      Inl f \<Rightarrow> f = Assert_Failed
    | Inr b \<Rightarrow> app_wf b \<and> handlers a (ep_str ep) = None \<and> handlers b = (handlers a)(ep_str ep \<mapsto> Other_Acceptor h) \<and> served b = served a)
    \<and> ((\<exists>h. handlers a (ep_str ep) = Some (Other_Acceptor h)) \<longrightarrow> AddRpcService K P ep svc names a = Inl Wild_Access)"
proof (intro conjI impI, rule AddRpcService_effect [OF assms], rule AddService_effect [OF assms])
  assume "\<exists>h. handlers a (ep_str ep) = Some (Other_Acceptor h)"
  then show "AddRpcService K P ep svc names a = Inl Wild_Access"
    by (auto simp: handlers_def add_rpc_service_wrong_handler split: option.splits)
qed

text \<open>A service with one method on a new server; then a handler of the application's own at the same address.\<close>

definition demo_app :: "(byte list \<times> byte list) application" where
  "demo_app = application_new quiet_epoll (0, ([], []))"

lemma demo_listen: "Listen (loop_kernel False) ep n s = (3, kOK, s)"
  by (simp add: Listen_def createListenSocket_def setNonBlocking_def syscall_def loop_kernel_def Let_def kOK_def
      split: prod.splits)

lemma demo_rpc: "\<exists>b. AddRpcService (loop_kernel False) quiet_epoll endpoint_default 7 [[1]] demo_app = Inr b"
  by (simp add: AddRpcService_def listener_new_def demo_listen demo_app_def application_new_def epoll_init_def epoll_add_def
      quiet_epoll_def syscall_def heap_alloc_def heap_empty_def guardR_def Let_def epoll_new_def)

theorem services_typed_witness:
  "\<exists>b. AddRpcService (loop_kernel False) quiet_epoll endpoint_default 7 [[1]] demo_app = Inr b
    \<and> served b = [[] \<mapsto> [HashString [1] \<mapsto> \<lparr>meta_service = 7, meta_name = [1]\<rparr>]]
    \<and> AddService (loop_kernel False) quiet_epoll endpoint_default (Other_Acceptor 4) b = Inl Assert_Failed"
proof -
  have wf: "app_wf demo_app" unfolding demo_app_def by (rule app_wf_new)
  have empty: "handlers demo_app = Map.empty" "served demo_app = Map.empty"
    by (simp_all add: handlers_def served_def demo_app_def application_new_def fun_eq_iff split: prod.splits)
  obtain b where b: "AddRpcService (loop_kernel False) quiet_epoll endpoint_default 7 [[1]] demo_app = Inr b"
    using demo_rpc by blast
  from services_typed [OF wf, where K = "loop_kernel False" and P = quiet_epoll and ep = endpoint_default and svc = 7
      and names = "[[1]]" and h = 4]
  have r: "app_wf b" "\<exists>v. handlers b (ep_str endpoint_default) = Some (Rpc_Service v)" "served b = [[] \<mapsto> method_table 7 [[1]]]"
    unfolding b empty by (auto simp: endpoint_default_def)
  from services_typed [OF r(1), where K = "loop_kernel False" and P = quiet_epoll and ep = endpoint_default and svc = 7
      and names = "[[1]]" and h = 4] r(2)
  have "AddService (loop_kernel False) quiet_epoll endpoint_default (Other_Acceptor 4) b = Inl Assert_Failed"
    by (cases "AddService (loop_kernel False) quiet_epoll endpoint_default (Other_Acceptor 4) b") auto
  then show ?thesis using b r(3) by (auto simp: method_table_def)
qed

end
