(* ===== verification/Log.thy ===== *)
theory Log
  imports Clock
begin

text \<open>
  \<open>src/base/log.h\<close> and \<open>log.cc\<close>: levels, the fixed buffer a log message is streamed into, and the
  life of a \<open>LogMessage\<close> up to the moment its data goes to the log thread.
\<close>

section \<open>Levels\<close>

datatype log_level = DEBUG | INFO | WARN | ERROR | FATAL

definition log_levels :: "log_level list" where
  "log_levels = [DEBUG, INFO, WARN, ERROR, FATAL]"

fun level_num :: "log_level \<Rightarrow> nat" where
  "level_num DEBUG = 0" | "level_num INFO = 1" | "level_num WARN = 2" | "level_num ERROR = 3" | "level_num FATAL = 4"

fun kLogLevelName :: "log_level \<Rightarrow> string" where
  "kLogLevelName DEBUG = ''[D ''" | "kLogLevelName INFO = ''[I ''" | "kLogLevelName WARN = ''[W ''"
| "kLogLevelName ERROR = ''[E ''" | "kLogLevelName FATAL = ''[F ''"

text \<open>The value of \<open>SERVERKIT_LOG_LEVEL\<close>, if it is set.\<close>

definition initLogLevel :: "string option \<Rightarrow> log_level" where
  "initLogLevel val =
     (case val of None \<Rightarrow> DEBUG
      | Some v \<Rightarrow> (case find (\<lambda>l. kLogLevelName l = v) log_levels of None \<Rightarrow> DEBUG | Some l \<Rightarrow> l))"

text \<open>The test of the macros \<open>Debug\<close> to \<open>Fatal\<close>.\<close>

definition log_enabled :: "log_level \<Rightarrow> log_level \<Rightarrow> bool" where
  "log_enabled g l \<longleftrightarrow> level_num g \<le> level_num l"

section \<open>The stream\<close>

definition kMaxLogMessageLen :: nat where
  "kMaxLogMessageLen = 30000"

text \<open>\<open>LogMessageData\<close>: the array \<open>text_\<close>, \<open>pptr\<close> and \<open>epptr\<close> as indices into it, and the \<open>badbit\<close>.\<close>

record log_data =
  log_text :: string
  pptr :: nat
  epptr :: nat
  badbit :: bool

text \<open>\<open>new LogMessageData\<close> in storage that holds \<open>text\<close>; \<open>setp (buf, buf + len - 2)\<close>.\<close>

definition log_data_new :: "string \<Rightarrow> log_data" where
  "log_data_new text = \<lparr>log_text = text, pptr = 0, epptr = kMaxLogMessageLen - 2, badbit = False\<rparr>"

definition pcount :: "log_data \<Rightarrow> nat" where
  "pcount d = pptr d"

definition overflow :: "int \<Rightarrow> int" where
  "overflow ch = ch"

definition EOF :: int where
  "EOF = -1"

definition put_char :: "nat \<Rightarrow> char \<Rightarrow> log_data \<Rightarrow> log_data res" where
  "put_char i c d =
     (if i < length (log_text d) then Inr (d\<lparr>log_text := (log_text d)[i := c]\<rparr>) else Inl Out_Of_Bounds)"

text \<open>\<open>sputc\<close> and \<open>sputn\<close> of the standard library: a character that does not fit goes to \<open>overflow\<close>.\<close>

definition sputc :: "char \<Rightarrow> log_data \<Rightarrow> (int \<times> log_data) res" where
  "sputc c d =
     (if pptr d < epptr d
      then bindR (put_char (pptr d) c d) (\<lambda>d. Inr (int (of_char c :: nat), d\<lparr>pptr := pptr d + 1\<rparr>))
      else Inr (overflow (int (of_char c :: nat)), d))"

fun sputn :: "string \<Rightarrow> log_data \<Rightarrow> (nat \<times> log_data) res" where
  "sputn [] d = Inr (0, d)"
| "sputn (c # cs) d =
     bindR (sputc c d) (\<lambda>(r, d).
     if r = EOF then Inr (0, d) else bindR (sputn cs d) (\<lambda>(n, d). Inr (n + 1, d)))"

text \<open>\<open>stream << s\<close>.\<close>

definition stream_put :: "string \<Rightarrow> log_data \<Rightarrow> log_data res" where
  "stream_put s d =
     (if badbit d then Inr d
      else bindR (sputn s d) (\<lambda>(n, d). Inr (d\<lparr>badbit := n \<noteq> length s\<rparr>)))"

fun stream_all :: "string list \<Rightarrow> log_data \<Rightarrow> log_data res" where
  "stream_all [] d = Inr d"
| "stream_all (s # ss) d = bindR (stream_put s d) (stream_all ss)"

section \<open>Log messages\<close>

text \<open>The constructor writes the head of the line.\<close>

definition log_message_new :: "string \<Rightarrow> string \<Rightarrow> string \<Rightarrow> nat \<Rightarrow> log_level \<Rightarrow> log_data \<Rightarrow> log_data res" where
  "log_message_new thread now file line level d =
     stream_all [kLogLevelName level, thread, '' '', now, '' '', file, '':'', show_nat line, '']''] d"

definition log_finish :: "log_data \<Rightarrow> log_data res" where
  "log_finish d = bindR (stream_put [CHR 0x0A] d) (\<lambda>d. put_char (pcount d) CHR 0x00 d)"

text \<open>What \<open>LogThread::output\<close> appends to the file.\<close>

definition log_slice :: "log_data \<Rightarrow> string" where
  "log_slice d = take (pcount d) (log_text d)"

section \<open>Lemmas\<close>

lemma EOF_neq [simp]: "int n \<noteq> EOF"
  by (simp add: EOF_def)

text \<open>\<open>d\<close> holds what fits of \<open>s\<close>.\<close>

definition log_holds :: "log_data \<Rightarrow> string \<Rightarrow> bool" where
  "log_holds d s \<longleftrightarrow> length (log_text d) = kMaxLogMessageLen + 1 \<and> epptr d = kMaxLogMessageLen - 2 \<and> \<not> badbit d
     \<and> log_slice d = take (kMaxLogMessageLen - 2) s \<and> pcount d = min (kMaxLogMessageLen - 2) (length s)"

lemma log_holds_sputc:
  assumes "log_holds d s"
  shows "\<exists>d'. sputc c d = Inr (int (of_char c :: nat), d') \<and> log_holds d' (s @ [c])"
proof (cases "pptr d < epptr d")
  case True
  then have l: "length s < kMaxLogMessageLen - 2" "pptr d = length s"
    using assms by (auto simp: log_holds_def pcount_def)
  then have "length s < length (log_text d)" using assms by (simp add: log_holds_def)
  moreover from this have "take (length s + 1) ((log_text d)[length s := c]) = take (length s) (log_text d) @ [c]"
    by (simp add: take_Suc_conv_app_nth)
  ultimately show ?thesis
    using assms l True by (auto simp: sputc_def put_char_def log_holds_def log_slice_def pcount_def)
next
  case False
  then have "kMaxLogMessageLen - 2 \<le> length s" using assms by (auto simp: log_holds_def pcount_def)
  then show ?thesis using assms False by (auto simp: sputc_def overflow_def log_holds_def)
qed

lemma log_holds_sputn: "log_holds d s \<Longrightarrow> \<exists>d'. sputn cs d = Inr (length cs, d') \<and> log_holds d' (s @ cs)"
proof (induction cs arbitrary: d s)
  case (Cons c cs)
  obtain d1 where "sputc c d = Inr (int (of_char c :: nat), d1)" "log_holds d1 (s @ [c])"
    using log_holds_sputc [OF Cons.prems] by blast
  with Cons.IH [OF this(2)] show ?case by auto
qed simp

lemma log_holds_put: "log_holds d s \<Longrightarrow> \<exists>d'. stream_put cs d = Inr d' \<and> log_holds d' (s @ cs)"
  using log_holds_sputn [of d s cs] by (auto simp: stream_put_def log_holds_def log_slice_def pcount_def)

lemma log_holds_all: "log_holds d s \<Longrightarrow> \<exists>d'. stream_all ss d = Inr d' \<and> log_holds d' (s @ concat ss)"
proof (induction ss arbitrary: d s)
  case (Cons c cs)
  obtain d1 where "stream_put c d = Inr d1" "log_holds d1 (s @ c)" using log_holds_put [OF Cons.prems] by blast
  with Cons.IH [OF this(2)] show ?case by auto
qed simp

lemma log_holds_new: "length text = kMaxLogMessageLen + 1 \<Longrightarrow> log_holds (log_data_new text) []"
  by (simp add: log_holds_def log_data_new_def log_slice_def pcount_def)

lemma initLogLevel_names: "initLogLevel (Some v) \<noteq> DEBUG \<longleftrightarrow> v \<in> {''[I '', ''[W '', ''[E '', ''[F ''}"
  by (auto simp: initLogLevel_def log_levels_def)

lemma in_set_take_last: "c \<notin> set s \<Longrightarrow> c \<in> set (take n (s @ [c])) \<longleftrightarrow> length s < n"
  by (auto simp: take_Cons' dest: in_set_takeD)

section \<open>Properties\<close>

definition log_line :: "string \<Rightarrow> string \<Rightarrow> string \<Rightarrow> nat \<Rightarrow> log_level \<Rightarrow> string list \<Rightarrow> string" where
  "log_line thread now file line level parts =
     kLogLevelName level @ thread @ '' '' @ now @ '' '' @ file @ '':'' @ show_nat line @ '']'' @ concat parts"

text \<open>
  C25. A log message of any length stays within its array, terminating zero included, and gives the
  file the first 29998 characters of its line: the head, what was streamed and the newline. A line
  that long loses its newline, although the class keeps two places for the newline and the zero, so
  the next message continues it.
\<close>

theorem log_message_bounded:
  assumes "length text = kMaxLogMessageLen + 1"
  shows "\<exists>d. bindR (log_message_new thread now file line level (log_data_new text)) (\<lambda>d.
      bindR (stream_all parts d) log_finish) = Inr d
    \<and> log_slice d = take (kMaxLogMessageLen - 2) (log_line thread now file line level parts @ [CHR 0x0A])
    \<and> log_text d ! pcount d = CHR 0x00 \<and> pcount d < length (log_text d)
    \<and> (CHR 0x0A \<notin> set (log_line thread now file line level parts)
        \<longrightarrow> (CHR 0x0A \<in> set (log_slice d) \<longleftrightarrow> length (log_line thread now file line level parts) < kMaxLogMessageLen - 2))"
proof -
  let ?l = "log_line thread now file line level parts"
  let ?head = "[kLogLevelName level, thread, '' '', now, '' '', file, '':'', show_nat line, '']'']"
  obtain d1 where d1: "log_message_new thread now file line level (log_data_new text) = Inr d1" "log_holds d1 (concat ?head)"
    using log_holds_all [OF log_holds_new [OF assms], of ?head] by (auto simp: log_message_new_def)
  obtain d2 where d2: "stream_all parts d1 = Inr d2" "log_holds d2 (concat ?head @ concat parts)"
    using log_holds_all [OF d1(2), of parts] by blast
  obtain d3 where d3: "stream_put [CHR 0x0A] d2 = Inr d3" "log_holds d3 ((concat ?head @ concat parts) @ [CHR 0x0A])"
    using log_holds_put [OF d2(2)] by blast
  then have h: "log_holds d3 (?l @ [CHR 0x0A])" by (simp add: log_line_def)
  then have len: "pcount d3 < length (log_text d3)" by (auto simp: log_holds_def)
  define d where "d = d3\<lparr>log_text := (log_text d3)[pcount d3 := CHR 0x00]\<rparr>"
  have "put_char (pcount d3) CHR 0x00 d3 = Inr d" using len by (simp add: put_char_def d_def)
  then have run: "bindR (log_message_new thread now file line level (log_data_new text)) (\<lambda>d.
      bindR (stream_all parts d) log_finish) = Inr d"
    using d1(1) d2(1) d3(1) by (simp add: log_finish_def)
  have slice: "log_slice d = take (kMaxLogMessageLen - 2) (?l @ [CHR 0x0A])"
  proof -
    have "log_slice d = log_slice d3" by (simp add: log_slice_def d_def pcount_def)
    then show ?thesis using h by (simp add: log_holds_def)
  qed
  have "log_text d ! pcount d = CHR 0x00" "pcount d < length (log_text d)" using len by (simp_all add: d_def pcount_def)
  moreover have "CHR 0x0A \<in> set (log_slice d) \<longleftrightarrow> length ?l < kMaxLogMessageLen - 2" if "CHR 0x0A \<notin> set ?l"
    unfolding slice by (rule in_set_take_last [OF that])
  ultimately show ?thesis using run slice by blast
qed

theorem log_message_bounded_witness:
  "\<exists>d d2. bindR (log_message_new ''main'' ''now'' ''a.cc'' 7 INFO (log_data_new (replicate 30001 CHR ''?''))) (\<lambda>d.
      bindR (stream_all [''hello''] d) log_finish) = Inr d
    \<and> log_slice d = ''[I main now a.cc:7]hello'' @ [CHR 0x0A]
    \<and> bindR (log_message_new ''main'' ''now'' ''a.cc'' 7 INFO (log_data_new (replicate 30001 CHR ''?''))) (\<lambda>d.
      bindR (stream_all [replicate 30000 CHR ''x''] d) log_finish) = Inr d2
    \<and> CHR 0x0A \<notin> set (log_slice d2)"
proof -
  have t: "length (replicate 30001 CHR ''?'') = kMaxLogMessageLen + 1" by (simp add: kMaxLogMessageLen_def)
  have l: "log_line ''main'' ''now'' ''a.cc'' 7 INFO p = ''[I main now a.cc:7]'' @ concat p" for p
  proof -
    have "show_nat 7 = ''7''" by code_simp
    then show ?thesis by (simp add: log_line_def)
  qed
  show ?thesis
    using log_message_bounded [OF t, of "''main''" "''now''" "''a.cc''" 7 INFO "[''hello'']"]
      log_message_bounded [OF t, of "''main''" "''now''" "''a.cc''" 7 INFO "[replicate 30000 CHR ''x'']"]
    unfolding l by (auto simp: kMaxLogMessageLen_def)
qed

end
