(* ===== verification/Poller.thy ===== *)
theory Poller
  imports Heap "HOL-Library.Multiset"
begin

text \<open>
  \<open>src/core/poller.h\<close> and \<open>poller.cc\<close> (the timers of an event loop) and the base class of
  \<open>src/core/event.h\<close>. A timer is an entry on the free store, reachable from a multimap ordered by
  expiry and from a map by id; the entry owns its event. The multimap is the list of its nodes,
  each with an identity, so that an iterator is a node and using one that was erased is a fault.
  The \<open>Timeout\<close> callbacks are an argument: they act on the rest of the program's state \<open>'w\<close> and on
  the poller itself.
\<close>

section \<open>State\<close>

datatype timer_type = kTimerOnce | kTimerPermanent

record timer_entry =
  te_timeout :: u64
  te_expire :: u64
  te_event :: ptr
  te_id :: u64
  te_type :: timer_type

record event =
  ev_timer_id :: u64

definition kInvalidTimer :: u64 where
  "kInvalidTimer = 0"

definition event_new :: event where
  "event_new = \<lparr>ev_timer_id = kInvalidTimer\<rparr>"

definition event_set_timer_id :: "u64 \<Rightarrow> event \<Rightarrow> event" where
  "event_set_timer_id i e = e\<lparr>ev_timer_id := i\<rparr>"

text \<open>A node of the multimap: its identity, its key (the expiry time), the entry.\<close>

record tnode =
  node_id :: nat
  node_key :: u64
  node_entry :: addr

record poller =
  timers :: "tnode list"
  next_node :: nat
  timer_ids :: "u64 \<Rightarrow> addr option"
  max_timer_id :: u64
  now_ms :: u64
  entries :: "timer_entry heap"
  events :: "event heap"

definition kDefaultTimeout :: i32 where
  "kDefaultTimeout = 100"

definition poller_new :: "event heap \<Rightarrow> poller" where
  "poller_new evs = \<lparr>timers = [], next_node = 0, timer_ids = Map.empty, max_timer_id = 0, now_ms = 0,
     entries = heap_empty, events = evs\<rparr>"

section \<open>The multimap\<close>

text \<open>\<open>insert\<close> puts a node behind those with the same key.\<close>

definition mm_insert :: "tnode \<Rightarrow> tnode list \<Rightarrow> tnode list" where
  "mm_insert x ts = takeWhile (\<lambda>y. node_key y \<le> node_key x) ts @ x # dropWhile (\<lambda>y. node_key y \<le> node_key x) ts"

definition mm_at :: "nat \<Rightarrow> tnode list \<Rightarrow> tnode res" where
  "mm_at n ts = (case find (\<lambda>x. node_id x = n) ts of None \<Rightarrow> Inl Wild_Access | Some x \<Rightarrow> Inr x)"

text \<open>\<open>++iter\<close> and \<open>begin ()\<close>; \<open>None\<close> is \<open>end ()\<close>.\<close>

definition mm_begin :: "tnode list \<Rightarrow> nat option" where
  "mm_begin ts = (case ts of [] \<Rightarrow> None | x # _ \<Rightarrow> Some (node_id x))"

definition mm_next :: "nat \<Rightarrow> tnode list \<Rightarrow> nat option" where
  "mm_next n ts = mm_begin (tl (dropWhile (\<lambda>x. node_id x \<noteq> n) ts))"

definition mm_erase :: "nat \<Rightarrow> tnode list \<Rightarrow> tnode list" where
  "mm_erase n ts = filter (\<lambda>x. node_id x \<noteq> n) ts"

definition poller_insert :: "u64 \<Rightarrow> addr \<Rightarrow> poller \<Rightarrow> poller" where
  "poller_insert key e p = p\<lparr>timers := mm_insert \<lparr>node_id = next_node p, node_key = key, node_entry = e\<rparr> (timers p), next_node := Suc (next_node p)\<rparr>"

section \<open>Operations\<close>

text \<open>\<open>delete entry\<close>: the destructor of the entry deletes its event.\<close>

definition delete_entry :: "addr \<Rightarrow> poller \<Rightarrow> poller res" where
  "delete_entry e p =
     bindR (heap_get e (entries p)) (\<lambda>te.
     bindR (ptr_free (te_event te) (events p)) (\<lambda>evs.
     bindR (heap_free e (entries p)) (\<lambda>ens. Inr (p\<lparr>entries := ens, events := evs\<rparr>))))"

text \<open>\<open>current\<close> is \<open>CurrentMs ()\<close>; the \<open>int\<close> timeout is converted to 64 bits.\<close>

definition AddTimer :: "u64 \<Rightarrow> i32 \<Rightarrow> ptr \<Rightarrow> timer_type \<Rightarrow> poller \<Rightarrow> (u64 \<times> poller) res" where
  "AddTimer current timeout ev t p =
     (let expire = current + scast timeout;
          p = p\<lparr>max_timer_id := max_timer_id p + 1\<rparr>;
          i = max_timer_id p;
          (e, ens) = heap_alloc \<lparr>te_timeout = scast timeout, te_expire = expire, te_event = ev, te_id = i,
            te_type = t\<rparr> (entries p);
          p = poller_insert expire e (p\<lparr>entries := ens\<rparr>);
          p = p\<lparr>timer_ids := (timer_ids p)(i \<mapsto> e)\<rparr>
      in bindR (ptr_upd ev (event_set_timer_id i) (events p)) (\<lambda>evs. Inr (i, p\<lparr>events := evs\<rparr>)))"

text \<open>The loop of \<open>CancelTimer\<close> from \<open>lower_bound\<close> on: it stops at \<open>upper_bound\<close> or at the id.\<close>

fun cancel_pos :: "timer_entry heap \<Rightarrow> u64 \<Rightarrow> u64 \<Rightarrow> tnode list \<Rightarrow> nat option res" where
  "cancel_pos ens expire i [] = Inr None"
| "cancel_pos ens expire i (x # ts) =
     (if node_key x > expire then Inr (Some (node_id x))
      else bindR (heap_get (node_entry x) ens) (\<lambda>te.
        if te_id te = i then Inr (Some (node_id x)) else cancel_pos ens expire i ts))"

definition CancelTimer :: "u64 \<Rightarrow> poller \<Rightarrow> poller res" where
  "CancelTimer i p =
     (case timer_ids p i of
        None \<Rightarrow> Inr p
      | Some e \<Rightarrow>
          bindR (heap_get e (entries p)) (\<lambda>te.
          bindR (cancel_pos (entries p) (te_expire te) i (dropWhile (\<lambda>x. node_key x < te_expire te) (timers p))) (\<lambda>pos.
          case pos of
            None \<Rightarrow> Inl Wild_Access
          | Some n \<Rightarrow> delete_entry e (p\<lparr>timers := mm_erase n (timers p), timer_ids := (timer_ids p)(i := None)\<rparr>))))"

text \<open>The first loop of \<open>executeTimers\<close>, at the iterator \<open>it\<close>, with the iterators fired so far.\<close>

partial_function (option) fire_loop ::
  "(addr \<Rightarrow> 'w \<times> poller \<Rightarrow> ('w \<times> poller) res) \<Rightarrow> nat option \<Rightarrow> nat list \<Rightarrow> 'w \<times> poller
    \<Rightarrow> (i32 \<times> nat list \<times> 'w \<times> poller) res option" where
  "fire_loop cb it fired s =
     (case it of
        None \<Rightarrow> Some (Inr (kDefaultTimeout, fired, s))
      | Some n \<Rightarrow>
          (case mm_at n (timers (snd s)) of
             Inl f \<Rightarrow> Some (Inl f)
           | Inr x \<Rightarrow>
               if node_key x > now_ms (snd s)
               then Some (Inr (ucast (node_key x - now_ms (snd s)), fired, s))
               else
                 (case bindR (heap_get (node_entry x) (entries (snd s))) (\<lambda>te.
                       bindR (deref (te_event te)) (\<lambda>ev. cb ev s)) of
                    Inl f \<Rightarrow> Some (Inl f)
                  | Inr s' \<Rightarrow> fire_loop cb (mm_next n (timers (snd s'))) (fired @ [n]) s')))"

text \<open>The body of the second loop: a node that fired.\<close>

definition reap :: "nat \<Rightarrow> poller \<Rightarrow> poller res" where
  "reap n p =
     bindR (mm_at n (timers p)) (\<lambda>x.
     let e = node_entry x; p = p\<lparr>timers := mm_erase n (timers p)\<rparr> in
     bindR (heap_get e (entries p)) (\<lambda>te.
     case te_type te of
       kTimerOnce \<Rightarrow> delete_entry e (p\<lparr>timer_ids := (timer_ids p)(te_id te := None)\<rparr>)
     | kTimerPermanent \<Rightarrow> Inr (poller_insert (now_ms p + te_timeout te) e p)))"

fun reap_all :: "nat list \<Rightarrow> poller \<Rightarrow> poller res" where
  "reap_all [] p = Inr p"
| "reap_all (n # ns) p = bindR (reap n p) (reap_all ns)"

definition executeTimers ::
  "(addr \<Rightarrow> 'w \<times> poller \<Rightarrow> ('w \<times> poller) res) \<Rightarrow> 'w \<times> poller \<Rightarrow> (i32 \<times> 'w \<times> poller) res" where
  "executeTimers cb s =
     (if timers (snd s) = [] then Inr (kDefaultTimeout, s)
      else
        bindR (loopR (fire_loop cb (mm_begin (timers (snd s))) [] s)) (\<lambda>(r, fired, w, p).
        bindR (reap_all fired p) (\<lambda>p. Inr (r, w, p))))"

text \<open>\<open>Dispatch\<close>; \<open>poll\<close> is the virtual \<open>Poll\<close>.\<close>

definition Dispatch ::
  "u64 \<Rightarrow> (addr \<Rightarrow> 'w \<times> poller \<Rightarrow> ('w \<times> poller) res) \<Rightarrow> (i32 \<Rightarrow> 'w \<times> poller \<Rightarrow> ('w \<times> poller) res)
    \<Rightarrow> 'w \<times> poller \<Rightarrow> ('w \<times> poller) res" where
  "Dispatch current cb poll s =
     bindR (executeTimers cb (fst s, (snd s)\<lparr>now_ms := current\<rparr>)) (\<lambda>(timeout, s). poll timeout s)"

section \<open>Well-formed pollers\<close>

definition entry_ok :: "poller \<Rightarrow> tnode \<Rightarrow> bool" where
  "entry_ok p x \<longleftrightarrow> (\<exists>te ev. cells (entries p) (node_entry x) = Some te
     \<and> timer_ids p (te_id te) = Some (node_entry x) \<and> te_event te = At ev \<and> ev \<in> dom (cells (events p)))"

text \<open>The event an entry owns.\<close>

definition event_of :: "poller \<Rightarrow> addr \<Rightarrow> ptr option" where
  "event_of p e = map_option te_event (cells (entries p) e)"

definition poller_wf :: "poller \<Rightarrow> bool" where
  "poller_wf p \<longleftrightarrow>
     sorted (map node_key (timers p)) \<and> distinct (map node_id (timers p))
     \<and> (\<forall>x \<in> set (timers p). node_id x < next_node p) \<and> distinct (map node_entry (timers p))
     \<and> (\<forall>x \<in> set (timers p). entry_ok p x)
     \<and> (\<forall>i e. timer_ids p i = Some e \<longrightarrow> i \<le> max_timer_id p \<and> e \<in> node_entry ` set (timers p)
           \<and> (\<exists>te. cells (entries p) e = Some te \<and> te_id te = i))
     \<and> inj_on (event_of p) (node_entry ` set (timers p))
     \<and> heap_wf (entries p) \<and> heap_wf (events p)"

text \<open>The parts of the invariant, and how to put it together again.\<close>

lemma poller_wfD:
  assumes "poller_wf p"
  shows "sorted (map node_key (timers p))" "distinct (map node_id (timers p))"
    "distinct (map node_entry (timers p))" "heap_wf (entries p)" "heap_wf (events p)"
    "x \<in> set (timers p) \<Longrightarrow> node_id x < next_node p" "x \<in> set (timers p) \<Longrightarrow> entry_ok p x"
    "inj_on (event_of p) (node_entry ` set (timers p))"
    "timer_ids p i = Some e \<Longrightarrow> i \<le> max_timer_id p \<and> e \<in> node_entry ` set (timers p)
       \<and> (\<exists>te. cells (entries p) e = Some te \<and> te_id te = i)"
  using assms unfolding poller_wf_def by blast+

lemma poller_wfI:
  assumes "sorted (map node_key (timers p))" "distinct (map node_id (timers p))"
    "distinct (map node_entry (timers p))" "heap_wf (entries p)" "heap_wf (events p)"
    "\<And>x. x \<in> set (timers p) \<Longrightarrow> node_id x < next_node p" "\<And>x. x \<in> set (timers p) \<Longrightarrow> entry_ok p x"
    "inj_on (event_of p) (node_entry ` set (timers p))"
    "\<And>i e. timer_ids p i = Some e \<Longrightarrow> i \<le> max_timer_id p \<and> e \<in> node_entry ` set (timers p)
       \<and> (\<exists>te. cells (entries p) e = Some te \<and> te_id te = i)"
  shows "poller_wf p"
  using assms unfolding poller_wf_def by blast

lemma mset_mm_insert [simp]: "mset (mm_insert x ts) = add_mset x (mset ts)"
proof -
  have "mset ts = mset (takeWhile (\<lambda>y. node_key y \<le> node_key x) ts @ dropWhile (\<lambda>y. node_key y \<le> node_key x) ts)"
    by simp
  then show ?thesis by (simp add: mm_insert_def del: takeWhile_dropWhile_id)
qed

lemma set_mm_insert [simp]: "set (mm_insert x ts) = insert x (set ts)"
  by (metis mset_mm_insert set_mset_add_mset_insert set_mset_mset)

lemma distinct_mm_insert: "distinct (map f (mm_insert x ts)) \<longleftrightarrow> f x \<notin> f ` set ts \<and> distinct (map f ts)"
proof -
  have "mset (map f (mm_insert x ts)) = mset (f x # map f ts)" by simp
  then have "distinct (map f (mm_insert x ts)) \<longleftrightarrow> distinct (f x # map f ts)"
    by (rule mset_eq_imp_distinct_iff)
  then show ?thesis by simp
qed

lemma sorted_mm_insert:
  assumes "sorted (map node_key ts)"
  shows "sorted (map node_key (mm_insert x ts))"
proof -
  let ?P = "\<lambda>y. node_key y \<le> node_key x"
  have s: "sorted (map node_key (takeWhile ?P ts @ dropWhile ?P ts))" using assms by simp
  have d: "\<forall>y \<in> set (dropWhile ?P ts). node_key x \<le> node_key y"
  proof (cases "dropWhile ?P ts")
    case Nil
    show ?thesis unfolding Nil by simp
  next
    case (Cons z zs)
    then have "node_key x < node_key z" using hd_dropWhile [of ?P ts] by simp
    moreover have "sorted (map node_key (z # zs))" using s Cons by (simp add: sorted_append)
    ultimately show ?thesis using Cons by fastforce
  qed
  have t: "\<forall>y \<in> set (takeWhile ?P ts). node_key y \<le> node_key x" by (auto dest: set_takeWhileD)
  have "sorted (map node_key (takeWhile ?P ts))" "sorted (map node_key (dropWhile ?P ts))"
    using s by (simp_all only: map_append sorted_append)
  with d t show ?thesis by (auto simp: mm_insert_def sorted_append intro: order_trans)
qed

lemma mm_at_mem:
  assumes "distinct (map node_id ts)" and "x \<in> set ts"
  shows "mm_at (node_id x) ts = Inr x"
  using assms
proof (induction ts)
  case (Cons y ts)
  show ?case
  proof (cases "node_id y = node_id x")
    case True
    then have "y = x" using Cons.prems by (auto simp: image_iff)
    then show ?thesis by (simp add: mm_at_def)
  next
    case False
    then show ?thesis using Cons by (auto simp: mm_at_def)
  qed
qed simp

lemma mm_erase_mem:
  "x \<in> set ts \<Longrightarrow> distinct (map node_id ts) \<Longrightarrow> mset ts = add_mset x (mset (mm_erase (node_id x) ts))"
proof (induction ts)
  case (Cons y ts)
  show ?case
  proof (cases "node_id y = node_id x")
    case True
    then have "y = x" "mm_erase (node_id x) ts = ts"
      using Cons.prems by (auto simp: mm_erase_def image_iff filter_id_conv)
    then show ?thesis by (simp add: mm_erase_def)
  next
    case False
    then show ?thesis using Cons by (auto simp: mm_erase_def)
  qed
qed simp

lemma set_mm_erase: "x \<in> set ts \<Longrightarrow> distinct (map node_id ts) \<Longrightarrow> set (mm_erase (node_id x) ts) = set ts - {x}"
  by (auto simp: mm_erase_def distinct_map inj_on_def)

lemma sorted_map_filter: "sorted (map f ts) \<Longrightarrow> sorted (map f (filter P ts))"
  by (induction ts) (auto)

lemma distinct_map_filter: "distinct (map f ts) \<Longrightarrow> distinct (map f (filter P ts))"
  by (induction ts) auto

section \<open>AddTimer\<close>

lemma poller_add:
  assumes wf: "poller_wf p" and ev: "a \<in> dom (cells (events p))"
    and free: "\<And>x. x \<in> set (timers p) \<Longrightarrow> event_of p (node_entry x) \<noteq> Some (At a)"
    and ovf: "max_timer_id p \<noteq> -1"
  shows "\<exists>p' e. AddTimer current timeout (At a) t p = Inr (max_timer_id p + 1, p') \<and> poller_wf p'
    \<and> timers p' = mm_insert \<lparr>node_id = next_node p, node_key = current + scast timeout, node_entry = e\<rparr> (timers p)
    \<and> timer_ids p' = (timer_ids p)(max_timer_id p + 1 \<mapsto> e)
    \<and> timer_ids p (max_timer_id p + 1) = None \<and> e \<notin> node_entry ` set (timers p)
    \<and> cells (entries p') e = Some \<lparr>te_timeout = scast timeout, te_expire = current + scast timeout,
        te_event = At a, te_id = max_timer_id p + 1, te_type = t\<rparr>"
proof -
  let ?i = "max_timer_id p + 1"
  let ?te = "\<lparr>te_timeout = scast timeout, te_expire = current + scast timeout, te_event = At a, te_id = ?i, te_type = t\<rparr>"
  note w = poller_wfD [OF wf]
  have gt: "max_timer_id p < ?i" using u64_less_succ [OF ovf] .
  obtain e ens where e: "heap_alloc ?te (entries p) = (e, ens)" by fastforce
  have fresh: "cells (entries p) e = None" and ens: "cells ens = (cells (entries p))(e \<mapsto> ?te)" "heap_wf ens"
    using heap_alloc_fresh [OF w(4) e] heap_alloc_cells [OF e] heap_wf_alloc [OF w(4) e] by auto
  have ne: "e \<notin> node_entry ` set (timers p)" using fresh w(7) by (force simp: entry_ok_def)
  have ni: "timer_ids p ?i = None"
  proof (rule ccontr)
    assume "timer_ids p ?i \<noteq> None"
    then obtain x where "timer_ids p ?i = Some x" by blast
    then have "?i \<le> max_timer_id p" using w(9) by blast
    then show False using gt by simp
  qed
  obtain v where v: "cells (events p) a = Some v" using ev by blast
  define evs where "evs = (events p)\<lparr>cells := (cells (events p))(a \<mapsto> event_set_timer_id ?i v)\<rparr>"
  define p' where "p' = p\<lparr>max_timer_id := ?i, entries := ens,
    timers := mm_insert \<lparr>node_id = next_node p, node_key = current + scast timeout, node_entry = e\<rparr> (timers p), next_node := Suc (next_node p),
    timer_ids := (timer_ids p)(?i \<mapsto> e), events := evs\<rparr>"
  have run: "AddTimer current timeout (At a) t p = Inr (?i, p')"
    using e v by (simp add: AddTimer_def poller_insert_def p'_def evs_def Let_def)
  have evo: "event_of p' x = event_of p x" if "x \<in> node_entry ` set (timers p)" for x
    using that ne by (auto simp: event_of_def p'_def ens)
  have evn: "event_of p' e = Some (At a)" by (simp add: event_of_def p'_def ens)
  have de: "dom (cells evs) = dom (cells (events p))" using v by (auto simp: evs_def)
  have "poller_wf p'"
  proof (rule poller_wfI)
    show "sorted (map node_key (timers p'))" using sorted_mm_insert w(1) by (simp add: p'_def)
    show "distinct (map node_id (timers p'))"
      using w(2,6) by (fastforce simp: p'_def distinct_mm_insert)
    show "distinct (map node_entry (timers p'))" using w(3) ne by (simp add: p'_def distinct_mm_insert)
    show "heap_wf (entries p')" using ens by (simp add: p'_def)
    show "heap_wf (events p')" using heap_put_wf [OF w(5) v] by (simp add: p'_def evs_def)
    show "node_id x < next_node p'" if "x \<in> set (timers p')" for x
      using that w(6) by (fastforce simp: p'_def)
    show "entry_ok p' x" if x: "x \<in> set (timers p')" for x
    proof (cases "node_entry x = e")
      case True
      then show ?thesis using v by (auto simp: entry_ok_def p'_def ens evs_def)
    next
      case False
      then have "x \<in> set (timers p)" using x by (auto simp: p'_def)
      from w(7) [OF this, unfolded entry_ok_def] obtain te ev where "cells (entries p) (node_entry x) = Some te"
        "timer_ids p (te_id te) = Some (node_entry x)" "te_event te = At ev" "ev \<in> dom (cells (events p))"
        by blast
      moreover have "te_id te \<noteq> ?i" using calculation(2) ni by auto
      ultimately show ?thesis using False de by (simp add: entry_ok_def p'_def ens)
    qed
    have "Some (At a) \<notin> event_of p' ` node_entry ` set (timers p)" using evo free by force
    moreover have "inj_on (event_of p') (node_entry ` set (timers p))"
      using w(8) evo by (simp add: inj_on_def)
    ultimately show "inj_on (event_of p') (node_entry ` set (timers p'))"
      using evn ne by (simp add: p'_def)
    show "i \<le> max_timer_id p' \<and> x \<in> node_entry ` set (timers p') \<and> (\<exists>te. cells (entries p') x = Some te \<and> te_id te = i)"
      if "timer_ids p' i = Some x" for i x
    proof (cases "i = ?i")
      case True
      then show ?thesis using that by (simp add: p'_def ens)
    next
      case False
      then have "timer_ids p i = Some x" using that by (simp add: p'_def)
      then show ?thesis using w(9) [of i x] ne gt by (auto simp: p'_def ens)
    qed
  qed
  then show ?thesis using run ni ne by (intro exI [of _ p'] exI [of _ e]) (simp add: p'_def ens)
qed

section \<open>Deleting an entry\<close>

text \<open>
  What remains when the node of an entry is unlinked, its id is forgotten and the entry and its
  event are deleted.
\<close>

lemma poller_delete:
  assumes wf: "poller_wf p" and x: "x \<in> set (timers p)" and te: "cells (entries p) (node_entry x) = Some te"
  shows "\<exists>p'. delete_entry (node_entry x)
      (p\<lparr>timers := mm_erase (node_id x) (timers p), timer_ids := (timer_ids p)(te_id te := None)\<rparr>) = Inr p'
    \<and> poller_wf p' \<and> timers p' = mm_erase (node_id x) (timers p)
    \<and> timer_ids p' = (timer_ids p)(te_id te := None) \<and> now_ms p' = now_ms p
    \<and> (\<forall>e. e \<noteq> node_entry x \<longrightarrow> cells (entries p') e = cells (entries p) e)
    \<and> (\<forall>a. te_event te = At a \<longrightarrow> cells (events p') a = None)"
proof -
  note w = poller_wfD [OF wf]
  let ?e = "node_entry x" and ?ts = "mm_erase (node_id x) (timers p)" and ?ids = "(timer_ids p)(te_id te := None)"
  obtain ev v where ev: "te_event te = At ev" "cells (events p) ev = Some v"
    and idx: "timer_ids p (te_id te) = Some ?e"
    using w(7) [OF x] te by (auto simp: entry_ok_def)
  obtain evs where evs: "heap_free ev (events p) = Inr evs" "heap_wf evs" "cells evs = (cells (events p))(ev := None)"
    using heap_free_ok [OF w(5) ev(2)] by blast
  obtain ens where ens: "heap_free ?e (entries p) = Inr ens" "heap_wf ens" "cells ens = (cells (entries p))(?e := None)"
    using heap_free_ok [OF w(4) te] by blast
  define p' where "p' = p\<lparr>timers := ?ts, timer_ids := ?ids, entries := ens, events := evs\<rparr>"
  have run: "delete_entry ?e (p\<lparr>timers := ?ts, timer_ids := ?ids\<rparr>) = Inr p'"
    using te ev evs(1) ens(1) by (simp add: delete_entry_def p'_def)
  have st: "set ?ts = set (timers p) - {x}" by (rule set_mm_erase [OF x w(2)])
  have ne: "node_entry y \<noteq> ?e" if "y \<in> set ?ts" for y
    using that st w(3) x by (auto simp: distinct_map dest: inj_onD)
  have eo: "event_of p' e = event_of p e" if "e \<noteq> ?e" for e using that by (simp add: event_of_def p'_def ens)
  have "poller_wf p'"
  proof (rule poller_wfI)
    show "sorted (map node_key (timers p'))" using sorted_map_filter [OF w(1)] by (simp add: p'_def mm_erase_def)
    show "distinct (map node_id (timers p'))" using distinct_map_filter [OF w(2)] by (simp add: p'_def mm_erase_def)
    show "distinct (map node_entry (timers p'))" using distinct_map_filter [OF w(3)] by (simp add: p'_def mm_erase_def)
    show "heap_wf (entries p')" "heap_wf (events p')" using ens evs by (simp_all add: p'_def)
    show "node_id y < next_node p'" if "y \<in> set (timers p')" for y
      using that w(6) st by (auto simp: p'_def)
    show "entry_ok p' y" if y: "y \<in> set (timers p')" for y
    proof -
      have yp: "y \<in> set (timers p)" "node_entry y \<noteq> ?e" using y st ne by (auto simp: p'_def)
      obtain ty evy where ty: "cells (entries p) (node_entry y) = Some ty"
        "timer_ids p (te_id ty) = Some (node_entry y)" "te_event ty = At evy" "evy \<in> dom (cells (events p))"
        using w(7) [OF yp(1)] by (auto simp: entry_ok_def)
      have "te_id ty \<noteq> te_id te" using ty(2) idx yp(2) by auto
      moreover have "evy \<noteq> ev"
        using inj_onD [OF w(8), of "node_entry y" ?e] yp x ty(1,3) te ev(1) by (auto simp: event_of_def)
      ultimately show ?thesis using ty yp(2) by (auto simp: entry_ok_def p'_def ens evs)
    qed
    have "inj_on (event_of p) (node_entry ` set ?ts)" using w(8) st by (auto intro: inj_on_subset)
    then show "inj_on (event_of p') (node_entry ` set (timers p'))"
      using eo ne by (auto simp: inj_on_def p'_def)
    show "i \<le> max_timer_id p' \<and> e \<in> node_entry ` set (timers p') \<and> (\<exists>te. cells (entries p') e = Some te \<and> te_id te = i)"
      if i: "timer_ids p' i = Some e" for i e
    proof -
      have pi: "timer_ids p i = Some e" "i \<noteq> te_id te" using i by (auto simp: p'_def split: if_splits)
      obtain y ty where y: "y \<in> set (timers p)" "e = node_entry y" "cells (entries p) e = Some ty" "te_id ty = i"
        "i \<le> max_timer_id p"
        using w(9) [OF pi(1)] by auto
      have "e \<noteq> ?e" using y(3,4) te pi(2) by auto
      then show ?thesis using y st by (auto simp: p'_def ens)
    qed
  qed
  then show ?thesis using run ev by (intro exI [of _ p']) (simp add: p'_def ens evs)
qed

section \<open>CancelTimer\<close>

lemma cancel_pos_found:
  assumes "\<And>y te. y \<in> set ts \<Longrightarrow> cells ens (node_entry y) = Some te \<Longrightarrow> te_id te = i \<Longrightarrow> y = x"
    and "\<And>y. y \<in> set ts \<Longrightarrow> node_entry y \<in> dom (cells ens)" and "sorted (map node_key ts)"
    and "x \<in> set ts" and "cells ens (node_entry x) = Some te" and "te_id te = i" and "node_key x = k"
  shows "cancel_pos ens k i (dropWhile (\<lambda>y. node_key y < k) ts) = Inr (Some (node_id x))"
  using assms
proof (induction ts)
  case (Cons y ts)
  have IH: "x \<in> set ts \<Longrightarrow> cancel_pos ens k i (dropWhile (\<lambda>y. node_key y < k) ts) = Inr (Some (node_id x))"
    using Cons.prems by (intro Cons.IH) auto
  show ?case
  proof (cases "y = x")
    case True
    then show ?thesis using Cons.prems by simp
  next
    case False
    then have xt: "x \<in> set ts" using Cons.prems(4) by simp
    have le: "node_key y \<le> k" using Cons.prems(3,7) xt by auto
    obtain ty where ty: "cells ens (node_entry y) = Some ty" using Cons.prems(2) by auto
    have "te_id ty \<noteq> i" using Cons.prems(1) [of y ty] ty False by auto
    show ?thesis
    proof (cases "node_key y < k")
      case True
      then show ?thesis using IH [OF xt] by simp
    next
      case False
      then have "node_key y = k" using le by simp
      moreover have "dropWhile (\<lambda>y. node_key y < k) ts = ts"
      proof (cases ts)
        case (Cons z zs)
        then have "k \<le> node_key z" using Cons.prems(3) \<open>node_key y = k\<close> by simp
        then show ?thesis using Cons by simp
      qed simp
      ultimately show ?thesis using IH [OF xt] ty \<open>te_id ty \<noteq> i\<close> by simp
    qed
  qed
qed simp

lemma poller_entry_unique:
  assumes wf: "poller_wf p" and "x \<in> set (timers p)" and "y \<in> set (timers p)"
    and "cells (entries p) (node_entry x) = Some tx" and "cells (entries p) (node_entry y) = Some ty"
    and "te_id tx = te_id ty"
  shows "y = x"
proof -
  note w = poller_wfD [OF wf]
  have "timer_ids p (te_id tx) = Some (node_entry x)" "timer_ids p (te_id ty) = Some (node_entry y)"
    using w(7) [OF assms(2)] w(7) [OF assms(3)] assms(4,5) by (auto simp: entry_ok_def)
  then have "node_entry x = node_entry y" using assms(6) by simp
  then show ?thesis using w(3) assms(2,3) by (auto simp: distinct_map dest: inj_onD)
qed

lemma poller_cancel:
  assumes wf: "poller_wf p" and i: "timer_ids p i = Some (node_entry x)" and x: "x \<in> set (timers p)"
    and te: "cells (entries p) (node_entry x) = Some te" and k: "te_expire te = node_key x"
  shows "\<exists>p'. CancelTimer i p = Inr p' \<and> poller_wf p' \<and> timers p' = mm_erase (node_id x) (timers p)
    \<and> timer_ids p' = (timer_ids p)(i := None) \<and> (\<forall>a. te_event te = At a \<longrightarrow> cells (events p') a = None)"
proof -
  note w = poller_wfD [OF wf]
  have ti: "te_id te = i" using w(9) [OF i] te by auto
  have "cancel_pos (entries p) (te_expire te) i (dropWhile (\<lambda>y. node_key y < te_expire te) (timers p))
    = Inr (Some (node_id x))"
  proof (rule cancel_pos_found [OF _ _ w(1) x te ti k [symmetric]])
    show "y = x" if "y \<in> set (timers p)" "cells (entries p) (node_entry y) = Some ty" "te_id ty = i" for y ty
      by (rule poller_entry_unique [OF wf x that(1) te that(2)]) (simp add: ti that(3))
    show "node_entry y \<in> dom (cells (entries p))" if "y \<in> set (timers p)" for y
      using w(7) [OF that] by (auto simp: entry_ok_def)
  qed
  then show ?thesis
    using poller_delete [OF wf x te] i te ti by (auto simp: CancelTimer_def)
qed

section \<open>executeTimers\<close>

text \<open>The entry of a node, its event, and the pending expiries as a multiset.\<close>

definition te_of :: "poller \<Rightarrow> tnode \<Rightarrow> timer_entry" where
  "te_of p x = the (cells (entries p) (node_entry x))"

definition ev_of :: "poller \<Rightarrow> tnode \<Rightarrow> addr" where
  "ev_of p x = (case te_event (te_of p x) of At a \<Rightarrow> a | _ \<Rightarrow> 0)"

definition pending_timers :: "tnode list \<Rightarrow> (u64 \<times> addr) multiset" where
  "pending_timers ts = mset (map (\<lambda>x. (node_key x, node_entry x)) ts)"

text \<open>The permanent timers among \<open>ts\<close>, each with its next expiry.\<close>

definition rearmed :: "poller \<Rightarrow> tnode list \<Rightarrow> (u64 \<times> addr) multiset" where
  "rearmed p ts = mset (map (\<lambda>x. (now_ms p + te_timeout (te_of p x), node_entry x))
     (filter (\<lambda>x. te_type (te_of p x) = kTimerPermanent) ts))"

definition forget_once :: "poller \<Rightarrow> tnode list \<Rightarrow> (u64 \<Rightarrow> addr option) \<Rightarrow> u64 \<Rightarrow> addr option" where
  "forget_once p ts ids i =
     (if \<exists>x \<in> set ts. te_type (te_of p x) = kTimerOnce \<and> te_id (te_of p x) = i then None else ids i)"

lemma poller_te:
  assumes "poller_wf p" and "x \<in> set (timers p)"
  shows "cells (entries p) (node_entry x) = Some (te_of p x)"
    and "te_event (te_of p x) = At (ev_of p x)"
  using poller_wfD(7) [OF assms] by (auto simp: entry_ok_def te_of_def ev_of_def)

lemma poller_rearm:
  assumes wf: "poller_wf p" and x: "x \<in> set (timers p)"
  shows "poller_wf (poller_insert key (node_entry x) (p\<lparr>timers := mm_erase (node_id x) (timers p)\<rparr>))"
    (is "poller_wf ?p")
proof -
  note w = poller_wfD [OF wf]
  have st: "set (mm_erase (node_id x) (timers p)) = set (timers p) - {x}" by (rule set_mm_erase [OF x w(2)])
  let ?y = "\<lparr>node_id = next_node p, node_key = key, node_entry = node_entry x\<rparr>"
  have set: "set (timers ?p) = insert ?y (set (timers p) - {x})" by (simp add: poller_insert_def st)
  have im: "node_entry ` set (timers ?p) = node_entry ` set (timers p)" using x by (auto simp: set)
  have ev: "event_of ?p = event_of p" by (simp add: event_of_def poller_insert_def fun_eq_iff)
  show ?thesis
  proof (rule poller_wfI)
    show "sorted (map node_key (timers ?p))"
      using sorted_map_filter [OF w(1)] by (simp add: poller_insert_def mm_erase_def sorted_mm_insert)
    show "distinct (map node_id (timers ?p))"
      using distinct_map_filter [OF w(2)] w(6)
      by (fastforce simp: poller_insert_def distinct_mm_insert mm_erase_def)
    have "node_entry x \<notin> node_entry ` (set (timers p) - {x})"
      using w(3) x by (auto simp: distinct_map dest: inj_onD)
    then show "distinct (map node_entry (timers ?p))"
      using distinct_map_filter [OF w(3)] st
      by (simp add: poller_insert_def distinct_mm_insert) (simp add: mm_erase_def)
    show "heap_wf (entries ?p)" "heap_wf (events ?p)" using w by (simp_all add: poller_insert_def)
    show "node_id y < next_node ?p" if "y \<in> set (timers ?p)" for y
      using that w(6) [of y] unfolding set by (auto simp: poller_insert_def)
    show "entry_ok ?p y" if "y \<in> set (timers ?p)" for y
      using that w(7) [of y] w(7) [OF x] unfolding set by (auto simp: poller_insert_def entry_ok_def)
    show "inj_on (event_of ?p) (node_entry ` set (timers ?p))" unfolding im ev by (rule w(8))
    show "i \<le> max_timer_id ?p \<and> e \<in> node_entry ` set (timers ?p) \<and> (\<exists>te. cells (entries ?p) e = Some te \<and> te_id te = i)"
      if "timer_ids ?p i = Some e" for i e
      using that w(9) [of i e] unfolding im by (auto simp: poller_insert_def)
  qed
qed

lemma reap_node:
  assumes wf: "poller_wf p" and x: "x \<in> set (timers p)"
  shows "\<exists>p'. reap (node_id x) p = Inr p' \<and> poller_wf p' \<and> now_ms p' = now_ms p
    \<and> (\<forall>y \<in> set (timers p). y \<noteq> x \<longrightarrow> y \<in> set (timers p') \<and> te_of p' y = te_of p y)
    \<and> add_mset (node_key x, node_entry x) (pending_timers (timers p')) = pending_timers (timers p) + rearmed p [x]
    \<and> timer_ids p' = forget_once p [x] (timer_ids p)"
proof -
  note w = poller_wfD [OF wf]
  note te = poller_te [OF wf x]
  have st: "set (mm_erase (node_id x) (timers p)) = set (timers p) - {x}" by (rule set_mm_erase [OF x w(2)])
  have ms: "mset (timers p) = add_mset x (mset (mm_erase (node_id x) (timers p)))"
    by (rule mm_erase_mem [OF x w(2)])
  show ?thesis
  proof (cases "te_type (te_of p x)")
    case kTimerOnce
    obtain p' where p': "delete_entry (node_entry x) (p\<lparr>timers := mm_erase (node_id x) (timers p),
        timer_ids := (timer_ids p)(te_id (te_of p x) := None)\<rparr>) = Inr p'" "poller_wf p'"
      "timers p' = mm_erase (node_id x) (timers p)" "timer_ids p' = (timer_ids p)(te_id (te_of p x) := None)"
      "now_ms p' = now_ms p" "\<And>e. e \<noteq> node_entry x \<Longrightarrow> cells (entries p') e = cells (entries p) e"
      using poller_delete [OF wf x te(1)] by blast
    have "reap (node_id x) p = Inr p'"
      using kTimerOnce te mm_at_mem [OF w(2) x] p'(1) by (simp add: reap_def Let_def)
    moreover have "y \<in> set (timers p') \<and> te_of p' y = te_of p y" if "y \<in> set (timers p)" "y \<noteq> x" for y
    proof -
      have "node_entry y \<noteq> node_entry x" using that x w(3) by (auto simp: distinct_map dest: inj_onD)
      then show ?thesis using that p'(6) st by (simp add: p'(3) te_of_def)
    qed
    moreover have "timer_ids p' = forget_once p [x] (timer_ids p)"
      using kTimerOnce by (auto simp: forget_once_def p'(4))
    ultimately show ?thesis
      using p'(2,5) kTimerOnce ms by (auto simp: pending_timers_def rearmed_def p'(3))
  next
    case kTimerPermanent
    let ?key = "now_ms p + te_timeout (te_of p x)"
    define p' where "p' = poller_insert ?key (node_entry x) (p\<lparr>timers := mm_erase (node_id x) (timers p)\<rparr>)"
    have "reap (node_id x) p = Inr p'"
      using kTimerPermanent te mm_at_mem [OF w(2) x] by (simp add: reap_def Let_def p'_def)
    moreover have "poller_wf p'" unfolding p'_def by (rule poller_rearm [OF wf x])
    moreover have "timer_ids p' = forget_once p [x] (timer_ids p)"
      using kTimerPermanent by (auto simp: forget_once_def p'_def poller_insert_def)
    ultimately show ?thesis
      using kTimerPermanent ms st
      by (auto simp: pending_timers_def rearmed_def p'_def poller_insert_def te_of_def)
  qed
qed

lemma rearmed_cong:
  "\<forall>y \<in> set D. te_of q y = te_of p y \<Longrightarrow> now_ms q = now_ms p \<Longrightarrow> rearmed q D = rearmed p D"
  by (induction D) (auto simp: rearmed_def)

lemma reap_all_nodes:
  "poller_wf p \<Longrightarrow> distinct D \<Longrightarrow> set D \<subseteq> set (timers p)
    \<Longrightarrow> \<exists>p'. reap_all (map node_id D) p = Inr p' \<and> poller_wf p' \<and> now_ms p' = now_ms p
      \<and> pending_timers D + pending_timers (timers p') = pending_timers (timers p) + rearmed p D
      \<and> timer_ids p' = forget_once p D (timer_ids p)"
proof (induction D arbitrary: p)
  case Nil
  then show ?case by (auto simp: pending_timers_def rearmed_def forget_once_def)
next
  case (Cons x D)
  then have x: "x \<in> set (timers p)" "x \<notin> set D" by auto
  obtain p1 where p1: "reap (node_id x) p = Inr p1" "poller_wf p1" "now_ms p1 = now_ms p"
    "\<forall>y \<in> set (timers p). y \<noteq> x \<longrightarrow> y \<in> set (timers p1) \<and> te_of p1 y = te_of p y"
    "add_mset (node_key x, node_entry x) (pending_timers (timers p1)) = pending_timers (timers p) + rearmed p [x]"
    "timer_ids p1 = forget_once p [x] (timer_ids p)"
    using reap_node [OF Cons.prems(1) x(1)] by blast
  have sub: "\<forall>y \<in> set D. y \<in> set (timers p1) \<and> te_of p1 y = te_of p y"
    using Cons.prems(3) p1(4) x(2) by auto
  then obtain p2 where p2: "reap_all (map node_id D) p1 = Inr p2" "poller_wf p2" "now_ms p2 = now_ms p1"
    "pending_timers D + pending_timers (timers p2) = pending_timers (timers p1) + rearmed p1 D"
    "timer_ids p2 = forget_once p1 D (timer_ids p1)"
    using Cons.IH [OF p1(2)] Cons.prems(2) by (meson distinct.simps(2) subsetI)
  have "rearmed p1 D = rearmed p D"
    using sub p1(3) by (intro rearmed_cong) auto
  moreover have "rearmed p (x # D) = rearmed p [x] + rearmed p D"
    by (auto simp: rearmed_def)
  moreover have "pending_timers (x # D) = add_mset (node_key x, node_entry x) (pending_timers D)"
    by (simp add: pending_timers_def)
  ultimately have "pending_timers (x # D) + pending_timers (timers p2) = pending_timers (timers p) + rearmed p (x # D)"
  proof -
    assume r: "rearmed p1 D = rearmed p D" "rearmed p (x # D) = rearmed p [x] + rearmed p D"
      "pending_timers (x # D) = add_mset (node_key x, node_entry x) (pending_timers D)"
    have "pending_timers (x # D) + pending_timers (timers p2)
      = add_mset (node_key x, node_entry x) (pending_timers D + pending_timers (timers p2))" by (simp add: r(3))
    also have "\<dots> = add_mset (node_key x, node_entry x) (pending_timers (timers p1)) + rearmed p D"
      by (simp add: p2(4) r(1))
    also have "\<dots> = pending_timers (timers p) + rearmed p (x # D)" by (simp add: p1(5) r(2))
    finally show ?thesis .
  qed
  moreover have "timer_ids p2 = forget_once p (x # D) (timer_ids p)"
    using p2(5) p1(6) sub by (auto simp: forget_once_def fun_eq_iff)
  ultimately show ?case using p1(1,3) p2(1,2,3) by simp
qed

text \<open>Callbacks that leave this poller alone act as \<open>f\<close> on the rest of the state.\<close>

definition inert :: "(addr \<Rightarrow> 'w \<times> poller \<Rightarrow> ('w \<times> poller) res) \<Rightarrow> (addr \<Rightarrow> 'w \<Rightarrow> 'w) \<Rightarrow> poller \<Rightarrow> bool" where
  "inert cb f p \<longleftrightarrow> (\<forall>ev w. cb ev (w, p) = Inr (f ev w, p))"

definition due :: "poller \<Rightarrow> tnode list \<Rightarrow> tnode list" where
  "due p ts = takeWhile (\<lambda>x. node_key x \<le> now_ms p) ts"

definition next_timeout :: "poller \<Rightarrow> tnode list \<Rightarrow> i32" where
  "next_timeout p ts = (case dropWhile (\<lambda>x. node_key x \<le> now_ms p) ts of
     [] \<Rightarrow> kDefaultTimeout | x # _ \<Rightarrow> ucast (node_key x - now_ms p))"

lemma mm_next_in:
  assumes "distinct (map node_id (pre @ x # suf))"
  shows "mm_next (node_id x) (pre @ x # suf) = mm_begin suf"
proof -
  have "\<forall>y \<in> set pre. node_id y \<noteq> node_id x" using assms by (force simp: image_iff)
  then have "dropWhile (\<lambda>y. node_id y \<noteq> node_id x) (pre @ x # suf) = x # suf" by simp
  then show ?thesis by (simp add: mm_next_def)
qed

lemma fire_loop_inert:
  assumes wf: "poller_wf p" and cb: "inert cb f p"
  shows "timers p = pre @ suf \<Longrightarrow> fire_loop cb (mm_begin suf) fired (w, p)
    = Some (Inr (next_timeout p suf, fired @ map node_id (due p suf), fold f (map (ev_of p) (due p suf)) w, p))"
proof (induction suf arbitrary: pre fired w)
  case Nil
  then show ?case
    by (subst fire_loop.simps) (simp add: mm_begin_def next_timeout_def due_def)
next
  case (Cons x suf)
  note w = poller_wfD [OF wf]
  have x: "x \<in> set (timers p)" using Cons.prems by simp
  have at: "mm_at (node_id x) (timers p) = Inr x" by (rule mm_at_mem [OF w(2) x])
  have nx: "mm_next (node_id x) (timers p) = mm_begin suf" using mm_next_in w(2) Cons.prems by metis
  note te = poller_te [OF wf x]
  show ?case
  proof (cases "node_key x \<le> now_ms p")
    case True
    then show ?thesis
      using at nx te cb Cons.IH [of "pre @ [x]" "fired @ [node_id x]" "f (ev_of p x) w"] Cons.prems
      by (subst fire_loop.simps) (simp add: mm_begin_def inert_def due_def next_timeout_def not_less)
  next
    case False
    then show ?thesis
      using at by (subst fire_loop.simps) (simp add: mm_begin_def due_def next_timeout_def not_less)
  qed
qed

lemma execute_inert:
  assumes wf: "poller_wf p" and cb: "inert cb f p"
  shows "\<exists>p'. executeTimers cb (w, p) = Inr (next_timeout p (timers p), fold f (map (ev_of p) (due p (timers p))) w, p')
    \<and> poller_wf p'
    \<and> pending_timers (due p (timers p)) + pending_timers (timers p') = pending_timers (timers p) + rearmed p (due p (timers p))
    \<and> timer_ids p' = forget_once p (due p (timers p)) (timer_ids p)"
proof (cases "timers p = []")
  case True
  then show ?thesis
    using wf by (auto simp: executeTimers_def next_timeout_def due_def rearmed_def forget_once_def
        pending_timers_def fun_eq_iff)
next
  case False
  let ?D = "due p (timers p)"
  have "distinct (timers p)" using poller_wfD(2) [OF wf] by (simp add: distinct_map)
  then have D: "distinct ?D" "set ?D \<subseteq> set (timers p)"
    by (auto simp: due_def distinct_takeWhile dest: set_takeWhileD)
  obtain p' where p': "reap_all (map node_id ?D) p = Inr p'" "poller_wf p'"
    "pending_timers ?D + pending_timers (timers p') = pending_timers (timers p) + rearmed p ?D"
    "timer_ids p' = forget_once p ?D (timer_ids p)"
    using reap_all_nodes [OF wf D] by blast
  have "fire_loop cb (mm_begin (timers p)) [] (w, p)
    = Some (Inr (next_timeout p (timers p), map node_id ?D, fold f (map (ev_of p) ?D) w, p))"
    using fire_loop_inert [OF wf cb, of "[]" "timers p" "[]" w] by simp
  then show ?thesis using p' False by (simp add: executeTimers_def)
qed

section \<open>Properties\<close>

text \<open>
  C12. One turn of the event loop fires exactly the timers whose time has come, in the order of
  their expiry, each once; a one-shot timer is then gone with its id, a permanent one is due
  again one period after now; the timeout handed to \<open>Poll\<close> is the time to the next timer, or the
  default; nothing faults and the poller stays well-formed. (For callbacks that leave the poller
  alone.)
\<close>
theorem timers_fire_when_due:
  assumes "poller_wf (p\<lparr>now_ms := now\<rparr>)" and "inert cb f (p\<lparr>now_ms := now\<rparr>)"
  shows "\<exists>p'. Dispatch now cb poll (w, p)
      = poll (next_timeout (p\<lparr>now_ms := now\<rparr>) (timers p))
          (fold f (map (ev_of p) (due (p\<lparr>now_ms := now\<rparr>) (timers p))) w, p')
    \<and> poller_wf p'
    \<and> pending_timers (due (p\<lparr>now_ms := now\<rparr>) (timers p)) + pending_timers (timers p')
        = pending_timers (timers p) + rearmed (p\<lparr>now_ms := now\<rparr>) (due (p\<lparr>now_ms := now\<rparr>) (timers p))
    \<and> timer_ids p' = forget_once p (due (p\<lparr>now_ms := now\<rparr>) (timers p)) (timer_ids p)"
proof -
  let ?p = "p\<lparr>now_ms := now\<rparr>"
  have e: "ev_of ?p = ev_of p" by (simp add: ev_of_def te_of_def fun_eq_iff)
  have g: "forget_once ?p = forget_once p" by (simp add: forget_once_def te_of_def fun_eq_iff)
  from execute_inert [OF assms, of w] show ?thesis by (auto simp: Dispatch_def e g)
qed

text \<open>
  C23. \<open>AddTimer\<close> on an event no timer owns keeps the poller well-formed, returns an id that was
  not in use, and \<open>CancelTimer\<close> of that id undoes it: the same timers are pending as before, the
  id is forgotten, and the event, which the timer owned, is deleted.
\<close>
theorem add_then_cancel_timer:
  assumes wf: "poller_wf p" and ev: "a \<in> dom (cells (events p))"
    and free: "\<And>x. x \<in> set (timers p) \<Longrightarrow> event_of p (node_entry x) \<noteq> Some (At a)"
    and ovf: "max_timer_id p \<noteq> -1"
  shows "\<exists>i q r. AddTimer current timeout (At a) t p = Inr (i, q) \<and> poller_wf q \<and> timer_ids p i = None
    \<and> CancelTimer i q = Inr r \<and> poller_wf r \<and> timers r = timers p \<and> timer_ids r = timer_ids p
    \<and> cells (events r) a = None"
proof -
  let ?i = "max_timer_id p + 1"
  obtain q e where q: "AddTimer current timeout (At a) t p = Inr (?i, q)" "poller_wf q"
    "timers q = mm_insert \<lparr>node_id = next_node p, node_key = current + scast timeout, node_entry = e\<rparr> (timers p)"
    "timer_ids q = (timer_ids p)(?i \<mapsto> e)" "timer_ids p ?i = None"
    and te: "cells (entries q) e = Some \<lparr>te_timeout = scast timeout, te_expire = current + scast timeout,
      te_event = At a, te_id = ?i, te_type = t\<rparr>"
    using poller_add [OF assms, of current timeout t] by blast
  let ?x = "\<lparr>node_id = next_node p, node_key = current + scast timeout, node_entry = e\<rparr>"
  have "timer_ids q ?i = Some (node_entry ?x)" "?x \<in> set (timers q)" "cells (entries q) (node_entry ?x) = Some \<lparr>te_timeout = scast timeout, te_expire = current + scast timeout,
      te_event = At a, te_id = ?i, te_type = t\<rparr>" using q te by simp_all
  from poller_cancel [OF q(2) this] obtain r where r: "CancelTimer ?i q = Inr r" "poller_wf r"
    "timers r = mm_erase (next_node p) (timers q)" "timer_ids r = (timer_ids q)(?i := None)" "cells (events r) a = None"
    by auto
  have "\<forall>x \<in> set (timers p). node_id x \<noteq> next_node p" using poller_wfD(6) [OF wf] by fastforce
  then have f: "filter (\<lambda>y. node_id y \<noteq> next_node p) (takeWhile P (timers p)) = takeWhile P (timers p)"
    "filter (\<lambda>y. node_id y \<noteq> next_node p) (dropWhile P (timers p)) = dropWhile P (timers p)" for P
    by (auto intro!: filter_True dest: set_takeWhileD set_dropWhileD)
  have "mm_erase (next_node p) (timers q) = timers p" by (simp add: q(3) mm_insert_def mm_erase_def f)
  then show ?thesis using q r by (intro exI [of _ ?i] exI [of _ q] exI [of _ r]) auto
qed

text \<open>A poller with one event, without an owner, and the same with a timer for it.\<close>

definition ex_poller :: poller where
  "ex_poller = poller_new (snd (heap_alloc event_new heap_empty))"

lemma ex_poller_wf: "poller_wf ex_poller"
proof -
  have "heap_wf (snd (heap_alloc event_new heap_empty))"
    using heap_wf_alloc [OF heap_wf_empty] by (metis prod.collapse)
  then show ?thesis by (simp add: ex_poller_def poller_new_def poller_wf_def)
qed

lemma ex_poller_event: "0 \<in> dom (cells (events ex_poller))"
  by (simp add: ex_poller_def poller_new_def heap_alloc_def heap_empty_def)

lemma ex_poller_no_timer: "timers ex_poller = []" "max_timer_id ex_poller = 0"
  by (simp_all add: ex_poller_def poller_new_def)

definition ex_armed :: poller where
  "ex_armed = (case AddTimer 1000 50 (At 0) kTimerPermanent ex_poller of Inl _ \<Rightarrow> ex_poller | Inr r \<Rightarrow> snd r)"

lemma ex_armed_wf: "poller_wf (ex_armed\<lparr>now_ms := 1100\<rparr>)"
proof -
  have "poller_wf ex_armed"
    using poller_add [OF ex_poller_wf ex_poller_event, of 1000 50 kTimerPermanent]
    by (auto simp: ex_armed_def ex_poller_no_timer ex_poller_wf split: sum.splits)
  moreover have "event_of (ex_armed\<lparr>now_ms := 1100\<rparr>) = event_of ex_armed" by (simp add: event_of_def fun_eq_iff)
  ultimately show ?thesis by (simp add: poller_wf_def entry_ok_def)
qed

theorem timers_fire_when_due_witness:
  "\<exists>p'. Dispatch 1100 (\<lambda>ev (w, p). Inr (w @ [ev], p)) (\<lambda>t s. Inr s) ([], ex_armed) = Inr ([0], p') \<and> poller_wf p'
    \<and> pending_timers (timers p') = {# (1150, 0) #}"
proof -
  have cb: "inert (\<lambda>ev (w, p). Inr (w @ [ev], p)) (\<lambda>ev w. w @ [ev]) (ex_armed\<lparr>now_ms := 1100\<rparr>)"
    by (simp add: inert_def)
  have ev: "map (ev_of ex_armed) (due (ex_armed\<lparr>now_ms := 1100\<rparr>) (timers ex_armed)) = [0]"
    and pend: "pending_timers (due (ex_armed\<lparr>now_ms := 1100\<rparr>) (timers ex_armed)) = {# (1050, 0) #}"
    "pending_timers (timers ex_armed) = {# (1050, 0) #}"
    "rearmed (ex_armed\<lparr>now_ms := 1100\<rparr>) (due (ex_armed\<lparr>now_ms := 1100\<rparr>) (timers ex_armed)) = {# (1150, 0) #}"
    by (simp_all add: ex_armed_def ex_poller_def poller_new_def AddTimer_def heap_alloc_def heap_empty_def
        poller_insert_def mm_insert_def Let_def due_def ev_of_def te_of_def pending_timers_def rearmed_def
        ptr_upd_def heap_put_def heap_get_def)
  show ?thesis
    using timers_fire_when_due [OF ex_armed_wf cb, of "\<lambda>t s. Inr s" "[]"] unfolding ev pend by auto
qed

theorem add_then_cancel_timer_witness:
  "\<exists>i q r. AddTimer 1000 50 (At 0) kTimerOnce ex_poller = Inr (i, q) \<and> poller_wf q \<and> timer_ids ex_poller i = None
    \<and> CancelTimer i q = Inr r \<and> poller_wf r \<and> timers r = timers ex_poller
    \<and> timer_ids r = timer_ids ex_poller \<and> cells (events r) 0 = None"
  by (rule add_then_cancel_timer [OF ex_poller_wf ex_poller_event]) (simp_all add: ex_poller_no_timer)

text \<open>
  C31. The entry of a permanent timer keeps the expiry of its first period while its node moves on.
  Cancelling such a timer, when another timer of the poller now has its place, unlinks the node of
  that other timer; the entry and event of the cancelled timer are freed with its own node still
  in the multimap, and the next turn of the loop uses the freed entry.
\<close>
theorem cancel_after_refire_dangles:
  fixes cb :: "addr \<Rightarrow> 'w \<times> poller \<Rightarrow> ('w \<times> poller) res"
  assumes wf: "poller_wf p" and ts: "timers p = [y, x]" and i: "timer_ids p i = Some (node_entry x)"
    and te: "cells (entries p) (node_entry x) = Some te"
    and old: "te_expire te < node_key y" and later: "node_key x \<le> now"
  shows "\<exists>r. CancelTimer i p = Inr r \<and> timers r = [x] \<and> cells (entries r) (node_entry x) = None
    \<and> cells (entries r) (node_entry y) \<noteq> None
    \<and> Dispatch now cb poll (w, r) = Inl Wild_Access"
proof -
  note v = poller_wfD [OF wf]
  have x: "x \<in> set (timers p)" and y: "y \<in> set (timers p)" by (simp_all add: ts)
  have idx: "te_id te = i" using v(9) [OF i] te by simp
  have n: "node_id y \<noteq> node_id x" "node_entry y \<noteq> node_entry x" using v(2,3) ts by auto
  obtain ev where ev: "te_event te = At ev" "ev \<in> dom (cells (events p))"
    using v(7) [OF x] te by (auto simp: entry_ok_def)
  then obtain e where e: "cells (events p) ev = Some e" by blast
  obtain evs where evs: "heap_free ev (events p) = Inr evs" using heap_free_ok [OF v(5) e] by blast
  obtain ens where ens: "heap_free (node_entry x) (entries p) = Inr ens" "cells ens = (cells (entries p))(node_entry x := None)"
    using heap_free_ok [OF v(4) te] by blast
  define r where "r = p\<lparr>timers := [x], timer_ids := (timer_ids p)(i := None), entries := ens, events := evs\<rparr>"
  have le: "\<not> node_key y < te_expire te" using old by simp
  have run: "CancelTimer i p = Inr r"
    using i te old le n evs ens(1) ev(1)
    by (simp add: CancelTimer_def ts mm_erase_def delete_entry_def r_def)
  have "cells (entries p) (node_entry y) \<noteq> None" using v(7) [OF y] by (auto simp: entry_ok_def)
  moreover have "Dispatch now cb poll (w, r) = Inl Wild_Access"
    using leD [OF later]
    by (simp add: Dispatch_def executeTimers_def r_def ens fire_loop.simps mm_begin_def mm_at_def heap_get_def)
  ultimately show ?thesis using run n by (intro exI [of _ r]) (simp add: r_def ens)
qed

text \<open>Two timers, the permanent one of which has fired once.\<close>

definition ex_refired :: poller where
  "ex_refired = \<lparr>timers = [\<lparr>node_id = 1, node_key = 1070, node_entry = 1\<rparr>, \<lparr>node_id = 2, node_key = 1110, node_entry = 0\<rparr>],
     next_node = 3, timer_ids = [1 \<mapsto> 0, 2 \<mapsto> 1], max_timer_id = 2, now_ms = 1060,
     entries = \<lparr>cells = [0 \<mapsto> \<lparr>te_timeout = 50, te_expire = 1050, te_event = At 0, te_id = 1, te_type = kTimerPermanent\<rparr>,
       1 \<mapsto> \<lparr>te_timeout = 70, te_expire = 1070, te_event = At 1, te_id = 2, te_type = kTimerOnce\<rparr>], avail = [], brk = 2\<rparr>,
     events = \<lparr>cells = [0 \<mapsto> \<lparr>ev_timer_id = 1\<rparr>, 1 \<mapsto> \<lparr>ev_timer_id = 2\<rparr>], avail = [], brk = 2\<rparr>\<rparr>"

text \<open>Such a state is reached by two calls of \<open>AddTimer\<close> and a turn of the loop.\<close>

lemma ex_refired_reached:
  "(case AddTimer 1000 50 (At 0) kTimerPermanent
       (poller_new \<lparr>cells = [0 \<mapsto> event_new, 1 \<mapsto> event_new], avail = [], brk = 2\<rparr>) of
     Inr (_, p) \<Rightarrow>
       (case AddTimer 1000 70 (At 1) kTimerOnce p of
          Inr (_, p) \<Rightarrow> Dispatch 1060 (\<lambda>ev s. Inr s) (\<lambda>t s. Inr s) ((), p) | Inl f \<Rightarrow> Inl f)
   | Inl f \<Rightarrow> Inl f) = Inr ((), ex_refired)"
  by (simp add: AddTimer_def poller_new_def event_new_def heap_alloc_def heap_empty_def poller_insert_def mm_insert_def
      Let_def ptr_upd_def heap_put_def heap_get_def event_set_timer_id_def Dispatch_def executeTimers_def
      fire_loop.simps mm_begin_def mm_at_def mm_next_def reap_def mm_erase_def ex_refired_def)

theorem cancel_after_refire_dangles_witness:
  "poller_wf ex_refired \<and> (\<exists>r. CancelTimer 1 ex_refired = Inr r
    \<and> Dispatch 1200 (\<lambda>ev s. Inr s) (\<lambda>t s. Inr s) ((), r) = Inl Wild_Access)"
proof -
  have wf: "poller_wf ex_refired"
    by (auto simp: poller_wf_def ex_refired_def entry_ok_def event_of_def heap_wf_def inj_on_def split: if_splits)
  let ?y = "\<lparr>node_id = 1, node_key = 1070, node_entry = 1\<rparr>" and ?x = "\<lparr>node_id = 2, node_key = 1110, node_entry = 0\<rparr>"
  have "\<exists>r. CancelTimer 1 ex_refired = Inr r \<and> timers r = [?x] \<and> cells (entries r) (node_entry ?x) = None
    \<and> cells (entries r) (node_entry ?y) \<noteq> None
    \<and> Dispatch 1200 (\<lambda>ev s. Inr s) (\<lambda>t s. Inr s) ((), r) = Inl Wild_Access"
    by (rule cancel_after_refire_dangles [OF wf]) (simp add: ex_refired_def)+
  with wf show ?thesis by blast
qed

end
