(* ===== verification/Log_Thread.thy ===== *)
theory Log_Thread
  imports Log Poller
begin

text \<open>
  \<open>src/base/log_thread.h\<close> and \<open>log_thread.cc\<close>: messages from all threads go to one of two lists under
  a mutex, and the \<open>Timeout\<close> of the log thread swaps the lists and writes the other one to the file.
  The model has a step for each part of \<open>Timeout\<close> that other threads can come between. The file is a
  record of what \<open>File\<close> (\<open>src/base/file.cc\<close>) does; a message is its text.
\<close>

section \<open>State\<close>

definition kUpdateTimeInterval :: i32 where "kUpdateTimeInterval = 100"
definition kFlushTimeInterval :: u64 where "kFlushTimeInterval = 500"

record 'f file_api =
  f_open :: "string \<Rightarrow> 'f"
  f_append :: "string \<Rightarrow> 'f \<Rightarrow> bool \<times> 'f"
  f_flush :: "'f \<Rightarrow> bool \<times> 'f"

text \<open>Where \<open>Timeout\<close> stands: not running, about to swap, at an iterator, past the loop, about to flush.\<close>

datatype timeout_pc = Idle | Swap | Iterate "addr list" | Clear | Flushing

text \<open>\<open>write_list_\<close> and \<open>read_list_\<close> are indices into \<open>log_list_\<close>.\<close>

record 'f log_thread =
  log_list :: "nat \<Rightarrow> addr list"
  write_list :: nat
  read_list :: nat
  write_index :: nat
  datas :: "string heap"
  last_flush_time :: u64
  log_file :: "'f option"
  file_path :: string
  timeout_pc :: timeout_pc

definition log_thread_new :: "'f log_thread" where
  "log_thread_new = \<lparr>log_list = (\<lambda>_. []), write_list = 0, read_list = 1, write_index = 0, datas = heap_empty,
     last_flush_time = 0, log_file = None, file_path = [], timeout_pc = Idle\<rparr>"

text \<open>\<open>Init\<close>; \<open>output\<close> makes the path of the file from the parts when it opens it.\<close>

definition log_thread_init :: "string \<Rightarrow> string \<Rightarrow> string \<Rightarrow> 'f log_thread \<Rightarrow> 'f log_thread" where
  "log_thread_init log_path app host s = s\<lparr>file_path := log_path @ ''/'' @ app @ ''-'' @ host @ ''.log''\<rparr>"

section \<open>Operations\<close>

text \<open>\<open>Send\<close>, which holds the mutex, of a new message.\<close>

definition log_send :: "string \<Rightarrow> 'f log_thread \<Rightarrow> 'f log_thread" where
  "log_send text s =
     (let (a, h) = heap_alloc text (datas s) in
      s\<lparr>datas := h, log_list := (log_list s)(write_list s := log_list s (write_list s) @ [a])\<rparr>)"

definition log_output :: "'f file_api \<Rightarrow> string \<Rightarrow> 'f log_thread \<Rightarrow> 'f log_thread" where
  "log_output F text s =
     (let f = (case log_file s of None \<Rightarrow> f_open F (file_path s) | Some f \<Rightarrow> f) in
      s\<lparr>log_file := Some (snd (f_append F text f))\<rparr>)"

definition log_flush :: "'f file_api \<Rightarrow> u64 \<Rightarrow> 'f log_thread \<Rightarrow> 'f log_thread" where
  "log_flush F current s =
     s\<lparr>log_file := (case log_file s of None \<Rightarrow> None | Some f \<Rightarrow> Some (snd (f_flush F f))), last_flush_time := current\<rparr>"

text \<open>The body of the loop of \<open>iterList\<close>.\<close>

definition output_data :: "'f file_api \<Rightarrow> addr \<Rightarrow> 'f log_thread \<Rightarrow> 'f log_thread res" where
  "output_data F a s =
     bindR (heap_get a (datas s)) (\<lambda>text.
     let s = log_output F text s in
     bindR (heap_free a (datas s)) (\<lambda>h. Inr (s\<lparr>datas := h\<rparr>)))"

fun output_all :: "'f file_api \<Rightarrow> addr list \<Rightarrow> 'f log_thread \<Rightarrow> 'f log_thread res" where
  "output_all F [] s = Inr s"
| "output_all F (a # as) s = bindR (output_data F a s) (output_all F as)"

definition iterList :: "'f file_api \<Rightarrow> nat \<Rightarrow> 'f log_thread \<Rightarrow> 'f log_thread res" where
  "iterList F l s = bindR (output_all F (log_list s l) s) (\<lambda>s. Inr (s\<lparr>log_list := (log_list s)(l := [])\<rparr>))"

text \<open>\<open>Flush (end)\<close>, which any thread can call.\<close>

definition log_thread_flush :: "'f file_api \<Rightarrow> u64 \<Rightarrow> bool \<Rightarrow> 'f log_thread \<Rightarrow> 'f log_thread res" where
  "log_thread_flush F current fin s =
     bindR (if fin then bindR (iterList F (read_list s) s) (\<lambda>s. iterList F (write_list s) s) else Inr s)
       (\<lambda>s. Inr (log_flush F current s))"

text \<open>The next part of \<open>Timeout\<close>.\<close>

definition timeout_step :: "'f file_api \<Rightarrow> u64 \<Rightarrow> 'f log_thread \<Rightarrow> 'f log_thread res" where
  "timeout_step F current s =
     (case timeout_pc s of
        Idle \<Rightarrow> Inr (s\<lparr>timeout_pc := if log_list s (read_list s) = [] then Swap else Iterate (log_list s (read_list s))\<rparr>)
      | Swap \<Rightarrow>
          let r = write_index s; w = (write_index s + 1) mod 2 in
          Inr (s\<lparr>read_list := r, write_index := w, write_list := w, timeout_pc := Iterate (log_list s r)\<rparr>)
      | Iterate [] \<Rightarrow> Inr (s\<lparr>timeout_pc := Clear\<rparr>)
      | Iterate (a # as) \<Rightarrow> bindR (output_data F a s) (\<lambda>s. Inr (s\<lparr>timeout_pc := Iterate as\<rparr>))
      | Clear \<Rightarrow> Inr (s\<lparr>log_list := (log_list s)(read_list s := []), timeout_pc := Flushing\<rparr>)
      | Flushing \<Rightarrow>
          Inr ((if current - last_flush_time s \<ge> kFlushTimeInterval then log_flush F current s else s)\<lparr>timeout_pc := Idle\<rparr>))"

text \<open>\<open>Timeout\<close> from where it stands to its return, and a complete call, when no other thread comes between.\<close>

partial_function (option) timeout_rest :: "'f file_api \<Rightarrow> u64 \<Rightarrow> 'f log_thread \<Rightarrow> 'f log_thread res option" where
  "timeout_rest F current s =
     (if timeout_pc s = Idle then Some (Inr s)
      else (case timeout_step F current s of Inl f \<Rightarrow> Some (Inl f) | Inr s \<Rightarrow> timeout_rest F current s))"

definition timeout_call :: "'f file_api \<Rightarrow> u64 \<Rightarrow> 'f log_thread \<Rightarrow> 'f log_thread res" where
  "timeout_call F current s = bindR (timeout_step F current s) (\<lambda>s. loopR (timeout_rest F current s))"

text \<open>The destructor; the file stays open.\<close>

definition log_thread_destroy :: "'f file_api \<Rightarrow> u64 \<Rightarrow> 'f log_thread \<Rightarrow> 'f log_thread res" where
  "log_thread_destroy F current s =
     bindR (iterList F (read_list s) s) (\<lambda>s. bindR (iterList F (write_list s) s) (\<lambda>s. Inr (log_flush F current s)))"

text \<open>
  \<open>~LogMessage\<close>: finish and send; the data belongs to the log thread from then on. A fatal message
  goes on writing to it all the same, asks for a flush and aborts the process. \<open>stack\<close> is what
  \<open>GetCallStack\<close> gives, \<open>s\<close> the state when the message is touched again.
\<close>

definition log_message_send :: "log_data \<Rightarrow> 'f log_thread \<Rightarrow> (addr \<times> log_data \<times> 'f log_thread) res" where
  "log_message_send d s =
     bindR (log_finish d) (\<lambda>d. Inr (fst (heap_alloc (log_slice d) (datas s)), d, log_send (log_slice d) s))"

definition log_message_fatal :: "'f file_api \<Rightarrow> u64 \<Rightarrow> string \<Rightarrow> addr \<Rightarrow> log_data \<Rightarrow> 'f log_thread \<Rightarrow> 'f log_thread res" where
  "log_message_fatal F current stack a d s =
     bindR (heap_get a (datas s)) (\<lambda>_.
     bindR (stream_put stack d) (\<lambda>d.
     bindR (heap_put a (log_slice d) (datas s)) (\<lambda>h.
     log_thread_flush F current True (s\<lparr>datas := h\<rparr>))))"

text \<open>The log thread may have written and deleted the message by then.\<close>

lemma fatal_stack_uses_deleted:
  "heap_get a (datas s) = Inl f \<Longrightarrow> log_message_fatal F current stack a d s = Inl f"
  by (simp add: log_message_fatal_def)

section \<open>Executions\<close>

text \<open>Any threads send, the log thread goes on; the list is what was sent so far.\<close>

inductive log_reach :: "'f file_api \<Rightarrow> string list \<Rightarrow> 'f log_thread \<Rightarrow> bool" for F where
  Start: "log_reach F [] (log_thread_init p a h log_thread_new)"
| Send: "log_reach F tr s \<Longrightarrow> log_reach F (tr @ [text]) (log_send text s)"
| Tick: "log_reach F tr s \<Longrightarrow> timeout_step F current s = Inr s' \<Longrightarrow> log_reach F tr s'"

text \<open>The messages still to be written, in the order of writing.\<close>

definition unwritten :: "'f log_thread \<Rightarrow> addr list" where
  "unwritten s =
     (case timeout_pc s of Iterate as \<Rightarrow> as | Clear \<Rightarrow> [] | Flushing \<Rightarrow> [] | _ \<Rightarrow> log_list s (read_list s))
     @ log_list s (write_list s)"

text \<open>A file that appends what it is given.\<close>

definition appends :: "'f file_api \<Rightarrow> ('f \<Rightarrow> string list) \<Rightarrow> bool" where
  "appends F cont \<longleftrightarrow> (\<forall>p. cont (f_open F p) = []) \<and> (\<forall>t f. cont (snd (f_append F t f)) = cont f @ [t])
     \<and> (\<forall>f. cont (snd (f_flush F f)) = cont f)"

definition written :: "('f \<Rightarrow> string list) \<Rightarrow> 'f log_thread \<Rightarrow> string list" where
  "written cont s = (case log_file s of None \<Rightarrow> [] | Some f \<Rightarrow> cont f)"

definition log_inv :: "('f \<Rightarrow> string list) \<Rightarrow> string list \<Rightarrow> 'f log_thread \<Rightarrow> bool" where
  "log_inv cont tr s \<longleftrightarrow>
     heap_wf (datas s) \<and> write_list s < 2 \<and> write_index s = write_list s \<and> read_list s = 1 - write_list s
     \<and> distinct (unwritten s) \<and> dom (cells (datas s)) = set (unwritten s)
     \<and> tr = written cont s @ map (\<lambda>a. the (cells (datas s) a)) (unwritten s)
     \<and> (timeout_pc s = Idle \<or> timeout_pc s = Swap \<or> timeout_pc s = Flushing \<longrightarrow> log_list s (read_list s) = [])"

lemma appends_output:
  "appends F cont \<Longrightarrow> written cont (log_output F t s) = written cont s @ [t]"
  by (auto simp: appends_def written_def log_output_def split: option.splits)

lemma log_output_sel [simp]:
  "datas (log_output F t s) = datas s" "log_list (log_output F t s) = log_list s"
  "timeout_pc (log_output F t s) = timeout_pc s" "write_list (log_output F t s) = write_list s"
  "read_list (log_output F t s) = read_list s" "write_index (log_output F t s) = write_index s"
  by (simp_all add: log_output_def Let_def)

lemma log_flush_sel [simp]:
  "datas (log_flush F c s) = datas s" "log_list (log_flush F c s) = log_list s"
  "timeout_pc (log_flush F c s) = timeout_pc s" "write_list (log_flush F c s) = write_list s"
  "read_list (log_flush F c s) = read_list s" "write_index (log_flush F c s) = write_index s"
  by (simp_all add: log_flush_def)

lemma appends_flush: "appends F cont \<Longrightarrow> written cont (log_flush F c s) = written cont s"
  by (auto simp: appends_def written_def log_flush_def split: option.splits)

lemma log_inv_index: "log_inv cont tr s \<Longrightarrow> read_list s \<noteq> write_list s \<and> write_list s < 2"
  by (auto simp: log_inv_def less_2_cases_iff)

lemma log_inv_start: "log_inv cont [] (log_thread_init p a h log_thread_new)"
  by (simp add: log_inv_def log_thread_init_def log_thread_new_def unwritten_def written_def heap_empty_def)
    (simp add: heap_wf_def)

lemma log_inv_send:
  assumes "log_inv cont tr s"
  shows "log_inv cont (tr @ [text]) (log_send text s)"
proof -
  obtain a h where a: "heap_alloc text (datas s) = (a, h)" by fastforce
  have wf: "heap_wf (datas s)" using assms by (simp add: log_inv_def)
  note h = heap_wf_alloc [OF wf a] heap_alloc_fresh [OF wf a] heap_alloc_cells [OF a]
  have na: "a \<notin> set (unwritten s)" using h(2) assms by (auto simp: log_inv_def)
  have u: "unwritten (log_send text s) = unwritten s @ [a]"
    using log_inv_index [OF assms] a by (simp add: log_send_def unwritten_def split: timeout_pc.splits)
  have m: "map (\<lambda>b. the (cells h b)) (unwritten s) = map (\<lambda>b. the (cells (datas s) b)) (unwritten s)"
    using na by (auto simp: h(3))
  have "datas (log_send text s) = h" "written cont (log_send text s) = written cont s"
    "timeout_pc (log_send text s) = timeout_pc s" "write_list (log_send text s) = write_list s"
    "write_index (log_send text s) = write_index s" "read_list (log_send text s) = read_list s"
    "log_list (log_send text s) (read_list s) = log_list s (read_list s)"
    using a log_inv_index [OF assms] by (simp_all add: log_send_def written_def)
  then show ?thesis using assms na h unfolding log_inv_def u by (elim conjE) (simp add: m)
qed

text \<open>One message is written and deleted.\<close>

lemma output_data_ok:
  assumes A: "appends F cont" and i: "heap_wf (datas s)" "a \<notin> set as" "dom (cells (datas s)) = insert a (set as)"
  shows "\<exists>s'. output_data F a s = Inr s' \<and> heap_wf (datas s') \<and> dom (cells (datas s')) = set as
    \<and> written cont s' = written cont s @ [the (cells (datas s) a)]
    \<and> map (\<lambda>b. the (cells (datas s') b)) as = map (\<lambda>b. the (cells (datas s) b)) as
    \<and> log_list s' = log_list s \<and> write_list s' = write_list s \<and> read_list s' = read_list s
    \<and> write_index s' = write_index s"
proof -
  obtain t where t: "cells (datas s) a = Some t" using i(3) by blast
  obtain h where h: "heap_free a (datas s) = Inr h" "heap_wf h" "cells h = (cells (datas s))(a := None)"
    using heap_free_ok [OF i(1) t] by blast
  have "output_data F a s = Inr ((log_output F t s)\<lparr>datas := h\<rparr>)" using t h(1) by (simp add: output_data_def Let_def)
  moreover have "written cont ((log_output F t s)\<lparr>datas := h\<rparr>) = written cont s @ [t]"
    using appends_output [OF A, of t s] by (simp add: written_def)
  ultimately show ?thesis using t h i(2,3) by auto
qed

lemma log_inv_tick:
  assumes A: "appends F cont" and inv: "log_inv cont tr s"
  shows "\<exists>s'. timeout_step F current s = Inr s' \<and> log_inv cont tr s'"
proof (cases "timeout_pc s")
  case Idle
  then show ?thesis using inv by (auto simp: timeout_step_def log_inv_def unwritten_def written_def)
next
  case Swap
  let ?s = "s\<lparr>read_list := write_list s, write_index := 1 - write_list s, write_list := 1 - write_list s,
    timeout_pc := Iterate (log_list s (write_list s))\<rparr>"
  have w: "write_list s < 2" "write_index s = write_list s" "read_list s = 1 - write_list s" "log_list s (read_list s) = []"
    using inv Swap unfolding log_inv_def by blast+
  have run: "timeout_step F current s = Inr ?s" using w(1,2) Swap by (auto simp: timeout_step_def Let_def less_2_cases_iff)
  have u: "unwritten ?s = unwritten s" "written cont ?s = written cont s"
    using w(3,4) Swap by (simp_all add: unwritten_def written_def)
  have "log_inv cont tr ?s" using inv w(1) unfolding log_inv_def u by (auto simp: less_2_cases_iff)
  then show ?thesis using run by blast
next
  case (Iterate as)
  show ?thesis
  proof (cases as)
    case Nil
    have u: "unwritten (s\<lparr>timeout_pc := Clear\<rparr>) = unwritten s" using Iterate Nil by (simp add: unwritten_def)
    have "log_inv cont tr (s\<lparr>timeout_pc := Clear\<rparr>)" using inv unfolding log_inv_def u by (simp add: written_def)
    then show ?thesis using Iterate Nil by (simp add: timeout_step_def)
  next
    case (Cons a as')
    let ?r = "as' @ log_list s (write_list s)"
    have u: "unwritten s = a # ?r" using Iterate Cons by (simp add: unwritten_def)
    have i: "heap_wf (datas s)" "a \<notin> set ?r" "dom (cells (datas s)) = insert a (set ?r)"
      using inv unfolding log_inv_def u by simp_all
    obtain s' where s': "output_data F a s = Inr s'" "heap_wf (datas s')" "dom (cells (datas s')) = set ?r"
      "written cont s' = written cont s @ [the (cells (datas s) a)]"
      "map (\<lambda>b. the (cells (datas s') b)) ?r = map (\<lambda>b. the (cells (datas s) b)) ?r"
      "log_list s' = log_list s" "write_list s' = write_list s" "read_list s' = read_list s" "write_index s' = write_index s"
      using output_data_ok [OF A i] by blast
    let ?s = "s'\<lparr>timeout_pc := Iterate as'\<rparr>"
    have u': "unwritten ?s = ?r" using s'(6,7) by (simp add: unwritten_def)
    have w: "written cont ?s = written cont s'" by (simp add: written_def)
    have "tr = written cont ?s @ map (\<lambda>b. the (cells (datas ?s) b)) (unwritten ?s)"
      unfolding u' w s'(4) using inv s'(5) unfolding log_inv_def u by simp
    then have "log_inv cont tr ?s"
      using inv s' unfolding log_inv_def u u' by simp
    then show ?thesis using s'(1) Iterate Cons by (simp add: timeout_step_def)
  qed
next
  case Clear
  then show ?thesis using inv log_inv_index [OF inv]
    by (simp add: timeout_step_def log_inv_def unwritten_def written_def)
next
  case Flushing
  have "written cont (log_flush F current s) = written cont s" by (rule appends_flush [OF A])
  then show ?thesis using inv Flushing
    by (auto simp: timeout_step_def log_inv_def unwritten_def written_def)
qed

lemma log_reach_inv: "log_reach F tr s \<Longrightarrow> appends F cont \<Longrightarrow> log_inv cont tr s"
proof (induction rule: log_reach.induct)
  case (Start p a h)
  then show ?case by (intro log_inv_start)
next
  case (Send tr s msg)
  then show ?case by (intro log_inv_send)
next
  case (Tick tr s current s')
  then show ?case using log_inv_tick [OF Tick.prems, of tr s current] by auto
qed

section \<open>Properties\<close>

text \<open>
  C16. Under every interleaving of messages from any threads with the parts of \<open>Timeout\<close>, no access
  is to a deleted message, and the file holds, in the order they were sent and once each, all the
  messages but those that are still in the lists, which hold exactly the rest. (For a file to which
  appending succeeds.)
\<close>

theorem log_lines_in_order:
  assumes "log_reach F tr s" and "appends F cont"
  shows "tr = written cont s @ map (\<lambda>a. the (cells (datas s) a)) (unwritten s)
    \<and> dom (cells (datas s)) = set (unwritten s) \<and> distinct (unwritten s)
    \<and> (\<exists>s'. timeout_step F current s = Inr s')"
  using log_reach_inv [OF assms] log_inv_tick [OF assms(2), of tr s current] by (auto simp: log_inv_def)

text \<open>\<open>Timeout\<close> when it runs to its end.\<close>

lemma rest_step:
  "timeout_pc s \<noteq> Idle \<Longrightarrow> timeout_step F c s = Inr s' \<Longrightarrow> timeout_rest F c s = timeout_rest F c s'"
  by (subst timeout_rest.simps) simp

lemma rest_idle: "timeout_pc s = Idle \<Longrightarrow> timeout_rest F c s = Some (Inr s)"
  by (subst timeout_rest.simps) simp

lemma finish_flush:
  assumes A: "appends F cont" and i: "log_inv cont tr s" and pc: "timeout_pc s = Flushing"
  shows "\<exists>s'. timeout_rest F c s = Some (Inr s') \<and> log_inv cont tr s' \<and> timeout_pc s' = Idle \<and> log_list s' = log_list s
    \<and> write_list s' = write_list s"
proof -
  let ?t = "(if c - last_flush_time s \<ge> kFlushTimeInterval then log_flush F c s else s)\<lparr>timeout_pc := Idle\<rparr>"
  have t: "timeout_step F c s = Inr ?t" using pc by (simp add: timeout_step_def)
  then have "timeout_rest F c s = Some (Inr ?t)" using rest_step [of s F c ?t] rest_idle [of ?t F c] pc by simp
  moreover have "log_inv cont tr ?t" using log_inv_tick [OF A i, of c] t by auto
  ultimately show ?thesis by (intro exI [of _ ?t]) simp
qed

lemma finish_clear:
  assumes A: "appends F cont" and i: "log_inv cont tr s" and pc: "timeout_pc s = Clear"
  shows "\<exists>s'. timeout_rest F c s = Some (Inr s') \<and> log_inv cont tr s' \<and> timeout_pc s' = Idle \<and> write_list s' = write_list s
    \<and> log_list s' (write_list s') = log_list s (write_list s)"
proof -
  let ?s = "s\<lparr>log_list := (log_list s)(read_list s := []), timeout_pc := Flushing\<rparr>"
  have t: "timeout_step F c s = Inr ?s" using pc by (simp add: timeout_step_def)
  then have "log_inv cont tr ?s" using log_inv_tick [OF A i, of c] by auto
  from finish_flush [OF A this, of c] obtain s' where "timeout_rest F c ?s = Some (Inr s')" "log_inv cont tr s'"
    "timeout_pc s' = Idle" "log_list s' = log_list ?s" "write_list s' = write_list s" by auto
  then show ?thesis using rest_step [OF _ t] pc log_inv_index [OF i] by (intro exI [of _ s']) simp
qed

lemma finish_iteration:
  assumes A: "appends F cont"
  shows "timeout_pc s = Iterate as \<Longrightarrow> log_inv cont tr s
    \<Longrightarrow> \<exists>s'. timeout_rest F c s = Some (Inr s') \<and> log_inv cont tr s' \<and> timeout_pc s' = Idle \<and> write_list s' = write_list s
      \<and> log_list s' (write_list s') = log_list s (write_list s)"
proof (induction as arbitrary: s)
  case Nil
  let ?s = "s\<lparr>timeout_pc := Clear\<rparr>"
  have t: "timeout_step F c s = Inr ?s" using Nil by (simp add: timeout_step_def)
  then have "log_inv cont tr ?s" using log_inv_tick [OF A Nil(2), of c] by auto
  from finish_clear [OF A this] show ?case using rest_step [OF _ t] Nil(1) by simp
next
  case (Cons a as)
  let ?r = "as @ log_list s (write_list s)"
  have u: "unwritten s = a # ?r" using Cons.prems(1) by (simp add: unwritten_def)
  have "heap_wf (datas s)" "a \<notin> set ?r" "dom (cells (datas s)) = insert a (set ?r)"
    using Cons.prems(2) unfolding log_inv_def u by simp_all
  from output_data_ok [OF A this] obtain s1 where s1: "output_data F a s = Inr s1"
    "log_list s1 = log_list s" "write_list s1 = write_list s" by blast
  let ?s = "s1\<lparr>timeout_pc := Iterate as\<rparr>"
  have t: "timeout_step F c s = Inr ?s" using s1(1) Cons.prems(1) by (simp add: timeout_step_def)
  then have "log_inv cont tr ?s" using log_inv_tick [OF A Cons.prems(2), of c] by auto
  with Cons.IH [of ?s] obtain s' where "timeout_rest F c ?s = Some (Inr s')" "log_inv cont tr s'" "timeout_pc s' = Idle"
    "write_list s' = write_list s" "log_list s' (write_list s') = log_list s (write_list s)"
    using s1(2,3) by auto
  then show ?case using rest_step [OF _ t] Cons.prems(1) by auto
qed

text \<open>The swap and what follows it.\<close>

lemma finish_swap:
  assumes A: "appends F cont" and i: "log_inv cont tr s" and pc: "timeout_pc s = Swap"
  shows "\<exists>s'. timeout_rest F c s = Some (Inr s') \<and> log_inv cont tr s' \<and> timeout_pc s' = Idle
    \<and> log_list s' (write_list s') = []"
proof -
  have w: "write_list s < 2" "write_index s = write_list s" "read_list s = 1 - write_list s" "log_list s (read_list s) = []"
    using i pc unfolding log_inv_def by blast+
  let ?v = "s\<lparr>read_list := write_list s, write_index := 1 - write_list s, write_list := 1 - write_list s,
    timeout_pc := Iterate (log_list s (write_list s))\<rparr>"
  have v: "timeout_step F c s = Inr ?v" using w(1,2) pc by (auto simp: timeout_step_def Let_def less_2_cases_iff)
  then have "log_inv cont tr ?v" using log_inv_tick [OF A i, of c] by auto
  from finish_iteration [OF A _ this, of "log_list s (write_list s)" c] obtain s' where
    "timeout_rest F c ?v = Some (Inr s')" "log_inv cont tr s'" "timeout_pc s' = Idle" "write_list s' = 1 - write_list s"
    "log_list s' (write_list s') = log_list s (1 - write_list s)" by auto
  then show ?thesis using rest_step [OF _ v] pc w(3,4) by (intro exI [of _ s']) simp
qed

lemma finish_timeout:
  assumes A: "appends F cont" and i: "log_inv cont tr s"
  shows "\<exists>s'. timeout_rest F c s = Some (Inr s') \<and> log_inv cont tr s' \<and> timeout_pc s' = Idle"
proof (cases "timeout_pc s")
  case Idle
  then show ?thesis using rest_idle i by blast
next
  case Swap
  then show ?thesis using finish_swap [OF A i] by blast
next
  case (Iterate as)
  then show ?thesis using finish_iteration [OF A _ i] by blast
next
  case Clear
  then show ?thesis using finish_clear [OF A i] by blast
next
  case Flushing
  then show ?thesis using finish_flush [OF A i] by blast
qed

text \<open>A call writes both lists: one is empty already.\<close>

lemma timeout_call_drains:
  assumes A: "appends F cont" and i: "log_inv cont tr s" and pc: "timeout_pc s = Idle"
  shows "\<exists>s'. timeout_call F c s = Inr s' \<and> timeout_pc s' = Idle \<and> written cont s' = tr \<and> log_list s' 0 = [] \<and> log_list s' 1 = []"
proof -
  have r: "log_list s (read_list s) = []" using i pc unfolding log_inv_def by blast
  let ?u = "s\<lparr>timeout_pc := Swap\<rparr>"
  have u: "timeout_step F c s = Inr ?u" using pc r by (simp add: timeout_step_def)
  then have "log_inv cont tr ?u" using log_inv_tick [OF A i, of c] by auto
  from finish_swap [OF A this, of c] obtain s' where
    s': "timeout_rest F c ?u = Some (Inr s')" "log_inv cont tr s'" "timeout_pc s' = Idle" "log_list s' (write_list s') = []" by auto
  have e: "log_list s' (read_list s') = []" using s'(2,3) unfolding log_inv_def by blast
  then have n: "unwritten s' = []" using s'(3,4) by (simp add: unwritten_def)
  have "read_list s' = 1 - write_list s'" "write_list s' < 2" using s'(2) unfolding log_inv_def by blast+
  then have "log_list s' 0 = [] \<and> log_list s' 1 = []" using e s'(4) by (auto simp: less_2_cases_iff)
  moreover have "written cont s' = tr" using s'(2) n unfolding log_inv_def by simp
  ultimately show ?thesis using u s'(1,3) by (simp add: timeout_call_def)
qed

text \<open>
  C17. When \<open>Timeout\<close> is called it returns, and when writes to the file succeed everything sent gets written: from every
  reachable state the end of the call that is running and one more call leave both lists empty and all messages sent in the
  file. (In the program as it stands \<open>Timeout\<close> is not called: its timer never comes due, since nothing starts the timer thread
  whose clock it is measured by. Other threads send nothing meanwhile.)
\<close>

theorem log_thread_drains:
  assumes "log_reach F tr s" and "appends F cont"
  shows "\<exists>s1 s2. timeout_rest F current s = Some (Inr s1) \<and> timeout_pc s1 = Idle \<and> timeout_call F current' s1 = Inr s2
    \<and> timeout_pc s2 = Idle \<and> written cont s2 = tr \<and> log_list s2 0 = [] \<and> log_list s2 1 = []"
proof -
  obtain s1 where "timeout_rest F current s = Some (Inr s1)" "log_inv cont tr s1" "timeout_pc s1 = Idle"
    using finish_timeout [OF assms(2) log_reach_inv [OF assms]] by blast
  then show ?thesis using timeout_call_drains [OF assms(2), of tr s1 current'] by blast
qed

lemma output_data_cells: "output_data F a s = Inr s' \<Longrightarrow>
    a \<in> dom (cells (datas s)) \<and> cells (datas s') = (cells (datas s))(a := None) \<and> log_list s' = log_list s
    \<and> write_list s' = write_list s"
  by (auto simp: output_data_def heap_free_def Let_def res_simps split: option.splits)

lemma output_data_fault: "output_data F a s = Inl f \<Longrightarrow> f = Wild_Access"
  by (auto simp: output_data_def heap_free_def heap_get_def Let_def split: option.splits)

lemma output_all_fault: "output_all F as s = Inl f \<Longrightarrow> f = Wild_Access"
  by (induction as arbitrary: s) (auto simp: bindR_def dest: output_data_fault split: sum.splits)

lemma output_all_ok: "output_all F as s = Inr s' \<Longrightarrow>
    distinct as \<and> set as \<subseteq> dom (cells (datas s)) \<and> log_list s' = log_list s \<and> write_list s' = write_list s
    \<and> dom (cells (datas s')) = dom (cells (datas s)) - set as"
proof (induction as arbitrary: s)
  case (Cons a as)
  then obtain s1 where s1: "output_data F a s = Inr s1" "output_all F as s1 = Inr s'" by (auto simp: res_simps)
  note c = output_data_cells [OF s1(1)]
  then have d: "dom (cells (datas s1)) = dom (cells (datas s)) - {a}" by simp
  note ih = Cons.IH [OF s1(2), unfolded d]
  have "distinct (a # as)" "set (a # as) \<subseteq> dom (cells (datas s))" using ih c by auto
  moreover have "dom (cells (datas s')) = dom (cells (datas s)) - set (a # as)" using ih by auto
  ultimately show ?case using ih c by simp
qed simp

text \<open>
  C37. A message at level FATAL calls \<open>Flush (true)\<close> on its own thread, without the mutex: whenever the
  log thread has written a message of its list and not yet cleared the list, that uses a deleted
  message, whether or not its memory has been given to a new one.
\<close>

theorem fatal_flush_uses_deleted:
  assumes "log_reach F tr s" and "appends F cont"
    and "timeout_pc s = Iterate as" and "log_list s (read_list s) = a # gone @ as"
  shows "log_thread_flush F current True s = Inl Wild_Access"
proof (cases "bindR (iterList F (read_list s) s) (\<lambda>s. iterList F (write_list s) s)")
  case (Inl f)
  then have "f = Wild_Access" by (auto simp: bindR_def iterList_def dest: output_all_fault split: sum.splits)
  then show ?thesis using Inl by (simp add: log_thread_flush_def)
next
  case (Inr s2)
  have inv: "log_inv cont tr s" by (rule log_reach_inv [OF assms(1,2)])
  have dom: "dom (cells (datas s)) = set as \<union> set (log_list s (write_list s))" "read_list s \<noteq> write_list s"
    using inv log_inv_index [OF inv] assms(3) by (simp_all add: log_inv_def unwritten_def)
  from Inr obtain s1 where s1: "output_all F (a # gone @ as) s = Inr s1"
    "iterList F (write_list s1) (s1\<lparr>log_list := (log_list s1)(read_list s := [])\<rparr>) = Inr s2"
    by (auto simp: iterList_def assms(4) res_simps)
  note o1 = output_all_ok [OF s1(1)]
  have "a \<in> set (log_list s (write_list s))" using o1 dom(1) by auto
  moreover have "\<exists>s3. output_all F (log_list s (write_list s)) (s1\<lparr>log_list := (log_list s1)(read_list s := [])\<rparr>) = Inr s3"
    using s1(2) o1 dom(2) by (auto simp: iterList_def res_simps)
  then have "set (log_list s (write_list s)) \<subseteq> dom (cells (datas s1))" using output_all_ok by fastforce
  ultimately show ?thesis using o1 by auto
qed

section \<open>Witnesses\<close>

definition list_file :: "string list file_api" where
  "list_file = \<lparr>f_open = (\<lambda>_. []), f_append = (\<lambda>t f. (True, f @ [t])), f_flush = (\<lambda>f. (True, f))\<rparr>"

lemma list_file_appends: "appends list_file (\<lambda>f. f)"
  by (simp add: appends_def list_file_def)

text \<open>Three messages; the log thread has written the first, the third arrives.\<close>

definition demo_start :: "string list log_thread" where
  "demo_start = log_send ''b'' (log_send ''a'' (log_thread_init ''/tmp/'' ''app'' ''host'' log_thread_new))"

fun demo_ticks :: "nat \<Rightarrow> string list log_thread \<Rightarrow> string list log_thread res" where
  "demo_ticks 0 s = Inr s"
| "demo_ticks (Suc n) s = bindR (timeout_step list_file 0 s) (demo_ticks n)"

lemma demo_ticks_reach: "log_reach list_file tr s \<Longrightarrow> demo_ticks n s = Inr t \<Longrightarrow> log_reach list_file tr t"
  by (induction n arbitrary: s) (auto simp: res_simps intro: log_reach.Tick)

lemma demo_run: "\<exists>s. log_reach list_file [''a'', ''b'', ''c''] s \<and> timeout_pc s = Iterate [1] \<and> log_list s (read_list s) = 0 # [] @ [1]
    \<and> log_list s (write_list s) = [0] \<and> cells (datas s) 0 = Some ''c'' \<and> cells (datas s) 1 = Some ''b''
    \<and> log_file s = Some [''a'']"
proof -
  have "log_reach list_file ([] @ [''a'']) (log_send ''a'' (log_thread_init ''/tmp/'' ''app'' ''host'' log_thread_new))"
    by (rule log_reach.Send, rule log_reach.Start)
  then have r: "log_reach list_file (([] @ [''a'']) @ [''b'']) demo_start" unfolding demo_start_def by (rule log_reach.Send)
  obtain s where s: "demo_ticks 3 demo_start = Inr s" "timeout_pc s = Iterate [1]" "log_list s (read_list s) = [0, 1]"
    "write_list s = 1" "read_list s = 0" "log_list s 1 = []" "cells (datas s) 1 = Some ''b''" "avail (datas s) = [0]" "log_file s = Some [''a'']"
    by (simp add: demo_start_def log_send_def log_thread_init_def log_thread_new_def heap_alloc_def heap_empty_def
        timeout_step_def output_data_def heap_free_def heap_get_def log_output_def list_file_def eval_nat_numeral)
  have "log_reach list_file ((([] @ [''a'']) @ [''b'']) @ [''c'']) (log_send ''c'' s)"
    by (rule log_reach.Send, rule demo_ticks_reach [OF r s(1)])
  then show ?thesis
    using s by (intro exI [of _ "log_send ''c'' s"]) (simp add: log_send_def heap_alloc_def)
qed

theorem log_lines_in_order_witness:
  "\<exists>s. written (\<lambda>f. f) s = [''a''] \<and> unwritten s = [1, 0] \<and> map (\<lambda>a. the (cells (datas s) a)) (unwritten s) = [''b'', ''c'']
    \<and> (\<exists>s'. timeout_step list_file 7 s = Inr s')"
proof -
  obtain s where s: "log_reach list_file [''a'', ''b'', ''c''] s" "timeout_pc s = Iterate [1]" "log_list s (write_list s) = [0]"
    "log_file s = Some [''a'']" using demo_run by blast
  have u: "unwritten s = [1, 0]" "written (\<lambda>f. f) s = [''a'']" using s(2-4) by (simp_all add: unwritten_def written_def)
  from log_lines_in_order [OF s(1) list_file_appends, of 7] u show ?thesis
    by (intro exI [of _ s]) simp
qed

theorem log_thread_drains_witness:
  "\<exists>s s1 s2. log_file s = Some [''a''] \<and> timeout_rest list_file 0 s = Some (Inr s1) \<and> timeout_call list_file 0 s1 = Inr s2
    \<and> written (\<lambda>f. f) s2 = [''a'', ''b'', ''c'']"
  using demo_run log_thread_drains [OF _ list_file_appends] by blast

theorem fatal_flush_uses_deleted_witness:
  "\<exists>s. log_reach list_file [''a'', ''b'', ''c''] s \<and> log_thread_flush list_file 0 True s = Inl Wild_Access"
proof -
  obtain s where s: "log_reach list_file [''a'', ''b'', ''c''] s" "timeout_pc s = Iterate [1]" "log_list s (read_list s) = 0 # [] @ [1]"
    using demo_run by blast
  from fatal_flush_uses_deleted [OF s(1) list_file_appends s(2,3)] s(1) show ?thesis by blast
qed

end
