(* ===== verification/System.thy ===== *)
theory System
  imports Services Log_Thread
begin

text \<open>
  \<open>src/base/file.h\<close> and \<open>file.cc\<close>, \<open>src/util/system.cc\<close>, \<open>PopenToString\<close> of \<open>src/util/string.cc\<close>
  and \<open>ServerkitInit\<close> of \<open>src/serverkit.cc\<close>: what the log thread writes to, the call stack a fatal
  message adds, and how a server is set up. The system calls are records of functions.
\<close>

section \<open>Files\<close>

record 'k file_kernel =
  fk_open :: "string \<Rightarrow> ('k, int) call"
  fk_write :: "int \<Rightarrow> string \<Rightarrow> ('k, nat) call"
  fk_fsync :: "int \<Rightarrow> ('k, unit) call"
  fk_close :: "int \<Rightarrow> ('k, unit) call"

record os_file =
  file_fd :: int

definition file_new :: "'k file_kernel \<Rightarrow> string \<Rightarrow> 'k env \<Rightarrow> os_file \<times> 'k env" where
  "file_new K name s =
     (case syscall (fk_open K name) s of (None, s) \<Rightarrow> (\<lparr>file_fd = -1\<rparr>, s) | (Some fd, s) \<Rightarrow> (\<lparr>file_fd = fd\<rparr>, s))"

definition file_destroy :: "'k file_kernel \<Rightarrow> os_file \<Rightarrow> 'k env \<Rightarrow> 'k env" where
  "file_destroy K f s = snd (syscall (fk_close K (file_fd f)) s)"

text \<open>\<open>Append\<close>: how much \<open>write\<close> took is not looked at.\<close>

definition file_append :: "'k file_kernel \<Rightarrow> string \<Rightarrow> os_file \<Rightarrow> 'k env \<Rightarrow> bool \<times> 'k env" where
  "file_append K bs f s =
     (case syscall (fk_write K (file_fd f) bs) s of (None, s) \<Rightarrow> (False, s) | (Some _, s) \<Rightarrow> (True, s))"

definition file_sync :: "'k file_kernel \<Rightarrow> os_file \<Rightarrow> 'k env \<Rightarrow> bool \<times> 'k env" where
  "file_sync K f s =
     (case syscall (fk_fsync K (file_fd f)) s of (None, s) \<Rightarrow> (False, s) | (Some _, s) \<Rightarrow> (True, s))"

definition file_flush :: "'k file_kernel \<Rightarrow> os_file \<Rightarrow> 'k env \<Rightarrow> bool \<times> 'k env" where
  "file_flush K f s = file_sync K f s"

definition file_close :: "'k file_kernel \<Rightarrow> os_file \<Rightarrow> 'k env \<Rightarrow> bool \<times> os_file \<times> 'k env" where
  "file_close K f s =
     (case syscall (fk_close K (file_fd f)) s of
        (None, s) \<Rightarrow> (False, f, s) | (Some _, s) \<Rightarrow> (True, f\<lparr>file_fd := -1\<rparr>, s))"

text \<open>What the log thread uses of it; \<open>e\<close> is the state of the system when the file is opened.\<close>

definition file_api_of :: "'k file_kernel \<Rightarrow> 'k env \<Rightarrow> (os_file \<times> 'k env) file_api" where
  "file_api_of K e = \<lparr>f_open = (\<lambda>p. file_new K p e),
     f_append = (\<lambda>t (f, s). let (b, s) = file_append K t f s in (b, (f, s))),
     f_flush = (\<lambda>(f, s). let (b, s) = file_flush K f s in (b, (f, s)))\<rparr>"

text \<open>
  \<open>lines_of k\<close>: what was written to the log file. A system that writes all it is given makes the file of
  the log thread one that appends, the hypothesis of the properties of the log thread.
\<close>

definition whole_writes :: "'k file_kernel \<Rightarrow> ('k \<Rightarrow> string list) \<Rightarrow> 'k env \<Rightarrow> bool" where
  "whole_writes K lines_of e \<longleftrightarrow> lines_of (snd e) = []
     \<and> (\<forall>p k. lines_of (snd (fk_open K p k)) = lines_of k) \<and> (\<forall>fd k. lines_of (snd (fk_fsync K fd k)) = lines_of k)
     \<and> (\<forall>fd t k. lines_of (snd (fk_write K fd t k)) = lines_of k @ [t])"

lemma file_appends: "whole_writes K lines_of e \<Longrightarrow> appends (file_api_of K e) (\<lambda>(f, s). lines_of (snd s))"
  unfolding whole_writes_def appends_def file_api_of_def
  by (auto simp: file_new_def file_append_def file_flush_def file_sync_def syscall_def Let_def
      split: prod.splits sum.splits option.splits) (metis snd_conv)+

text \<open>When \<open>write\<close> takes less than it is given the rest is lost and the call counts as a success.\<close>

lemma short_append_succeeds:
  "fk_write K (file_fd f) bs (snd s) = (Inr n, k) \<Longrightarrow> file_append K bs f s = (True, fst s, k)"
  by (simp add: file_append_def syscall_def)

section \<open>Commands\<close>

text \<open>\<open>fgets\<close> into a buffer of \<open>n\<close> characters: what it reads and what is left.\<close>

definition fgets :: "nat \<Rightarrow> string \<Rightarrow> string \<times> string" where
  "fgets n s =
     (let line = takeWhile (\<lambda>c. c \<noteq> CHR 0x0A) s;
          k = min (n - 1) (if length line < length s then length line + 1 else length line)
      in (take k s, drop k s))"

text \<open>\<open>*result += buffer\<close> stops at the first \<open>'\0'\<close>.\<close>

function popen_loop :: "string \<Rightarrow> string \<Rightarrow> string" where
  "popen_loop out result =
     (if out = [] then result
      else let (chunk, out) = fgets 200 out in popen_loop out (result @ takeWhile (\<lambda>c. c \<noteq> CHR 0x00) chunk))"
  by pat_completeness auto
termination
  by (relation "measure (\<lambda>(out, _). length out)") (auto simp: fgets_def Let_def min_def split: if_splits)

declare popen_loop.simps [simp del]

definition PopenToString :: "(string \<Rightarrow> string option) \<Rightarrow> string \<Rightarrow> bool \<times> string" where
  "PopenToString popen command = (case popen command of None \<Rightarrow> (False, []) | Some out \<Rightarrow> (True, popen_loop out []))"

lemma popen_loop_all: "CHR 0x00 \<notin> set out \<Longrightarrow> popen_loop out result = result @ out"
proof (induction out result rule: popen_loop.induct)
  case (1 out result)
  show ?case
  proof (cases "out = []")
    case True
    then show ?thesis by (simp add: popen_loop.simps)
  next
    case False
    obtain chunk rest where f: "fgets 200 out = (chunk, rest)" by fastforce
    then have o: "out = chunk @ rest" by (auto simp: fgets_def Let_def)
    then have tw: "takeWhile (\<lambda>c. c \<noteq> CHR 0x00) chunk = chunk" using 1(2) by (auto simp: takeWhile_eq_all_conv)
    have "popen_loop out result = popen_loop rest (result @ takeWhile (\<lambda>c. c \<noteq> CHR 0x00) chunk)"
      using False f by (subst popen_loop.simps) simp
    moreover have "CHR 0x00 \<notin> set rest" using 1(2) o by simp
    ultimately show ?thesis using 1(1) [OF False f [symmetric] refl] o unfolding tw by simp
  qed
qed

text \<open>The whole output of the command, however its lines lie in the buffer.\<close>

lemma popen_gives_output: "popen command = Some out \<Longrightarrow> CHR 0x00 \<notin> set out \<Longrightarrow> PopenToString popen command = (True, out)"
  by (simp add: PopenToString_def popen_loop_all)

section \<open>Host name and call stack\<close>

definition kMaxCallStack :: nat where "kMaxCallStack = 50"

text \<open>\<open>uname\<close> gives the name or fails.\<close>

definition once_misc_run :: "string option \<Rightarrow> string" where
  "once_misc_run node = (case node of None \<Rightarrow> ''(unknown host)'' | Some n \<Rightarrow> n)"

text \<open>
  What \<open>GetCallStack\<close> asks for: the return addresses on the stack as \<open>%p\<close> prints them, the link
  \<open>/proc/self/exe\<close>, the symbols of the addresses, and the output of a command.
\<close>

record stack_sys =
  ss_frames :: "string list"
  ss_readlink :: "nat \<Rightarrow> string option"
  ss_symbols :: "string list option"
  ss_popen :: "string \<Rightarrow> string option"

fun symbol_lines :: "nat \<Rightarrow> nat \<Rightarrow> string list \<Rightarrow> string \<Rightarrow> string res" where
  "symbol_lines level i [] result = Inr result"
| "symbol_lines level i (x # xs) result =
     bindR (StringAppendf (c99 (''  ['' @ fmt_zero 3 (int level - int i) @ '']  '' @ x @ [CHR 0x0A])) result)
       (symbol_lines level (i + 1) xs)"

text \<open>One turn per address, but for the last two; \<open>tmp[pos]\<close> needs a newline to be there.\<close>

fun addr2line_lines :: "stack_sys \<Rightarrow> string \<Rightarrow> nat \<Rightarrow> nat \<Rightarrow> string list \<Rightarrow> string \<Rightarrow> (bool \<times> string) res" where
  "addr2line_lines S cmd level i [] result = Inr (True, result)"
| "addr2line_lines S cmd level i (x # xs) result =
     (let command = cmd @ '' '' @ take (1024 - length cmd - 2) ('' '' @ x);
          (ok, tmp) = PopenToString (ss_popen S) command
      in if \<not> ok then Inr (False, result)
         else
           let pos = length (takeWhile (\<lambda>c. c \<noteq> CHR 0x0A) tmp) in
           bindR (guardR (pos < length tmp) Out_Of_Bounds) (\<lambda>_.
           bindR (StringAppendf (c99 (''  ['' @ fmt_zero 3 (int level - int i - 2) @ '']  '' @ tmp[pos := CHR '' ''])) result)
             (addr2line_lines S cmd level (i + 1) xs)))"

text \<open>\<open>backtrace (buffer, sizeof (buffer))\<close> stores up to 400 addresses into an array of 50.\<close>

definition GetCallStack :: "stack_sys \<Rightarrow> string res" where
  "GetCallStack S =
     (let frames = take (8 * kMaxCallStack) (ss_frames S); level = length frames in
      bindR (guardR (level \<le> kMaxCallStack) Out_Of_Bounds) (\<lambda>_.
      if level < 2 then Inr []
      else
        let cmd = ''addr2line -Cif -e '';
            result = CHR 0x0A # ''@========Stack Frame:========@'' @ [CHR 0x0A];
            last = ''@========End Of Stack Frame========@'' @ [CHR 0x0A]
        in case ss_readlink S (1024 - length cmd - 1) of
             None \<Rightarrow>
               (case ss_symbols S of
                  None \<Rightarrow> Inr result
                | Some syms \<Rightarrow> bindR (symbol_lines level 0 syms result) (\<lambda>r. Inr (r @ last)))
           | Some path \<Rightarrow>
               let cmd = cmd @ takeWhile (\<lambda>c. c \<noteq> CHR 0x00) path in
               bindR (guardR (length cmd < 1023) Out_Of_Bounds) (\<lambda>_.
               bindR (addr2line_lines S cmd level 0 (take (level - 2) frames) result) (\<lambda>(ok, r).
               Inr (if ok then r @ last else r)))))"

lemma deep_stack_overflows: "kMaxCallStack < length (ss_frames S) \<Longrightarrow> GetCallStack S = Inl Out_Of_Bounds"
proof -
  assume "kMaxCallStack < length (ss_frames S)"
  then have "\<not> length (take (8 * kMaxCallStack) (ss_frames S)) \<le> kMaxCallStack" by (simp add: kMaxCallStack_def)
  then show ?thesis unfolding GetCallStack_def Let_def guardR_def by simp
qed

text \<open>\<open>addr2line\<close> fails for the first address: the header alone.\<close>

lemma call_stack_no_tool:
  assumes "2 < length (ss_frames S)" and "length (ss_frames S) \<le> kMaxCallStack" and "\<forall>n. ss_readlink S n = Some ''/bin/x''"
    and "\<forall>c. ss_popen S c = None"
  shows "GetCallStack S = Inr (CHR 0x0A # ''@========Stack Frame:========@'' @ [CHR 0x0A])"
proof -
  obtain x xs where "take (length (ss_frames S) - 2) (ss_frames S) = x # xs"
    using assms(1) by (cases "take (length (ss_frames S) - 2) (ss_frames S)") auto
  with assms show ?thesis
    by (simp add: GetCallStack_def kMaxCallStack_def Let_def guardR_def PopenToString_def)
qed

section \<open>Setting up\<close>

record serverkit_option =
  opt_log_path :: string
  worker_num :: int

definition serverkit_option_new :: serverkit_option where
  "serverkit_option_new = \<lparr>opt_log_path = ''/tmp/'', worker_num = 1\<rparr>"

text \<open>\<open>prog\<close> is the base name of the program, \<open>host\<close> what \<open>GetHostName\<close> gives.\<close>

definition ServerkitInit :: "'k kernel \<Rightarrow> 'k epoll_kernel \<Rightarrow> (nat \<Rightarrow> nat option) \<Rightarrow> string \<Rightarrow> string \<Rightarrow> serverkit_option
    \<Rightarrow> 'f log_thread \<times> 'k application \<Rightarrow> ('f log_thread \<times> 'k application) res" where
  "ServerkitInit K P tids prog host opt = (\<lambda>(L, a).
     let L = log_thread_init (opt_log_path opt) prog host L in
     bindR (app_init K P tids (worker_num opt) a) (\<lambda>a. Inr (L, a)))"

text \<open>The other functions of \<open>serverkit.cc\<close> are those of the one application.\<close>

definition serverkit_AddService :: "'k kernel \<Rightarrow> 'k epoll_kernel \<Rightarrow> endpoint \<Rightarrow> acceptor
    \<Rightarrow> 'f log_thread \<times> 'k application \<Rightarrow> ('f log_thread \<times> 'k application) res" where
  "serverkit_AddService K P ep h = (\<lambda>(L, a). bindR (AddService K P ep h a) (\<lambda>a. Inr (L, a)))"

definition serverkit_AddRpcService :: "'k kernel \<Rightarrow> 'k epoll_kernel \<Rightarrow> endpoint \<Rightarrow> nat \<Rightarrow> byte list list
    \<Rightarrow> 'f log_thread \<times> 'k application \<Rightarrow> ('f log_thread \<times> 'k application) res" where
  "serverkit_AddRpcService K P ep svc names = (\<lambda>(L, a). bindR (AddRpcService K P ep svc names a) (\<lambda>a. Inr (L, a)))"

definition serverkit_CreateRpcChannel :: "nat \<Rightarrow> nat \<Rightarrow> endpoint \<Rightarrow> nat
    \<Rightarrow> 'f log_thread \<times> 'k application \<Rightarrow> ('f log_thread \<times> 'k application) res" where
  "serverkit_CreateRpcChannel k d ep dn = (\<lambda>(L, a). bindR (CreateRpcChannel k d ep dn a) (\<lambda>a. Inr (L, a)))"

definition RunServer :: "('s \<Rightarrow> 's res) \<Rightarrow> 's \<Rightarrow> 's res option" where
  "RunServer dispatch = application_run dispatch"

text \<open>
  The rest of the constructor of \<open>LogThread\<close>: its poller is set up and given the timer, and the thread is started
  (\<open>True\<close>). When the poller cannot be set up it only returns: messages are then collected and never written.
\<close>

definition log_thread_start :: "'k epoll_kernel \<Rightarrow> u64 \<Rightarrow> ptr \<Rightarrow> poller \<times> epoll \<times> 'k env \<Rightarrow> (bool \<times> poller \<times> epoll \<times> 'k env) res" where
  "log_thread_start P current me = (\<lambda>(p, E, s).
     case epoll_init P 1024 (E, s) of (rc, E, s) \<Rightarrow>
       if rc \<noteq> kOK then Inr (False, p, E, s)
       else bindR (AddTimer current kUpdateTimeInterval me kTimerPermanent p) (\<lambda>(_, p). Inr (True, p, E, s)))"

lemma log_thread_not_started:
  "ke_create P k = (Inl e, k') \<Longrightarrow> \<exists>E'. log_thread_start P current me (p, E, (e0, k)) = Inr (False, p, E', (e, k'))"
  by (simp add: log_thread_start_def epoll_init_def syscall_def Let_def kOK_def kError_def)

text \<open>With the options left as they are there is one worker and it is ready.\<close>

lemma serverkit_init_ready:
  assumes "0 < d" and "d < 2 ^ 64 - 1" and "tids 0 \<noteq> None"
  shows "\<exists>a. ServerkitInit K P tids prog host serverkit_option_new (log_thread_new, application_new P e)
      = Inr (log_thread_init ''/tmp/'' prog host log_thread_new, a)
    \<and> length (workers a) = 1 \<and> mb_holds d (mailbox (workers a ! 0)) []"
proof -
  have new: "workers (application_new P e) = []" by (simp add: application_new_def split: prod.splits)
  obtain a where a: "app_init K P tids 1 (application_new P e) = Inr a" "length (workers a) = 1"
    "\<forall>w \<in> set (workers a). mb_holds d (mailbox w) []"
    using app_start_ready [OF assms(1,2), of "[0..<1]" tids "application_new P e" K P] new assms(3)
    by (auto simp: app_init_def)
  then show ?thesis by (simp add: ServerkitInit_def serverkit_option_new_def Let_def)
qed

end
