(* ===== verification/Spec2Isabelle.thy ===== *)
theory Spec2Isabelle
  imports Global_Id Threads Sync Delivery System
begin

text \<open>
  A verification library for libserverkit, a C++ kit for network servers (sources under
  \<open>src/src/{base,core,rpc,util}\<close>).

  \<^bold>\<open>The program.\<close> An \<open>Application\<close> listens on endpoints and runs an event loop (\<open>Poller\<close>, with timers, and
  its implementation \<open>Epoll\<close>). A \<open>Listener\<close> accepts connections, has its handler make a \<open>Session\<close> of each
  and sends it to one of the worker threads through the \<open>Mailbox\<close> of that \<open>Worker\<close>: a lock-free
  \<open>YPipe\<close> over a chunked \<open>YQueue\<close>, and a \<open>Signaler\<close> (an \<open>eventfd\<close>) that wakes the worker's own event loop.
  A \<open>Socket\<close> moves bytes between a descriptor and two \<open>BufferList\<close>s, lists of 4096-byte blocks from a
  per-thread \<open>ObjectList\<close>. On top, a \<open>PacketParser\<close> frames packets; an \<open>RpcChannel\<close> (client) and an
  \<open>RpcSession\<close> (server) match requests and responses by guid, and an \<open>RpcService\<close> finds methods by the
  hash of their name. Log messages are formatted into fixed buffers by any thread and written by a
  \<open>LogThread\<close>; a \<open>TimerThread\<close> caches the time.

  \<^bold>\<open>How it is modelled.\<close> One definition per operation, with the source's names where Isabelle allows
  them; a definition in lower case stands for a method of a class (\<open>bl_read\<close>: \<open>BufferList::Read\<close>). Machine integers are words, or integers
  wrapped to 32 bits where the code divides them (theory \<open>Clock\<close>). An operation returns
  \<open>Inr\<close> its results and new state, or \<open>Inl\<close> a fault: null, wild and uninitialised pointers, double
  frees, bounds, containers of an impossible length, failed asserts, division by zero, divergence (theory \<open>Prelude\<close>). \<open>new\<close> and \<open>delete\<close> act on a
  store with reuse of addresses (theory \<open>Heap\<close>), so that dangling pointers and aliasing are visible. Loops
  are recursive functions; one that may not end is a \<^theory_text>\<open>partial_function (option)\<close> and
  its \<open>None\<close> is the fault \<open>Diverges\<close>; no fuel is used, and where a property says that code returns,
  that is proved. Concurrent components are step relations with one step per access to shared
  state, under sequential consistency, or per part of a method that other threads can come between.
  The kernel, the file system, protobuf, callbacks and virtual methods are arguments: records of
  functions over an arbitrary state. What is assumed of them is stated in each property
  (\<open>stream_read\<close>, \<open>stream_write\<close>, \<open>stream_conn\<close>, \<open>roomy\<close>, \<open>interrupts\<close>, \<open>kernel_reports\<close>, \<open>polite\<close>,
  \<open>appends\<close>) and met in its witness.

  \<^bold>\<open>Theories.\<close>
    \<^item> \<open>Prelude\<close>, \<open>Heap\<close>: integer types, faults, results, the free store.
    \<^item> \<open>Object_Pool\<close> (\<open>base/object_pool.h\<close>), \<open>Byte_Queue\<close> (the interface of buffers as locales
      \<open>byte_source\<close>, \<open>byte_sink\<close>, \<open>byte_queue\<close>), \<open>Buffers\<close> (\<open>base/buffer.h\<close>, \<open>buffer.cc\<close>): the blocks of a list
      represent a byte string and every history of reads and writes is that of a queue; a recycled
      block keeps a stale link.
    \<^item> \<open>Bytes\<close>, \<open>Lookup8\<close> (\<open>util/lookup8.cc\<close>), \<open>Murmur\<close> (\<open>base/hash.cc\<close>), \<open>Global_Id\<close> (\<open>util/global_id.cc\<close>):
      little-endian loads, the hashes and their variants, injectivity of their steps, ids of a batch.
    \<^item> \<open>Packet_Parser\<close> (\<open>rpc/packet.h\<close>, \<open>packet_parser.cc\<close>): the parser as a state machine; round trip of packets under
      any fragmentation, over any byte queue; loss of step after a wrong magic number.
    \<^item> \<open>Yqueue\<close> (\<open>base/yqueue.h\<close>), \<open>Ypipe\<close> (\<open>base/ypipe.h\<close>), \<open>Mailbox\<close> (\<open>core/mailbox.cc\<close>, \<open>signaler.cc\<close>): the queue refines a list; the
      pipe refines an abstract pipe (\<open>pipe_rep\<close>) under every interleaving of one writer and one reader;
      the mailbox delivers in order and loses no wake-up when the signal has a proper value.
    \<^item> \<open>Errcode\<close>, \<open>Strings\<close> (\<open>util/string.cc\<close>, \<open>base/slice.h\<close>, \<open>endpoint.h\<close>), \<open>Net\<close> (\<open>base/net.cc\<close>): formatting, slices, endpoints, the
      socket calls with \<open>errno\<close> and all their error paths.
    \<^item> \<open>Poller\<close> (\<open>core/poller.cc\<close>, \<open>event.h\<close>), \<open>Epoll\<close> (\<open>core/epoll.cc\<close>): timers in a multimap with iterators as
      positions; handles, the lists of retired and writeable entries, the vector of reported events with its capacity and
      allocation, callbacks that add, mark and delete; the loops of \<open>Poll\<close> refine a list of calls (\<open>run_calls\<close>).
    \<^item> \<open>Sockets\<close> (\<open>core/socket.cc\<close>): \<open>In\<close>, \<open>Out\<close>, \<open>Write\<close>, \<open>Connect\<close>, closing, on the buffers, the kernel and the poller.
    \<^item> \<open>Rpc\<close> (\<open>rpc/*\<close>): controllers, contexts, services, channels and sessions; a channel refines an
      abstract table of open calls, a session a function from requests to responses; end to end, the
      calls made are answered. The locale \<open>duplex\<close> is what both need of a socket, interpreted on \<open>Sockets\<close>.
    \<^item> \<open>Server\<close> (\<open>OnAccept\<close> of \<open>rpc/rpc_service.cc\<close>, \<open>core/session.h\<close>): a session as the handler of its own socket, over any
      sequence of calls of \<open>In\<close> and \<open>Out\<close>, with requests cut anywhere; \<open>duplex\<close> once more, with what a connection keeps.
    \<^item> \<open>Client\<close> (\<open>rpc/rpc_channel.cc\<close>): a channel as the handler of its own socket, with calls before, while and after the
      connection is set up. \<open>Delivery\<close>: such a channel, the session that serves it and a network that delivers in
      pieces, as one step relation; calls get their own answers, once each, and \<open>Out\<close> and \<open>In\<close> of both ends complete them.
    \<^item> \<open>Clock\<close> (\<open>util/time.cc\<close>, \<open>core/timer_thread.cc\<close>), \<open>Threads\<close> (\<open>base/spin_lock.cc\<close>, \<open>thread.cc\<close>), \<open>Log\<close> (\<open>base/log.cc\<close>),
      \<open>Log_Thread\<close> (\<open>base/log_thread.cc\<close>): calendar dates, the slots of the cached time, the spin lock and the
      start of a thread as step relations, messages in their buffer, the two lists of the log thread. (Nothing starts the
      timer thread, so as it is the clock stands still and no timer fires; what is shown of timers and of \<open>Timeout\<close> is what
      they do when they are due.)
    \<^item> \<open>Sync\<close> (\<open>base/singleton.h\<close>, \<open>mutex.h\<close>, \<open>lock.cc\<close>, \<open>condition.cc\<close>, \<open>atomic.h\<close>): \<open>Instance\<close> as a step relation over any
      number of threads, the recursive mutex, the read-write lock and the guards, the atomic counter.
    \<^item> \<open>Worker\<close> (\<open>core/message.h\<close>, \<open>worker.cc\<close>), \<open>Application\<close> (\<open>core/application.cc\<close>, \<open>listener.cc\<close>): the mailbox as a queue between
      calls (locale \<open>mail\<close>, interpreted on \<open>Mailbox\<close>), what a worker does with its messages, services and
      listeners, the round robin over the workers. \<open>Services\<close>: the handlers and methods by address.
    \<^item> \<open>System\<close> (\<open>base/file.cc\<close>, \<open>util/system.cc\<close>, \<open>serverkit.cc\<close>): files, commands, call stacks, the entry points.

  \<^bold>\<open>Properties.\<close> Each stands after a text block with its claim id and is followed, where it has
  hypotheses, by a witness on concrete data. The first ones say what the components guarantee; those
  after them prove that defects of the code have the effects described, on every input of the stated kind.

  \<^bold>\<open>Bounds.\<close> \<open>Localtime\<close> is shown for times below \<open>60 * 2^31\<close> seconds, in the year 6053, where its \<open>int\<close> of
  minutes ends; \<open>stringAppendV\<close> for all lengths, with its own limit of 32 MB and an exception at
  \<open>2^31 - 1\<close> characters, where its \<open>int\<close> overflows; \<open>Poll\<close> for callbacks that add descriptors up to \<open>size_\<close>, since the vector of events moves
  beyond it; buffers for lists of less than
  \<open>2^64\<close> bytes, the range of their counters; the signal of a mailbox for values other than 0 and \<open>2^64-1\<close>; a
  connection as long as what each side writes fits into one block of 4096 bytes, since \<open>Send\<close> is wrong beyond it.

  \<^bold>\<open>Not modelled.\<close> Waiting on and notifying a condition, single calls of the system. Memory orders weaker than sequential
  consistency. \<open>TZSet\<close> and \<open>SleepMillisecs\<close>, the log statements inside other components (only \<open>ASSERT\<close>,
  which aborts, is kept), debug output of services, macros, tests and examples. Protobuf messages are byte
  strings with an arbitrary parser.
\<close>

end
